(* ===== verification/Mdsd_Prelude.thy ===== *)
theory Mdsd_Prelude
  imports Main "HOL-Library.Word" "HOL-Library.Sublist" "HOL-Library.Char_ord" "HOL-Library.AList"
begin

text \<open>
  Shared vocabulary of the development: byte strings and the \<open>std::string\<close> searches the
  code uses, decimal printing (\<open>std::to_string\<close>), the exception classes that the
  components throw, and the lemma collections by which one component's proofs reach
  another's, and what it means for one system to simulate another. A C++ \<open>std::string\<close> is an
  Isabelle \<open>string\<close>, one \<open>char\<close> per byte; \<open>std::string::npos\<close> is \<open>None\<close>.
\<close>

named_theorems queue_simps "what the queue operations do to the queue's contents"
named_theorems store_simps "what the cache operations do to its lookup function"
named_theorems text_simps "searching and printing of byte strings"

section \<open>Exceptions and results\<close>

text \<open>
  One constructor per class that is thrown (\<open>Exceptions.h\<close>, \<open>DataSender.cc\<close> and the
  standard classes), with the errno of a system error and the text handed to it.
\<close>

datatype exn =
    Invalid_Argument string
  | Out_Of_Range string
  | Runtime_Error string
  | Socket_Exception int string
  | System_Error int string
  | Future_Error
  | Interrupt_Exception
  | Reader_Interrupt_Exception

type_synonym 'a result = "exn + 'a"

text \<open>
  What a \<open>catch (const std::exception&)\<close> clause catches: every class but the two marker
  classes, which do not derive from \<open>std::exception\<close>.
\<close>

fun is_std_exception :: "exn \<Rightarrow> bool" where
  "is_std_exception Interrupt_Exception = False"
| "is_std_exception Reader_Interrupt_Exception = False"
| "is_std_exception _ = True"

fun is_socket_exception :: "exn \<Rightarrow> bool" where
  "is_socket_exception (Socket_Exception e msg) = True"
| "is_socket_exception _ = False"

fun is_invalid_argument :: "exn \<Rightarrow> bool" where
  "is_invalid_argument (Invalid_Argument msg) = True"
| "is_invalid_argument _ = False"

section \<open>Characters and searches\<close>

abbreviation newline :: char where "newline \<equiv> CHR 0x0A"
abbreviation nul :: char where "nul \<equiv> CHR 0x00"
abbreviation dquote :: char where "dquote \<equiv> CHR 0x22"

text \<open>\<open>std::string::find(c)\<close>: the first position of a character.\<close>

fun find_char :: "char \<Rightarrow> string \<Rightarrow> nat option" where
  "find_char c [] = None"
| "find_char c (x # xs) = (if x = c then Some 0 else map_option Suc (find_char c xs))"

text \<open>\<open>std::string::find_last_of(c)\<close>: the last one.\<close>

fun find_last_char :: "char \<Rightarrow> string \<Rightarrow> nat option" where
  "find_last_char c [] = None"
| "find_last_char c (x # xs) =
     (case find_last_char c xs of
        Some p \<Rightarrow> Some (Suc p)
      | None \<Rightarrow> if x = c then Some 0 else None)"

text \<open>The bytes a \<open>const char*\<close> stands for: up to the first NUL (\<open>strlen\<close>).\<close>

definition c_str :: "string \<Rightarrow> string" where
  "c_str s = takeWhile (\<lambda>c. c \<noteq> nul) s"

lemma find_char_None [text_simps]: "find_char c xs = None \<longleftrightarrow> c \<notin> set xs"
  by (induction xs) auto

lemma find_char_append [text_simps]:
  "c \<notin> set xs \<Longrightarrow> find_char c (xs @ c # ys) = Some (length xs)"
  by (induction xs) auto

lemma find_char_SomeD:
  "find_char c xs = Some p \<Longrightarrow> xs = take p xs @ c # drop (Suc p) xs \<and> c \<notin> set (take p xs) \<and> p < length xs"
  by (induction xs arbitrary: p) (auto split: if_splits)

lemma split_at_first:
  "c \<notin> set xs \<Longrightarrow> c \<notin> set xs' \<Longrightarrow> xs @ c # ys = xs' @ c # ys' \<longleftrightarrow> xs = xs' \<and> ys = ys'"
proof (induction xs arbitrary: xs')
  case Nil
  then show ?case by (cases xs') auto
next
  case (Cons x xs)
  then show ?case by (cases xs') auto
qed

lemma find_last_char_None [text_simps]: "find_last_char c xs = None \<longleftrightarrow> c \<notin> set xs"
  by (induction xs) (auto split: option.splits)

lemma find_last_char_append [text_simps]:
  "c \<notin> set ys \<Longrightarrow> find_last_char c (xs @ c # ys) = Some (length xs)"
  by (induction xs) (auto simp: find_last_char_None split: option.splits)

lemma c_str_id [text_simps]: "nul \<notin> set s \<Longrightarrow> c_str s = s"
  unfolding c_str_def by (rule takeWhile_eq_all_conv [THEN iffD2]) auto

lemma c_str_prefix: "prefix (c_str s) s"
  unfolding c_str_def by (metis prefixI takeWhile_dropWhile_id)

lemma c_str_cut: "nul \<in> set s \<Longrightarrow> length (c_str s) < length s"
  unfolding c_str_def by (induction s) auto

section \<open>Decimal numbers\<close>

definition digit :: "nat \<Rightarrow> char" where
  "digit d = char_of (48 + d)"

definition is_digit :: "char \<Rightarrow> bool" where
  "is_digit c \<longleftrightarrow> 48 \<le> (of_char c :: nat) \<and> (of_char c :: nat) \<le> 57"

definition digit_val :: "char \<Rightarrow> nat" where
  "digit_val c = of_char c - 48"

text \<open>\<open>std::to_string\<close> and \<open>operator<<\<close> on an unsigned integer.\<close>

fun to_string :: "nat \<Rightarrow> string" where
  "to_string n = (if n < 10 then [digit n] else to_string (n div 10) @ [digit (n mod 10)])"

declare to_string.simps [simp del]

text \<open>The same on a signed integer.\<close>

definition to_string_int :: "int \<Rightarrow> string" where
  "to_string_int i = (if i < 0 then CHR ''-'' # to_string (nat (- i)) else to_string (nat i))"

text \<open>Reading a run of digits back.\<close>

definition dec_val :: "string \<Rightarrow> nat" where
  "dec_val s = foldl (\<lambda>a c. 10 * a + digit_val c) 0 s"

lemma is_digit_digit: "d < 10 \<Longrightarrow> is_digit (digit d)"
  by (simp add: is_digit_def digit_def)

lemma digit_val_digit: "d < 10 \<Longrightarrow> digit_val (digit d) = d"
  by (simp add: digit_val_def digit_def)

lemma digit_numerals [simp]:
  "digit 0 = CHR ''0''" "digit (Suc 0) = CHR ''1''" "digit 1 = CHR ''1''" "digit 2 = CHR ''2''"
  "digit 3 = CHR ''3''" "digit 4 = CHR ''4''" "digit 5 = CHR ''5''" "digit 6 = CHR ''6''"
  "digit 7 = CHR ''7''" "digit 8 = CHR ''8''" "digit 9 = CHR ''9''"
  by code_simp+

lemma to_string_digits: "list_all is_digit (to_string n)"
proof (induction n rule: to_string.induct)
  case (1 n)
  then show ?case
    by (subst to_string.simps) (simp add: is_digit_digit)
qed

lemma to_string_nonempty [simp]: "to_string n \<noteq> []"
  by (subst to_string.simps) simp

lemma dec_val_snoc: "dec_val (s @ [c]) = 10 * dec_val s + digit_val c"
  by (simp add: dec_val_def)

lemma dec_val_to_string [text_simps]: "dec_val (to_string n) = n"
proof (induction n rule: to_string.induct)
  case (1 n)
  show ?case
  proof (cases "n < 10")
    case True
    then show ?thesis
      by (subst to_string.simps) (simp add: dec_val_def digit_val_digit)
  next
    case False
    with "1.IH" have "dec_val (to_string (n div 10)) = n div 10" by simp
    with False show ?thesis
      by (subst to_string.simps) (simp add: dec_val_snoc digit_val_digit)
  qed
qed

lemma inj_to_string: "inj to_string"
  by (metis dec_val_to_string injI)

lemma to_string_eq_iff [text_simps]: "to_string m = to_string n \<longleftrightarrow> m = n"
  using inj_to_string by (auto dest: injD)

lemma not_digit_in_to_string: "\<not> is_digit c \<Longrightarrow> c \<notin> set (to_string n)"
  using to_string_digits [of n] by (auto simp: list_all_iff)

lemma separators_not_digits [simp]:
  "\<not> is_digit newline" "\<not> is_digit CHR '',''" "\<not> is_digit CHR '':''" "\<not> is_digit nul"
  "\<not> is_digit dquote" "\<not> is_digit CHR '']''" "\<not> is_digit CHR ''[''"
  by (simp_all add: is_digit_def)

lemma separators_notin_to_string [simp]:
  "newline \<notin> set (to_string n)" "CHR '','' \<notin> set (to_string n)" "CHR '':'' \<notin> set (to_string n)"
  "nul \<notin> set (to_string n)"
  by (simp_all add: not_digit_in_to_string)

section \<open>Lists\<close>

lemma subseq_tl: "subseq (tl xs) xs"
  by (cases xs) auto

lemma subseq_drop: "subseq (drop n xs) xs"
  by (rule suffix_imp_subseq) (rule suffix_drop)

section \<open>Simulation\<close>

text \<open>A function from detailed to abstract states that turns steps into steps.\<close>

locale simulation =
  fixes cstep :: "'c \<Rightarrow> 'c \<Rightarrow> bool"
    and good :: "'c \<Rightarrow> bool"
    and astep :: "'a \<Rightarrow> 'a \<Rightarrow> bool"
    and ab :: "'c \<Rightarrow> 'a"
  assumes good_step: "cstep c c' \<Longrightarrow> good c \<Longrightarrow> good c'"
    and simulates: "cstep c c' \<Longrightarrow> good c \<Longrightarrow> astep (ab c) (ab c')"
begin

lemma simulates_runs: "cstep\<^sup>*\<^sup>* c c' \<Longrightarrow> good c \<Longrightarrow> good c' \<and> astep\<^sup>*\<^sup>* (ab c) (ab c')"
proof (induction rule: rtranclp_induct)
  case (step c' c'')
  then show ?case using good_step simulates rtranclp.rtrancl_into_rtrancl by metis
qed simp

text \<open>What every abstract step preserves holds along every run.\<close>

lemma abstract_invariant:
  assumes "cstep\<^sup>*\<^sup>* c c'" "good c" "I (ab c)" "\<And>a a'. astep a a' \<Longrightarrow> I a \<Longrightarrow> I a'"
  shows "I (ab c')"
proof -
  have "astep\<^sup>*\<^sup>* (ab c) (ab c')" using simulates_runs [OF assms(1,2)] by simp
  then show ?thesis using assms(3,4) by (induction rule: rtranclp_induct) auto
qed

end

end
