(* ===== verification/Concurrent_Map.thy ===== *)
theory Concurrent_Map
  imports Mdsd_Prelude
begin

text \<open>
  \<open>src/src/outmdsd/ConcurrentMap.h\<close>: the mutex-protected hash map from tags to items.
  Each operation holds the mutex throughout and is one atomic step. The guarded
  \<open>std::unordered_map\<close> is an association list; the order in which its iterators visit the
  entries is unspecified by the language and is therefore an argument \<open>ord\<close> of the two
  iterating operations, any enumeration of the keys (\<open>visits\<close>).
\<close>

section \<open>State and operations\<close>

type_synonym 'v cmap = "(string \<times> 'v) list"

definition keys :: "'v cmap \<Rightarrow> string list" where
  "keys m = map fst m"

definition map_add :: "string \<Rightarrow> 'v \<Rightarrow> 'v cmap \<Rightarrow> 'v cmap result" where
  "map_add key value m =
     (if key = [] then Inl (Invalid_Argument ''Invalid empty string for map key.'')
      else Inr (AList.update key value m))"

text \<open>\<open>m_cache.erase(key)\<close> of the underlying \<open>unordered_map\<close>.\<close>

definition erase_key :: "string \<Rightarrow> 'v cmap \<Rightarrow> nat \<times> 'v cmap" where
  "erase_key key m = (if key \<in> set (keys m) then 1 else 0, AList.delete key m)"

definition map_erase :: "string \<Rightarrow> 'v cmap \<Rightarrow> nat \<times> 'v cmap" where
  "map_erase key m = (if key = [] then (0, m) else erase_key key m)"

fun erase_loop :: "string list \<Rightarrow> nat \<Rightarrow> 'v cmap \<Rightarrow> nat \<times> 'v cmap" where
  "erase_loop [] nTotal m = (nTotal, m)"
| "erase_loop (key # keylist) nTotal m =
     (let (nErased, m') = erase_key key m in erase_loop keylist (nTotal + nErased) m')"

definition map_erase_list :: "string list \<Rightarrow> 'v cmap \<Rightarrow> nat \<times> 'v cmap" where
  "map_erase_list keylist m = (if keylist = [] then (0, m) else erase_loop keylist 0 m)"

definition visits :: "string list \<Rightarrow> 'v cmap \<Rightarrow> bool" where
  "visits ord m \<longleftrightarrow> distinct ord \<and> set ord = set (keys m)"

fun filter_each :: "('v \<Rightarrow> bool) \<Rightarrow> string list \<Rightarrow> 'v cmap \<Rightarrow> string list" where
  "filter_each fn [] m = []"
| "filter_each fn (k # ord) m =
     (case map_of m k of
        Some v \<Rightarrow> (if fn v then k # filter_each fn ord m else filter_each fn ord m)
      | None \<Rightarrow> filter_each fn ord m)"

text \<open>
  \<open>ForEachUnsafe\<close>: the callback acts on a state of the caller and may throw, which ends
  the iteration.
\<close>

fun for_each_unsafe ::
  "('v \<Rightarrow> 's \<Rightarrow> exn option \<times> 's) \<Rightarrow> string list \<Rightarrow> 'v cmap \<Rightarrow> 's \<Rightarrow> exn option \<times> 's" where
  "for_each_unsafe fn [] m s = (None, s)"
| "for_each_unsafe fn (k # ord) m s =
     (case map_of m k of
        Some v \<Rightarrow> (case fn v s of
                     (None, s') \<Rightarrow> for_each_unsafe fn ord m s'
                   | (Some e, s') \<Rightarrow> (Some e, s'))
      | None \<Rightarrow> for_each_unsafe fn ord m s)"

definition map_get :: "string \<Rightarrow> 'v cmap \<Rightarrow> 'v result" where
  "map_get key m =
     (if key = [] then Inl (Invalid_Argument ''Invalid empty string for map key.'')
      else case map_of m key of
             None \<Rightarrow> Inl (Out_Of_Range (''ConcurrentMap::Get(): key not found '' @ key))
           | Some v \<Rightarrow> Inr v)"

definition map_size :: "'v cmap \<Rightarrow> nat" where
  "map_size m = length m"

definition for_each ::
  "('v \<Rightarrow> 's \<Rightarrow> exn option \<times> 's) \<Rightarrow> string list \<Rightarrow> 'v cmap \<Rightarrow> 's \<Rightarrow> exn option \<times> 's" where
  "for_each fn ord m s = for_each_unsafe fn ord m s"

text \<open>
  Copying and moving, as functions of the two maps: \<open>same\<close> says that both sides are one
  object, and \<open>left\<close> is what the library leaves in a moved-from map, which is unspecified.
  Each returns the new left side, and the moving ones also what the right side has become.
\<close>

definition copy_map :: "'v cmap \<Rightarrow> 'v cmap" where
  "copy_map other = other"

definition move_map :: "'v cmap \<Rightarrow> 'v cmap \<Rightarrow> 'v cmap \<times> 'v cmap" where
  "move_map left other = (other, left)"

definition assign_map :: "bool \<Rightarrow> 'v cmap \<Rightarrow> 'v cmap \<Rightarrow> 'v cmap" where
  "assign_map same this other = (if same then this else other)"

definition move_assign_map :: "bool \<Rightarrow> 'v cmap \<Rightarrow> 'v cmap \<Rightarrow> 'v cmap \<Rightarrow> 'v cmap \<times> 'v cmap" where
  "move_assign_map same left this other = (if same then (this, other) else (other, left))"

text \<open>The class invariant: one entry per key, and no entry under the empty key.\<close>

definition cmap_wf :: "'v cmap \<Rightarrow> bool" where
  "cmap_wf m \<longleftrightarrow> distinct (keys m) \<and> [] \<notin> set (keys m)"

section \<open>Lookup laws\<close>

lemma cmap_wf_Nil [simp]: "cmap_wf []"
  by (simp add: cmap_wf_def keys_def)

lemma in_keys_iff [store_simps]: "k \<in> set (keys m) \<longleftrightarrow> map_of m k \<noteq> None"
  by (simp add: keys_def map_of_eq_None_iff)

lemma keys_dom [store_simps]: "set (keys m) = dom (map_of m)"
  by (simp add: keys_def dom_map_of_conv_image_fst)

lemma wf_empty_key [store_simps]: "cmap_wf m \<Longrightarrow> map_of m [] = None"
  by (simp add: cmap_wf_def in_keys_iff)

lemma wf_update: "cmap_wf m \<Longrightarrow> k \<noteq> [] \<Longrightarrow> cmap_wf (AList.update k v m)"
  by (simp add: cmap_wf_def keys_def distinct_update dom_update)

lemma wf_delete: "cmap_wf m \<Longrightarrow> cmap_wf (AList.delete k m)"
  by (simp add: cmap_wf_def keys_def delete_keys distinct_removeAll)

lemma map_of_delete [store_simps]: "map_of (AList.delete k m) = (map_of m)(k := None)"
  by (simp add: delete_conv')

lemma map_of_update [store_simps]: "map_of (AList.update k v m) = (map_of m)(k \<mapsto> v)"
  by (simp add: update_conv')

lemma wf_copies:
  assumes "cmap_wf this" "cmap_wf other" "cmap_wf left"
  shows "cmap_wf (copy_map other)" "cmap_wf (assign_map same this other)"
    "pred_prod cmap_wf cmap_wf (move_map left other)"
    "pred_prod cmap_wf cmap_wf (move_assign_map same left this other)"
  using assms by (simp_all add: copy_map_def assign_map_def move_map_def move_assign_map_def)

lemma wf_size: "cmap_wf m \<Longrightarrow> map_size m = card (dom (map_of m))"
  unfolding cmap_wf_def map_size_def keys_def dom_map_of_conv_image_fst
  by (metis distinct_card length_map list.set_map)

section \<open>The contract of a keyed store\<close>

text \<open>
  What the sender, the resender and the reader rely on: the store is a finite map without
  an entry at the empty key, its insertion overwrites, its erasure counts, and its fetch
  throws exactly when the key is absent.
\<close>

locale keyed_store =
  fixes look :: "'s \<Rightarrow> string \<Rightarrow> 'v option"
    and good :: "'s \<Rightarrow> bool"
    and add :: "string \<Rightarrow> 'v \<Rightarrow> 's \<Rightarrow> 's result"
    and erase :: "string \<Rightarrow> 's \<Rightarrow> nat \<times> 's"
    and fetch :: "string \<Rightarrow> 's \<Rightarrow> 'v result"
    and count :: "'s \<Rightarrow> nat"
  assumes add_ok: "good s \<Longrightarrow> k \<noteq> [] \<Longrightarrow> \<exists>s'. add k v s = Inr s' \<and> good s' \<and> look s' = (look s)(k \<mapsto> v)"
    and add_empty: "\<exists>msg. add [] v s = Inl (Invalid_Argument msg)"
    and erase_good: "good s \<Longrightarrow> good (snd (erase k s))"
    and erase_look: "good s \<Longrightarrow> look (snd (erase k s)) = (look s)(k := None)"
    and erase_count: "good s \<Longrightarrow> fst (erase k s) = (if look s k = None then 0 else 1)"
    and fetch_some: "good s \<Longrightarrow> look s k = Some v \<Longrightarrow> fetch k s = Inr v"
    and fetch_none: "k \<noteq> [] \<Longrightarrow> look s k = None \<Longrightarrow> \<exists>msg. fetch k s = Inl (Out_Of_Range msg)"
    and count_card: "good s \<Longrightarrow> count s = card (dom (look s))"
    and look_finite: "good s \<Longrightarrow> finite (dom (look s))"
begin

lemma add_good: "good s \<Longrightarrow> add k v s = Inr s' \<Longrightarrow> good s'"
  using add_ok [of s k v] add_empty [of v s] by (cases "k = []") auto

lemma add_look: "good s \<Longrightarrow> add k v s = Inr s' \<Longrightarrow> look s' = (look s)(k \<mapsto> v)"
  using add_ok [of s k v] add_empty [of v s] by (cases "k = []") auto

lemma add_then_fetch: "good s \<Longrightarrow> add k v s = Inr s' \<Longrightarrow> fetch k s' = Inr v"
  by (rule fetch_some) (auto simp: add_look dest: add_good)

text \<open>
  The window between an insertion and the following fetch: if the entry is erased in
  between, the fetch throws.
\<close>

lemma erase_then_fetch:
  "good s \<Longrightarrow> k \<noteq> [] \<Longrightarrow> \<exists>msg. fetch k (snd (erase k s)) = Inl (Out_Of_Range msg)"
  by (rule fetch_none) (simp_all add: erase_look)

lemma erase_other: "good s \<Longrightarrow> k \<noteq> j \<Longrightarrow> look (snd (erase k s)) j = look s j"
  by (simp add: erase_look)

lemma erase_idem: "good s \<Longrightarrow> fst (erase k (snd (erase k s))) = 0"
  by (simp add: erase_count erase_good erase_look)

lemma erase_shrinks: "good s \<Longrightarrow> count (snd (erase k s)) + fst (erase k s) = count s"
  using look_finite [of s] card_Suc_Diff1 [of "dom (look s)" k]
  by (cases "look s k") (auto simp: count_card erase_good erase_look erase_count domIff)

end

interpretation cm: keyed_store map_of cmap_wf map_add map_erase map_get map_size
proof unfold_locales
  show "\<exists>s'. map_add k v s = Inr s' \<and> cmap_wf s' \<and> map_of s' = (map_of s)(k \<mapsto> v)"
    if "cmap_wf s" "k \<noteq> []" for k v and s :: "'a cmap"
    using that by (simp add: map_add_def wf_update store_simps)
  show "map_get k s = Inr v" if "cmap_wf s" "map_of s k = Some v" for k v and s :: "'a cmap"
    using that wf_empty_key [of s] by (auto simp: map_get_def)
  show "finite (dom (map_of s))" for s :: "'a cmap"
    by (rule finite_dom_map_of)
qed (auto simp: map_add_def map_erase_def erase_key_def map_get_def store_simps wf_delete wf_size)

lemmas cmap_wf_intros = cmap_wf_Nil wf_delete cm.add_good cm.erase_good

section \<open>Erasing lists and filtering\<close>

definition without :: "string set \<Rightarrow> (string \<Rightarrow> 'v option) \<Rightarrow> (string \<Rightarrow> 'v option)" where
  "without ks f = (\<lambda>k. if k \<in> ks then None else f k)"

lemma without_simps [store_simps]:
  "without {} f = f" "(without ks f)(k := None) = without (insert k ks) f"
  "dom (without ks f) = dom f - ks" "without ks f k = (if k \<in> ks then None else f k)"
  by (auto simp: without_def domIff split: if_splits)

lemma without_without: "without ks (f(k := None)) = without (insert k ks) f"
  by (auto simp: without_def)

lemma erase_loop_snd [store_simps]:
  "map_of (snd (erase_loop ks n m)) = without (set ks) (map_of m)"
  by (induction ks arbitrary: n m)
    (simp_all add: erase_key_def Let_def store_simps without_without del: without_simps(4) fun_upd_apply)

lemma erase_loop_wf: "cmap_wf m \<Longrightarrow> cmap_wf (snd (erase_loop ks n m))"
  by (induction ks arbitrary: n m) (simp_all add: erase_key_def wf_delete)

lemma erase_loop_fst:
  "fst (erase_loop ks n m) = n + card (set ks \<inter> dom (map_of m))"
proof (induction ks arbitrary: n m)
  case (Cons k ks)
  have "set (k # ks) \<inter> dom (map_of m) =
      (if map_of m k = None then {} else {k}) \<union> (set ks \<inter> dom ((map_of m)(k := None)))"
    by (auto simp: domIff)
  moreover have "k \<notin> set ks \<inter> dom ((map_of m)(k := None))" by simp
  ultimately have "card (set (k # ks) \<inter> dom (map_of m)) =
      (if map_of m k = None then 0 else 1) + card (set ks \<inter> dom ((map_of m)(k := None)))"
    by simp
  with Cons.IH [of _ "AList.delete k m"] show ?case
    by (simp add: erase_key_def in_keys_iff map_of_delete del: fun_upd_apply)
qed simp

lemma map_erase_list_loop: "map_erase_list ks m = erase_loop ks 0 m"
  by (simp add: map_erase_list_def)

lemma filter_each_set:
  "set (filter_each fn ord m) = {k \<in> set ord. \<exists>v. map_of m k = Some v \<and> fn v}"
  by (induction fn ord m rule: filter_each.induct) (auto split: option.splits)

lemma filter_each_distinct: "distinct ord \<Longrightarrow> distinct (filter_each fn ord m)"
  by (induction fn ord m rule: filter_each.induct)
    (auto simp: filter_each_set split: option.splits)

lemma visits_keys: "cmap_wf m \<Longrightarrow> visits (keys m) m"
  by (simp add: visits_def cmap_wf_def)

section \<open>Properties\<close>

text \<open>
  The cache is a map. After \<open>Add(key, value)\<close> succeeds, \<open>Get(key)\<close> returns the
  value, every other key answers as before, and an existing entry is replaced rather than
  duplicated, so \<open>Size()\<close> grows by one exactly for a new key.
\<close>

theorem cache_add_get:
  assumes "cmap_wf m" and "map_add k v m = Inr m'"
  shows "map_get k m' = Inr v \<and> (\<forall>j. j \<noteq> k \<longrightarrow> map_get j m' = map_get j m)
    \<and> map_size m' = map_size m + (if k \<in> set (keys m) then 0 else 1)"
proof -
  have look: "map_of m' = (map_of m)(k \<mapsto> v)"
    using assms by (rule cm.add_look)
  have "map_size m' = map_size m + (if k \<in> set (keys m) then 0 else 1)"
    using assms cm.add_good [OF assms] cm.look_finite [OF assms(1)]
    by (simp add: wf_size look in_keys_iff card_insert_if domIff)
  with cm.add_then_fetch [OF assms] look show ?thesis
    by (simp add: map_get_def)
qed

theorem cache_add_get_witness:
  "map_get ''7'' [(''5'', False), (''7'', True)] = Inr True"
  using cache_add_get [of "[(''5'', False)]" "''7''" True "[(''5'', False), (''7'', True)]"]
  by (simp add: cmap_wf_def keys_def map_add_def)

text \<open>
  Erasing a list of keys removes exactly these keys and returns how many entries it
  removed, whatever keys of the list are repeated, absent or empty.
\<close>

theorem erase_list_exact:
  assumes "cmap_wf m"
  shows "fst (map_erase_list ks m) = card (set ks \<inter> set (keys m))
    \<and> (\<forall>k. map_of (snd (map_erase_list ks m)) k = (if k \<in> set ks then None else map_of m k))
    \<and> map_size (snd (map_erase_list ks m)) + fst (map_erase_list ks m) = map_size m"
proof -
  let ?m' = "snd (map_erase_list ks m)"
  have wf': "cmap_wf ?m'" using assms by (simp add: map_erase_list_loop erase_loop_wf)
  have "map_size ?m' = card (dom (map_of m) - set ks)"
    by (simp add: wf_size [OF wf']) (simp add: map_erase_list_loop store_simps)
  moreover have "map_size m = card (dom (map_of m))" by (rule wf_size) (rule assms)
  moreover have "card (dom (map_of m) - set ks) + card (dom (map_of m) \<inter> set ks) = card (dom (map_of m))"
    using card_Int_Diff [OF cm.look_finite [OF assms], of "set ks"] by simp
  ultimately show ?thesis
    by (simp add: map_erase_list_loop erase_loop_fst store_simps Int_commute)
qed

theorem erase_list_exact_witness:
  "fst (map_erase_list [''9'', ''5'', ''5''] [(''5'', 1::nat), (''7'', 2)]) = 1"
  using erase_list_exact [of "[(''5'', 1::nat), (''7'', 2)]" "[''9'', ''5'', ''5'']"]
  by (simp add: cmap_wf_def keys_def)

text \<open>
  \<open>FilterEach\<close> returns every key whose value satisfies the predicate, once, in
  whatever order the hash table iterates; erasing its result leaves exactly the entries
  whose value fails the predicate.
\<close>

theorem filter_then_erase:
  assumes "cmap_wf m" and "visits ord m"
  shows "distinct (filter_each fn ord m)
    \<and> (\<forall>k. k \<in> set (filter_each fn ord m) \<longleftrightarrow> (\<exists>v. map_of m k = Some v \<and> fn v))
    \<and> (\<forall>k. map_of (snd (map_erase_list (filter_each fn ord m) m)) k =
          (case map_of m k of Some v \<Rightarrow> if fn v then None else Some v | None \<Rightarrow> None))"
proof -
  have "k \<in> set (filter_each fn ord m) \<longleftrightarrow> (\<exists>v. map_of m k = Some v \<and> fn v)" for k
    using assms(2) by (auto simp: filter_each_set visits_def store_simps)
  with assms(2) show ?thesis
    by (auto simp: filter_each_distinct visits_def map_erase_list_loop store_simps split: option.splits)
qed

theorem filter_then_erase_witness:
  "distinct (filter_each even [''b'', ''a''] [(''a'', 1::nat), (''b'', 2)])"
  using filter_then_erase [of "[(''a'', 1::nat), (''b'', 2)]" "[''b'', ''a'']" even]
  by (auto simp: cmap_wf_def keys_def visits_def)

end
