(* ===== verification/Log_Item.thy ===== *)
theory Log_Item
  imports Mdsd_Prelude "HOL-Library.Signed_Division"
begin

text \<open>
  \<open>src/src/outmdsd/LogItem.h\<close>: the base class of the items that are sent, with its tag,
  taken from a global 64-bit counter, and the time it was last touched. The steady clock is
  a number of nanoseconds (an \<open>int\<close>), passed in where the code reads it.
\<close>

section \<open>State and operations\<close>

record log_item =
  m_tag :: string
  m_touchTime :: int

type_synonym counter = "64 word"

text \<open>The constructor: increments \<open>s_counter\<close> atomically and prints its new value.\<close>

definition new_log_item :: "int \<Rightarrow> counter \<Rightarrow> log_item \<times> counter" where
  "new_log_item now s_counter =
     (let s_counter' = s_counter + 1
      in (\<lparr>m_tag = to_string (unat s_counter'), m_touchTime = now\<rparr>, s_counter'))"

definition GetTag :: "'a log_item_scheme \<Rightarrow> string" where
  "GetTag item = m_tag item"

definition Touch :: "int \<Rightarrow> 'a log_item_scheme \<Rightarrow> 'a log_item_scheme" where
  "Touch now item = item\<lparr>m_touchTime := now\<rparr>"

text \<open>
  The elapsed nanoseconds divided by one million, rounded towards zero, then converted to
  the \<open>int\<close> of the return type (\<open>sint\<close> reads the result as the caller does).
\<close>

definition GetLastTouchMilliSeconds :: "int \<Rightarrow> 'a log_item_scheme \<Rightarrow> 32 word" where
  "GetLastTouchMilliSeconds now item = word_of_int ((now - m_touchTime item) sdiv 1000000)"

lemma new_log_item_tag: "GetTag (fst (new_log_item now c)) = to_string (unat (c + 1))"
  by (simp add: new_log_item_def Let_def GetTag_def)

lemma new_log_item_counter: "snd (new_log_item now c) = c + 1"
  by (simp add: new_log_item_def Let_def)

lemma tag_nonempty: "GetTag (fst (new_log_item now c)) \<noteq> []"
  by (simp add: new_log_item_tag)

lemma tag_decimal: "list_all is_digit (GetTag (fst (new_log_item now c)))"
  by (simp add: new_log_item_tag to_string_digits)

text \<open>The items made by successive constructor calls at the given times.\<close>

fun new_log_items :: "int list \<Rightarrow> counter \<Rightarrow> log_item list" where
  "new_log_items [] c = []"
| "new_log_items (now # nows) c =
     (let (item, c') = new_log_item now c in item # new_log_items nows c')"

lemma new_log_items_tags:
  "map GetTag (new_log_items nows c) = map (\<lambda>i. to_string (unat (c + word_of_nat (Suc i)))) [0..<length nows]"
proof (induction nows arbitrary: c)
  case (Cons now nows)
  have "map GetTag (new_log_items (now # nows) c)
      = to_string (unat (c + 1)) # map GetTag (new_log_items nows (c + 1))"
    by (simp add: new_log_item_def Let_def GetTag_def)
  also have "\<dots> = map (\<lambda>i. to_string (unat (c + word_of_nat (Suc i)))) (0 # map Suc [0..<length nows])"
    by (simp add: Cons.IH o_def algebra_simps)
  also have "0 # map Suc [0..<length nows] = [0..<length (now # nows)]"
    by (simp add: map_Suc_upt upt_conv_Cons del: upt_Suc)
  finally show ?case .
qed simp

lemma counter_tags_distinct:
  assumes "n \<le> 2 ^ 64"
  shows "distinct (map (\<lambda>i. to_string (unat ((c :: 64 word) + word_of_nat (Suc i)))) [0..<n])"
proof -
  have "inj_on (\<lambda>i. to_string (unat (c + word_of_nat (Suc i)))) {0..<n}"
  proof (rule inj_onI)
    fix i j
    assume ij: "i \<in> {0..<n}" "j \<in> {0..<n}"
      and "to_string (unat (c + word_of_nat (Suc i))) = to_string (unat (c + word_of_nat (Suc j)))"
    then have "c + (1 + word_of_nat i) = c + (1 + (word_of_nat j :: 64 word))"
      by (simp add: to_string_eq_iff word_unat_eq_iff)
    then have "(word_of_nat i :: 64 word) = word_of_nat j" by simp
    then have "i mod 2 ^ 64 = j mod 2 ^ 64"
      by (simp add: word_unat_eq_iff unat_of_nat)
    with ij assms show "i = j" by simp
  qed
  then show ?thesis by (simp add: distinct_map)
qed

section \<open>Properties\<close>

text \<open>
  C37: tags are unique. Of any up to \<open>2^64\<close> items constructed in a row, from any value of the
  counter, no two have the same tag; the counter may wrap around in between.
\<close>

theorem tags_distinct:
  assumes "length nows \<le> 2 ^ 64"
  shows "distinct (map GetTag (new_log_items nows c))"
  using counter_tags_distinct [OF assms, of c] by (simp add: new_log_items_tags)

theorem tags_distinct_witness:
  "distinct (map GetTag (new_log_items [7, 8, 9] (- 2)))"
  by (rule tags_distinct) simp

text \<open>
  The age of an item is exact for 49 days and then wraps. Read as the unsigned number
  that the resender compares with its timeout, the age is the number of whole milliseconds
  since the item was last touched, modulo \<open>2^32\<close>.
\<close>

theorem last_touch_wraps:
  assumes "m_touchTime item \<le> now"
  shows "unat (GetLastTouchMilliSeconds now item) = nat ((now - m_touchTime item) div 1000000) mod 2 ^ 32"
proof -
  have "(now - m_touchTime item) sdiv 1000000 = (now - m_touchTime item) div 1000000"
    using assms by (cases "m_touchTime item = now") (simp_all add: signed_divide_int_def)
  moreover have "0 \<le> (now - m_touchTime item) div 1000000"
    using assms by (simp add: pos_imp_zdiv_nonneg_iff)
  ultimately show ?thesis
    by (simp add: GetLastTouchMilliSeconds_def nat_mod_distrib take_bit_eq_mod unsigned_of_int)
qed

theorem last_touch_wraps_witness:
  "unat (GetLastTouchMilliSeconds 4294967297000000 \<lparr>m_tag = ''1'', m_touchTime = 0\<rparr>) = 1"
  using last_touch_wraps [of "\<lparr>m_tag = ''1'', m_touchTime = 0\<rparr>" 4294967297000000] by simp

end
