(* ===== verification/Id_Mgr.thy ===== *)
theory Id_Mgr
  imports Mdsd_Prelude
begin

text \<open>
  \<open>src/src/outmdsd/IdMgr.h\<close> and \<open>IdMgr.cc\<close>: the cache that gives every schema a 64-bit id.
  The guarded \<open>unordered_map\<close> is an association list from keys to pairs of an id and a
  text; every operation runs under the mutex.
\<close>

section \<open>State and operations\<close>

type_synonym value_type_t = "64 word \<times> string"
type_synonym idmgr = "(string \<times> value_type_t) list"

text \<open>
  \<open>GetItem(key, result)\<close>: the pair of the returned flag and the value left in
  \<open>result\<close>, which is untouched when the key is not found.
\<close>

definition GetItem :: "string \<Rightarrow> value_type_t \<Rightarrow> idmgr \<Rightarrow> (bool \<times> value_type_t) result" where
  "GetItem key res m =
     (if key = [] then Inl (Invalid_Argument ''GetItem(): invalid empty string for 'key' parameter.'')
      else case map_of m key of
             None \<Rightarrow> Inr (False, res)
           | Some v \<Rightarrow> Inr (True, v))"

definition FindOrInsert :: "string \<Rightarrow> string \<Rightarrow> idmgr \<Rightarrow> (64 word \<times> idmgr) result" where
  "FindOrInsert key data m =
     (if key = [] then Inl (Invalid_Argument ''FindOrInsert(): invalid empty string for 'key' parameter.'')
      else if data = [] then Inl (Invalid_Argument ''FindOrInsert(): invalid empty string for 'data' parameter.'')
      else case map_of m key of
             None \<Rightarrow> (let ident = word_of_nat (length m + 1)
                      in Inr (ident, AList.update key (ident, data) m))
           | Some v \<Rightarrow>
               if data \<noteq> snd v
               then Inl (Runtime_Error (''FindOrInsert(): same key has diff values: expected='' @
                      data @ ''; actual='' @ snd v))
               else Inr (fst v, m))"

definition Insert :: "string \<Rightarrow> value_type_t \<Rightarrow> idmgr \<Rightarrow> idmgr result" where
  "Insert key v m =
     (if key = [] then Inl (Invalid_Argument ''Insert(): invalid empty string for 'key' parameter.'')
      else if snd v = [] then Inl (Invalid_Argument ''Insert(): invalid empty string for 'value' parameter.'')
      else case map_of m key of
             None \<Rightarrow> Inr (AList.update key v m)
           | Some _ \<Rightarrow> Inr m)"

section \<open>The ids handed out by \<open>FindOrInsert\<close>\<close>

text \<open>
  The state of a cache that only \<open>FindOrInsert\<close> has filled: one entry per key, no empty key
  or text, and the ids are the numbers from 1 on, in the order of insertion.
\<close>

definition ids_dense :: "idmgr \<Rightarrow> bool" where
  "ids_dense m \<longleftrightarrow>
     distinct (map fst m) \<and> (\<forall>(k, i, d) \<in> set m. k \<noteq> [] \<and> d \<noteq> []) \<and>
     map (\<lambda>e. fst (snd e)) m = map word_of_nat [1..<Suc (length m)]"

lemma ids_dense_Nil [simp]: "ids_dense []"
  by (simp add: ids_dense_def)

lemma update_new: "map_of m k = None \<Longrightarrow> AList.update k v m = m @ [(k, v)]"
  by (induction m) (auto split: if_splits)

lemma FindOrInsert_new:
  "k \<noteq> [] \<Longrightarrow> d \<noteq> [] \<Longrightarrow> map_of m k = None \<Longrightarrow>
   FindOrInsert k d m = Inr (word_of_nat (Suc (length m)), m @ [(k, word_of_nat (Suc (length m)), d)])"
  by (simp add: FindOrInsert_def Let_def update_new)

lemma FindOrInsert_known:
  "k \<noteq> [] \<Longrightarrow> d \<noteq> [] \<Longrightarrow> map_of m k = Some (i, d) \<Longrightarrow> FindOrInsert k d m = Inr (i, m)"
  by (simp add: FindOrInsert_def)

lemma FindOrInsert_cases:
  assumes "FindOrInsert k d m = Inr (i, m')"
  obtains (known) "map_of m k = Some (i, d)" "m' = m" "k \<noteq> []" "d \<noteq> []"
  | (fresh) "map_of m k = None" "i = word_of_nat (Suc (length m))" "m' = m @ [(k, i, d)]" "k \<noteq> []" "d \<noteq> []"
proof -
  have "k \<noteq> []" "d \<noteq> []" using assms by (auto simp: FindOrInsert_def split: if_splits)
  then show thesis
    using assms that FindOrInsert_new [of k d m]
    by (cases "map_of m k") (auto simp: FindOrInsert_def split: if_splits)
qed

lemma FindOrInsert_dense:
  assumes "ids_dense m" and "FindOrInsert k d m = Inr (i, m')"
  shows "ids_dense m'"
  using assms(2)
proof (cases rule: FindOrInsert_cases)
  case known
  with assms(1) show ?thesis by simp
next
  case fresh
  with assms(1) show ?thesis
    by (auto simp: ids_dense_def map_of_eq_None_iff)
qed

lemma dense_ids_distinct:
  assumes "ids_dense m" and "length m < 2 ^ 64"
  shows "distinct (map (\<lambda>e. fst (snd e)) m)"
proof -
  have "inj_on (word_of_nat :: nat \<Rightarrow> 64 word) {1..<Suc (length m)}"
    using assms(2) by (intro inj_onI) (simp add: unat_of_nat word_unat_eq_iff)
  then have "distinct (map (word_of_nat :: nat \<Rightarrow> 64 word) [1..<Suc (length m)])"
    by (simp only: distinct_map distinct_upt set_upt simp_thms)
  with assms(1) show ?thesis by (simp only: ids_dense_def)
qed

lemma dense_ids_inject:
  assumes "ids_dense m" "length m < 2 ^ 64" "map_of m k1 = Some (i, d1)" "map_of m k2 = Some (i, d2)"
  shows "k1 = k2"
proof -
  have "inj_on (\<lambda>e. fst (snd e)) (set m)"
    using dense_ids_distinct [OF assms(1,2)] by (simp add: distinct_map)
  then show ?thesis
    using map_of_SomeD [OF assms(3)] map_of_SomeD [OF assms(4)]
    by (auto dest: inj_onD [of _ "set m" "(k1, i, d1)" "(k2, i, d2)"])
qed

section \<open>The contract of an interning store\<close>

text \<open>A sequence of requests; a request that throws leaves the store as it was.\<close>

fun intern_run ::
  "(string \<Rightarrow> string \<Rightarrow> 's \<Rightarrow> ('i \<times> 's) result) \<Rightarrow> (string \<times> string) list \<Rightarrow> 's \<Rightarrow> 's" where
  "intern_run intern [] s = s"
| "intern_run intern ((k, d) # calls) s =
     (case intern k d s of
        Inl e \<Rightarrow> intern_run intern calls s
      | Inr (i, s') \<Rightarrow> intern_run intern calls s')"

text \<open>
  What the composition of messages relies on: interning a text under a key returns an id
  under which the store then holds it, keeps every earlier entry, and answers a repeated
  request with the same id.
\<close>

locale interner =
  fixes look :: "'s \<Rightarrow> string \<Rightarrow> ('i \<times> string) option"
    and intern :: "string \<Rightarrow> string \<Rightarrow> 's \<Rightarrow> ('i \<times> 's) result"
  assumes intern_holds: "intern k d s = Inr (i, s') \<Longrightarrow> look s' k = Some (i, d)"
    and intern_keeps: "intern k d s = Inr (i, s') \<Longrightarrow> look s j = Some v \<Longrightarrow> look s' j = Some v"
    and intern_other: "intern k d s = Inr (i, s') \<Longrightarrow> j \<noteq> k \<Longrightarrow> look s' j = look s j"
    and intern_again: "intern k d s = Inr (i, s') \<Longrightarrow> intern k d s' = Inr (i, s')"
begin

lemma intern_run_keeps: "look s j = Some v \<Longrightarrow> look (intern_run intern calls s) j = Some v"
proof (induction calls arbitrary: s)
  case (Cons c calls)
  then show ?case
    by (cases c; cases "intern (fst c) (snd c) s") (auto intro: Cons.IH intern_keeps)
qed simp

text \<open>A text once interned answers with its id after any further calls.\<close>

lemma intern_stable:
  "intern k d s = Inr (i, s') \<Longrightarrow> look (intern_run intern calls s') k = Some (i, d)"
  by (rule intern_run_keeps) (rule intern_holds)

end

interpretation im: interner map_of FindOrInsert
proof unfold_locales
  show "FindOrInsert k d m' = Inr (i, m')" if "FindOrInsert k d m = Inr (i, m')" for k d m m' i
    using that by (cases rule: FindOrInsert_cases)
      (auto intro!: FindOrInsert_known simp: map_add_def)
qed (auto elim!: FindOrInsert_cases simp: map_add_def split: option.splits)

lemma find_all_dense: "ids_dense m \<Longrightarrow> ids_dense (intern_run FindOrInsert calls m)"
proof (induction calls arbitrary: m)
  case (Cons c calls)
  then show ?case
    by (cases c; cases "FindOrInsert (fst c) (snd c) m") (auto intro: Cons.IH FindOrInsert_dense)
qed simp

lemma FindOrInsert_length: "FindOrInsert k d m = Inr (i, m') \<Longrightarrow> length m' \<le> Suc (length m)"
  by (auto elim: FindOrInsert_cases)

lemma find_all_length: "length (intern_run FindOrInsert calls m) \<le> length m + length calls"
proof (induction calls arbitrary: m)
  case (Cons c calls)
  show ?case
  proof (cases "FindOrInsert (fst c) (snd c) m")
    case (Inl e)
    with Cons.IH [of m] show ?thesis by (cases c) simp
  next
    case (Inr r)
    then obtain i m' where "FindOrInsert (fst c) (snd c) m = Inr (i, m')" by (cases r) auto
    with Cons.IH [of m'] FindOrInsert_length [OF this] show ?thesis by (cases c) simp
  qed
qed simp

section \<open>Properties\<close>

text \<open>
  \<open>FindOrInsert\<close> hands out unique ids. After any sequence of fewer than \<open>2^64\<close> calls on
  a new cache, two different keys of the cache have different ids.
\<close>

theorem schema_ids_unique:
  assumes "length calls < 2 ^ 64"
    and "map_of (intern_run FindOrInsert calls []) k1 = Some (i1, d1)"
    and "map_of (intern_run FindOrInsert calls []) k2 = Some (i2, d2)"
    and "k1 \<noteq> k2"
  shows "i1 \<noteq> i2"
proof
  assume "i1 = i2"
  have "length (intern_run FindOrInsert calls []) < 2 ^ 64"
    using assms(1) find_all_length [of calls "[]"] by simp
  from dense_ids_inject [OF find_all_dense [OF ids_dense_Nil] this assms(2)] assms(3,4) \<open>i1 = i2\<close>
  show False by simp
qed

theorem schema_ids_unique_witness: "(1 :: 64 word) \<noteq> 2"
proof -
  have "map_of (intern_run FindOrInsert [(''a'', ''x''), (''b'', ''y''), (''a'', ''x'')] []) ''a'' = Some (1, ''x'')"
    and "map_of (intern_run FindOrInsert [(''a'', ''x''), (''b'', ''y''), (''a'', ''x'')] []) ''b'' = Some (2, ''y'')"
    by (simp_all add: FindOrInsert_def)
  from schema_ids_unique [OF _ this] show ?thesis by simp
qed

text \<open>
  An id is stable: once \<open>FindOrInsert(key, data)\<close> has returned an id, \<open>GetItem(key)\<close>
  returns this id and data after any further calls of \<open>FindOrInsert\<close>, and a repeated call
  returns the same id without changing the cache.
\<close>

theorem schema_id_stable:
  assumes "FindOrInsert k d m = Inr (i, m')"
  shows "GetItem k res (intern_run FindOrInsert calls m') = Inr (True, (i, d))
    \<and> FindOrInsert k d (intern_run FindOrInsert calls m') = Inr (i, intern_run FindOrInsert calls m')"
proof -
  have "map_of (intern_run FindOrInsert calls m') k = Some (i, d)"
    using im.intern_stable [OF assms] .
  moreover have "k \<noteq> []" "d \<noteq> []" using assms by (auto elim: FindOrInsert_cases)
  ultimately show ?thesis by (simp add: GetItem_def FindOrInsert_known)
qed

theorem schema_id_stable_witness:
  "GetItem ''a'' (0, []) (intern_run FindOrInsert [(''b'', ''y'')] [(''a'', 1, ''x'')]) = Inr (True, (1, ''x''))"
  by (rule schema_id_stable [of "''a''" "''x''" "[]" 1 "[(''a'', 1, ''x'')]", THEN conjunct1])
    (simp add: FindOrInsert_def)

text \<open>
  Uniqueness does not survive the public operation \<open>Insert\<close>, which stores a given id:
  the id that \<open>FindOrInsert\<close> computes from the size of the cache can already be taken.
\<close>

theorem insert_breaks_unique_ids:
  "\<exists>m m'. Insert ''k'' (2, ''data'') [] = Inr m \<and> FindOrInsert ''a'' ''x'' m = Inr (2, m')
     \<and> map_of m' ''k'' = Some (2, ''data'') \<and> map_of m' ''a'' = Some (2, ''x'')"
  by (simp add: Insert_def FindOrInsert_def)

end
