(* ===== verification/Stream_Framing.thy ===== *)
theory Stream_Framing
  imports Mdsd_Prelude
begin

text \<open>
  Message boundaries on a byte stream. Both directions of the mdsd connection are byte
  streams without boundaries of their own: towards mdsd, messages carry their length in
  front (\<open>DjsonLogItem.h\<close>, class comment); from mdsd, acknowledgements end in a newline
  (\<open>DataReader.h\<close>, class comment). The locale \<open>splitter\<close> is the contract of taking a message off
  the front of what has been received, and its lemmas say that it does not matter how the stream
  is cut; the locale \<open>framing\<close> adds that this inverts an encoding.
\<close>

text \<open>Take messages off the front of the received bytes until none is complete.\<close>

function decode_all :: "(string \<Rightarrow> (string \<times> string) option) \<Rightarrow> string \<Rightarrow> string list \<times> string" where
  "decode_all dec s =
     (case dec s of
        None \<Rightarrow> ([], s)
      | Some (x, r) \<Rightarrow>
          if length r < length s
          then (let (xs, r') = decode_all dec r in (x # xs, r'))
          else ([], s))"
  by pat_completeness auto
termination
  by (relation "measure (\<lambda>(dec, s). length s)") auto

declare decode_all.simps [simp del]

text \<open>A receiver that is handed the stream in chunks keeps the undecoded rest in between.\<close>

fun decode_chunks ::
  "(string \<Rightarrow> (string \<times> string) option) \<Rightarrow> string list \<Rightarrow> string \<Rightarrow> string list \<times> string" where
  "decode_chunks dec [] rest = ([], rest)"
| "decode_chunks dec (c # cs) rest =
     (let (xs, r) = decode_all dec (rest @ c); (ys, r') = decode_chunks dec cs r in (xs @ ys, r'))"

locale splitter =
  fixes dec :: "string \<Rightarrow> (string \<times> string) option"
  assumes dec_more: "dec s = Some (x, r) \<Longrightarrow> dec (s @ t) = Some (x, r @ t)"
    and dec_progress: "dec s = Some (x, r) \<Longrightarrow> length r < length s"
begin

lemma decode_all_None: "dec s = None \<Longrightarrow> decode_all dec s = ([], s)"
  by (simp add: decode_all.simps)

lemma decode_all_Some:
  "dec s = Some (x, r) \<Longrightarrow> decode_all dec s = (x # fst (decode_all dec r), snd (decode_all dec r))"
  by (simp add: decode_all.simps [of dec s] dec_progress split_beta)

lemma decode_all_rest: "dec (snd (decode_all dec s)) = None"
proof (induction "length s" arbitrary: s rule: less_induct)
  case less
  show ?case
  proof (cases "dec s")
    case None
    then show ?thesis by (simp add: decode_all_None)
  next
    case (Some a)
    then obtain x r where xr: "dec s = Some (x, r)" by (cases a) auto
    with less [OF dec_progress [OF xr]] show ?thesis by (simp add: decode_all_Some)
  qed
qed

text \<open>Decoding a prefix first and the rest later gives the same messages.\<close>

lemma decode_all_append:
  "decode_all dec (s @ t) =
     (fst (decode_all dec s) @ fst (decode_all dec (snd (decode_all dec s) @ t)),
      snd (decode_all dec (snd (decode_all dec s) @ t)))"
proof (induction "length s" arbitrary: s rule: less_induct)
  case less
  show ?case
  proof (cases "dec s")
    case None
    then show ?thesis by (simp add: decode_all_None)
  next
    case (Some a)
    then obtain x r where xr: "dec s = Some (x, r)" by (cases a) auto
    then have "decode_all dec (s @ t) =
        (x # fst (decode_all dec (r @ t)), snd (decode_all dec (r @ t)))"
      by (intro decode_all_Some dec_more)
    with less [OF dec_progress [OF xr]] xr show ?thesis
      by (simp add: decode_all_Some)
  qed
qed

lemma decode_chunks_concat:
  "dec rest = None \<Longrightarrow> decode_chunks dec cs rest = decode_all dec (rest @ concat cs)"
proof (induction cs arbitrary: rest)
  case Nil
  then show ?case by (simp add: decode_all_None)
next
  case (Cons c cs)
  have "dec (snd (decode_all dec (rest @ c))) = None" by (rule decode_all_rest)
  from Cons.IH [OF this] decode_all_append [of "rest @ c" "concat cs"] show ?case
    by (simp add: split_beta)
qed

end

locale framing = splitter dec
  for dec :: "string \<Rightarrow> (string \<times> string) option" +
  fixes enc :: "string \<Rightarrow> string"
    and valid :: "string \<Rightarrow> bool"
  assumes dec_enc: "valid x \<Longrightarrow> dec (enc x) = Some (x, [])"
begin

lemma dec_enc_append: "valid x \<Longrightarrow> dec (enc x @ t) = Some (x, t)"
  using dec_more [OF dec_enc] by simp

lemma decode_all_stream:
  "\<forall>x \<in> set xs. valid x \<Longrightarrow> dec t = None \<Longrightarrow> decode_all dec (concat (map enc xs) @ t) = (xs, t)"
proof (induction xs)
  case Nil
  then show ?case by (simp add: decode_all_None)
next
  case (Cons x xs)
  then have "dec (enc x @ concat (map enc xs) @ t) = Some (x, concat (map enc xs) @ t)"
    by (intro dec_enc_append) simp
  with Cons show ?case by (simp add: decode_all_Some)
qed

text \<open>So a valid stream is recovered from any cut into chunks.\<close>

lemma decode_chunks_stream:
  assumes "\<forall>x \<in> set xs. valid x" and "dec t = None" and "dec [] = None"
    and "concat cs = concat (map enc xs) @ t"
  shows "decode_chunks dec cs [] = (xs, t)"
  using decode_chunks_concat [OF assms(3), of cs] decode_all_stream [OF assms(1,2)] assms(4) by simp

end

end
