(* ===== verification/Djson_Item.thy ===== *)
theory Djson_Item
  imports Log_Item Id_Mgr Stream_Framing
begin

text \<open>
  \<open>src/src/outmdsd/DjsonLogItem.h\<close>, \<open>DjsonLogItem.cc\<close> and \<open>EtwLogItem.h\<close>: items in mdsd's
  dynamic JSON format. The process-wide schema cache (\<open>GetIdMgr\<close>) is the \<open>idmgr\<close> argument
  that \<open>GetData\<close> threads through. The text that \<open>operator<<\<close> prints for a \<open>double\<close> is the
  argument of \<open>VDouble\<close>.
\<close>

section \<open>State and operations\<close>

record item_info =
  ii_name :: string
  ii_type :: string
  ii_value :: string

record djson_item = log_item +
  m_source :: string
  m_schemaAndData :: string
  m_svlist :: "item_info list"
  m_djsonData :: string

definition make_djson_item :: "log_item \<Rightarrow> string \<Rightarrow> string \<Rightarrow> djson_item" where
  "make_djson_item base source schemaAndData =
     \<lparr>m_tag = m_tag base, m_touchTime = m_touchTime base, m_source = source,
      m_schemaAndData = schemaAndData, m_svlist = [], m_djsonData = []\<rparr>"

text \<open>The two constructors.\<close>

definition new_djson_item :: "int \<Rightarrow> string \<Rightarrow> counter \<Rightarrow> djson_item \<times> counter" where
  "new_djson_item now source c =
     (let (base, c') = new_log_item now c in (make_djson_item base source [], c'))"

definition new_djson_item_with :: "int \<Rightarrow> string \<Rightarrow> string \<Rightarrow> counter \<Rightarrow> djson_item \<times> counter" where
  "new_djson_item_with now source schemaAndData c =
     (let (base, c') = new_log_item now c in (make_djson_item base source schemaAndData, c'))"

text \<open>One constructor per overload of \<open>AddData\<close>; a null \<open>const char*\<close> is \<open>VCStr None\<close>.\<close>

datatype add_value =
    VBool bool
  | VInt32 "32 word"
  | VUInt32 "32 word"
  | VInt64 "64 word"
  | VDouble string
  | VTime "64 word" "32 word"
  | VCStr "string option"
  | VString string

definition append_info :: "string \<Rightarrow> string \<Rightarrow> string \<Rightarrow> djson_item \<Rightarrow> djson_item" where
  "append_info n t v item =
     item\<lparr>m_svlist := m_svlist item @ [\<lparr>ii_name = n, ii_type = t, ii_value = v\<rparr>]\<rparr>"

definition add_string :: "string \<Rightarrow> string \<Rightarrow> djson_item \<Rightarrow> djson_item" where
  "add_string name v item = append_info name ''FT_STRING'' (dquote # v @ [dquote]) item"

fun AddData :: "string \<Rightarrow> add_value \<Rightarrow> djson_item \<Rightarrow> djson_item result" where
  "AddData name (VBool b) item = Inr (append_info name ''FT_BOOL'' (if b then ''true'' else ''false'') item)"
| "AddData name (VInt32 v) item = Inr (append_info name ''FT_INT32'' (to_string_int (sint v)) item)"
| "AddData name (VUInt32 v) item = Inr (append_info name ''FT_INT64'' (to_string (unat v)) item)"
| "AddData name (VInt64 v) item = Inr (append_info name ''FT_INT64'' (to_string_int (sint v)) item)"
| "AddData name (VDouble txt) item = Inr (append_info name ''FT_DOUBLE'' txt item)"
| "AddData name (VTime secs nsecs) item =
     Inr (append_info name ''FT_TIME''
       (''['' @ to_string (unat secs) @ '','' @ to_string (unat nsecs) @ '']'') item)"
| "AddData name (VCStr p) item =
     (case p of
        None \<Rightarrow> Inl (Invalid_Argument ''DjsonLogItem::AddData: unexpected NULl for const char* parameter.'')
      | Some s \<Rightarrow> Inr (add_string name (c_str s) item))"
| "AddData name (VString s) item = Inr (add_string name s item)"

text \<open>The constructor of \<open>EtwLogItem\<close>: a new item with its first two fields.\<close>

definition new_etw_item :: "int \<Rightarrow> string \<Rightarrow> string \<Rightarrow> 32 word \<Rightarrow> counter \<Rightarrow> djson_item result \<times> counter" where
  "new_etw_item now source guid eventId c =
     (let (item, c') = new_djson_item now source c
      in (case AddData ''GUID'' (VString guid) item of
            Inl e \<Rightarrow> Inl e
          | Inr item' \<Rightarrow> AddData ''EventId'' (VInt32 eventId) item', c'))"

definition GetSchemaCacheKey :: "item_info list \<Rightarrow> string" where
  "GetSchemaCacheKey svlist = concat (map (\<lambda>item. ii_name item @ ii_type item) svlist)"

text \<open>The loop both compositions share: a comma after every element but the last.\<close>

definition comma_loop :: "(item_info \<Rightarrow> string) \<Rightarrow> item_info list \<Rightarrow> string" where
  "comma_loop f svlist =
     concat (map (\<lambda>i. f (svlist ! i) @ (if i \<noteq> length svlist - 1 then '','' else [])) [0..<length svlist])"

definition ComposeSchemaArray :: "item_info list \<Rightarrow> string" where
  "ComposeSchemaArray svlist =
     ''['' @
     comma_loop (\<lambda>item. [CHR ''['', dquote] @ ii_name item @ [dquote, CHR '','', dquote] @ ii_type item
                        @ [dquote, CHR '']'']) svlist @
     ''],''"

definition ComposeDataValue :: "item_info list \<Rightarrow> string" where
  "ComposeDataValue svlist = ''['' @ comma_loop ii_value svlist @ '']''"

definition ComposeSchema :: "item_info list \<Rightarrow> idmgr \<Rightarrow> (string \<times> idmgr) result" where
  "ComposeSchema svlist m =
     (let key = GetSchemaCacheKey svlist
      in case GetItem key (0, []) m of
           Inl e \<Rightarrow> Inl e
         | Inr (found, cachedInfo) \<Rightarrow>
             if found then Inr (to_string (unat (fst cachedInfo)) @ '','' @ snd cachedInfo, m)
             else (let schemaArray = ComposeSchemaArray svlist
                   in case FindOrInsert key schemaArray m of
                        Inl e \<Rightarrow> Inl e
                      | Inr (schemaId, m') \<Rightarrow> Inr (to_string (unat schemaId) @ '','' @ schemaArray, m')))"

definition ComposeSchemaAndData :: "djson_item \<Rightarrow> idmgr \<Rightarrow> (djson_item \<times> idmgr) result" where
  "ComposeSchemaAndData item m =
     (case ComposeSchema (m_svlist item) m of
        Inl e \<Rightarrow> Inl e
      | Inr (strm, m') \<Rightarrow>
          Inr (item\<lparr>m_svlist := [], m_schemaAndData := strm @ ComposeDataValue (m_svlist item)\<rparr>, m'))"

definition ComposeFullData :: "djson_item \<Rightarrow> djson_item" where
  "ComposeFullData item =
     (let tag = GetTag item;
          len = 2 + length (m_source item) + 2 + length tag + 1 + length (m_schemaAndData item) + 1
      in item\<lparr>m_djsonData := to_string len @ [newline, CHR ''['', dquote] @ m_source item @ [dquote, CHR '','']
           @ tag @ '','' @ m_schemaAndData item @ '']''\<rparr>)"

text \<open>
  The returned pointer is that of the item's string; the item and the schema cache are
  returned updated. When the composition throws, neither has changed.
\<close>

definition GetData :: "djson_item \<Rightarrow> idmgr \<Rightarrow> (string \<times> djson_item \<times> idmgr) result" where
  "GetData item m =
     (if m_djsonData item = []
      then (case (if m_schemaAndData item = [] then ComposeSchemaAndData item m else Inr (item, m)) of
              Inl e \<Rightarrow> Inl e
            | Inr (item', m') \<Rightarrow>
                (let item'' = ComposeFullData item' in Inr (m_djsonData item'', item'', m')))
      else Inr (m_djsonData item, item, m))"

section \<open>The wire format\<close>

text \<open>
  The format the class comment of \<open>DjsonLogItem\<close> documents: a decimal byte count, a
  newline, and that many bytes of payload, an array of source, tag and the rest. The
  decoder is mdsd's side of it.
\<close>

definition djson_payload :: "string \<Rightarrow> string \<Rightarrow> string \<Rightarrow> string" where
  "djson_payload source tag schemaAndData =
     [CHR ''['', dquote] @ source @ [dquote, CHR '',''] @ tag @ '','' @ schemaAndData @ '']''"

definition djson_frame :: "string \<Rightarrow> string" where
  "djson_frame payload = to_string (length payload) @ newline # payload"

definition decode_frame :: "string \<Rightarrow> (string \<times> string) option" where
  "decode_frame s =
     (case find_char newline s of
        None \<Rightarrow> None
      | Some p \<Rightarrow>
          (let header = take p s; body = drop (Suc p) s; n = dec_val header
           in if header = [] \<or> \<not> list_all is_digit header \<or> length body < n then None
              else Some (take n body, drop n body)))"

lemma decode_frame_header:
  "header \<noteq> [] \<Longrightarrow> list_all is_digit header \<Longrightarrow>
   decode_frame (header @ newline # body) =
     (if length body < dec_val header then None
      else Some (take (dec_val header) body, drop (dec_val header) body))"
proof -
  assume "header \<noteq> []" and digits: "list_all is_digit header"
  moreover have "newline \<notin> set header"
    using digits separators_not_digits(1) by (auto simp: list_all_iff)
  ultimately show ?thesis
    by (simp add: decode_frame_def find_char_append Let_def)
qed

lemma decode_frame_SomeD:
  assumes "decode_frame s = Some (x, r)"
  obtains header where "header \<noteq> []" "list_all is_digit header" "dec_val header = length x"
    "s = header @ newline # x @ r"
proof -
  from assms obtain p where p: "find_char newline s = Some p"
    by (auto simp: decode_frame_def split: option.splits)
  let ?h = "take p s" and ?b = "drop (Suc p) s"
  have h: "?h \<noteq> []" "list_all is_digit ?h" "x = take (dec_val ?h) ?b" "r = drop (dec_val ?h) ?b"
    "dec_val ?h \<le> length ?b"
    using assms p by (auto simp: decode_frame_def Let_def split: if_splits)
  have "s = ?h @ newline # ?b" using find_char_SomeD [OF p] by simp
  have "?b = x @ r" unfolding h(3,4) by (rule append_take_drop_id [symmetric])
  moreover have "dec_val ?h = length x" using h(3,5) by simp
  ultimately show thesis using h(1,2) \<open>s = _\<close> by (intro that [of ?h]) simp_all
qed

interpretation djson: framing decode_frame djson_frame "\<lambda>_. True"
proof unfold_locales
  show "decode_frame (djson_frame x) = Some (x, [])" for x
    by (simp add: djson_frame_def decode_frame_header to_string_digits dec_val_to_string)
  show "decode_frame (s @ t) = Some (x, r @ t)" if "decode_frame s = Some (x, r)" for s t x r
    using that by (rule decode_frame_SomeD) (simp add: decode_frame_header)
  show "length r < length s" if "decode_frame s = Some (x, r)" for s x r
    using that by (rule decode_frame_SomeD) simp
qed

text \<open>A message that has not arrived completely is not decoded.\<close>

lemma decode_frame_partial:
  assumes "strict_prefix q (djson_frame p)"
  shows "decode_frame q = None"
proof (rule ccontr)
  assume "decode_frame q \<noteq> None"
  then obtain x r where "decode_frame q = Some (x, r)" by (cases "decode_frame q") auto
  moreover from assms obtain t where t: "djson_frame p = q @ t" "t \<noteq> []"
    by (auto elim: strict_prefixE')
  ultimately have "decode_frame (djson_frame p) = Some (x, r @ t)"
    by (simp add: djson.dec_more)
  then have "r @ t = []" using djson.dec_enc [of p] by simp
  with t show False by simp
qed

lemma decode_frame_Nil: "decode_frame [] = None"
  by (simp add: decode_frame_def)

section \<open>What \<open>GetData\<close> returns\<close>

lemma ComposeFullData_frame:
  "m_djsonData (ComposeFullData item) =
     djson_frame (djson_payload (m_source item) (GetTag item) (m_schemaAndData item))"
  by (simp add: ComposeFullData_def djson_frame_def djson_payload_def Let_def add.assoc)

lemma ComposeFullData_frame_conds [simp]:
  "m_source (ComposeFullData item) = m_source item" "m_tag (ComposeFullData item) = m_tag item"
  "m_schemaAndData (ComposeFullData item) = m_schemaAndData item"
  "m_svlist (ComposeFullData item) = m_svlist item"
  by (simp_all add: ComposeFullData_def Let_def)

lemma ComposeSchemaAndData_frame:
  "ComposeSchemaAndData item m = Inr (item', m') \<Longrightarrow>
   m_source item' = m_source item \<and> m_tag item' = m_tag item \<and> m_svlist item' = []"
  by (auto simp: ComposeSchemaAndData_def split: sum.splits prod.splits)

lemma djson_frame_nonempty [simp]: "djson_frame p \<noteq> []"
  by (simp add: djson_frame_def)

text \<open>A fresh item, as the constructors and \<open>AddData\<close> leave it, has composed nothing yet.\<close>

lemma GetData_fresh:
  assumes "GetData item m = Inr (s, item', m')" and "m_djsonData item = []"
  shows "s = djson_frame (djson_payload (m_source item) (GetTag item) (m_schemaAndData item'))"
    and "m_djsonData item' = s"
  using assms
  by (auto simp: GetData_def Let_def ComposeFullData_frame GetTag_def
      split: sum.splits prod.splits if_splits dest!: ComposeSchemaAndData_frame)

lemma GetData_cached: "m_djsonData item \<noteq> [] \<Longrightarrow> GetData item m = Inr (m_djsonData item, item, m)"
  by (simp add: GetData_def)

lemma GetData_nonempty:
  assumes "GetData item m = Inr (s, item', m')"
  shows "s \<noteq> []" and "m_djsonData item' = s"
proof -
  have "s \<noteq> [] \<and> m_djsonData item' = s"
  proof (cases "m_djsonData item = []")
    case True
    from GetData_fresh [OF assms True] show ?thesis by simp
  next
    case False
    with assms show ?thesis by (auto simp: GetData_cached)
  qed
  then show "s \<noteq> []" and "m_djsonData item' = s" by simp_all
qed

lemma AddData_keeps_data: "AddData n v item = Inr item' \<Longrightarrow> m_djsonData item' = m_djsonData item"
  by (cases v) (auto simp: append_info_def add_string_def split: option.splits)

lemma payload_inject:
  assumes "dquote \<notin> set src" "dquote \<notin> set src'" "CHR '','' \<notin> set tag" "CHR '','' \<notin> set tag'"
    and "djson_payload src tag sad = djson_payload src' tag' sad'"
  shows "src = src' \<and> tag = tag' \<and> sad = sad'"
proof -
  have "src @ dquote # (CHR '','' # tag @ CHR '','' # sad) = src' @ dquote # (CHR '','' # tag' @ CHR '','' # sad')"
    using assms(5) by (simp add: djson_payload_def)
  then have "src = src'" and "tag @ CHR '','' # sad = tag' @ CHR '','' # sad'"
    using split_at_first [OF assms(1,2)] by simp_all
  then show ?thesis using split_at_first [OF assms(3,4)] by simp
qed

section \<open>Which schema a message carries\<close>

definition ft_types :: "string list" where
  "ft_types = [''FT_BOOL'', ''FT_INT32'', ''FT_INT64'', ''FT_DOUBLE'', ''FT_TIME'', ''FT_STRING'']"

text \<open>
  Fields as \<open>AddData\<close> makes them whose names contain no letter \<open>F\<close>: for these the
  concatenation of names and types in the cache key can be taken apart again.
\<close>

definition plain_schema :: "item_info list \<Rightarrow> bool" where
  "plain_schema svlist \<longleftrightarrow> (\<forall>i \<in> set svlist. CHR ''F'' \<notin> set (ii_name i) \<and> ii_type i \<in> set ft_types)"

definition schema_of :: "item_info list \<Rightarrow> (string \<times> string) list" where
  "schema_of svlist = map (\<lambda>i. (ii_name i, ii_type i)) svlist"

lemma AddData_plain:
  "AddData n v item = Inr item' \<Longrightarrow> plain_schema (m_svlist item) \<Longrightarrow> CHR ''F'' \<notin> set n \<Longrightarrow>
   plain_schema (m_svlist item') \<and> m_svlist item' \<noteq> []"
  by (cases v) (auto simp: plain_schema_def append_info_def add_string_def ft_types_def split: option.splits)

lemma field_split:
  assumes "CHR ''F'' \<notin> set n" "CHR ''F'' \<notin> set n'" "t \<in> set ft_types" "t' \<in> set ft_types"
    and "n @ t @ r = n' @ t' @ r'"
  shows "n = n' \<and> t = t' \<and> r = r'"
proof -
  obtain u u' where u: "t = CHR ''F'' # u" "t' = CHR ''F'' # u'"
    using assms(3,4) by (auto simp: ft_types_def)
  then have "n @ CHR ''F'' # (u @ r) = n' @ CHR ''F'' # (u' @ r')" using assms(5) by simp
  then have "n = n'" and ur: "u @ r = u' @ r'" using split_at_first [OF assms(1,2)] by simp_all
  have "u \<in> {''T_BOOL'', ''T_INT32'', ''T_INT64'', ''T_DOUBLE'', ''T_TIME'', ''T_STRING''}"
    "u' \<in> {''T_BOOL'', ''T_INT32'', ''T_INT64'', ''T_DOUBLE'', ''T_TIME'', ''T_STRING''}"
    using assms(3,4) u by (auto simp: ft_types_def)
  then have "u = u' \<and> r = r'" using ur by auto
  with u \<open>n = n'\<close> show ?thesis by simp
qed

lemma key_simps [simp]:
  "GetSchemaCacheKey [] = []"
  "GetSchemaCacheKey (i # is) = ii_name i @ ii_type i @ GetSchemaCacheKey is"
  by (simp_all add: GetSchemaCacheKey_def)

lemma ft_types_nonempty: "t \<in> set ft_types \<Longrightarrow> t \<noteq> []"
  by (auto simp: ft_types_def)

lemma key_empty_iff: "plain_schema sv \<Longrightarrow> GetSchemaCacheKey sv = [] \<longleftrightarrow> sv = []"
  by (cases sv) (auto simp: plain_schema_def dest: ft_types_nonempty)

lemma key_inject:
  "plain_schema xs \<Longrightarrow> plain_schema ys \<Longrightarrow> GetSchemaCacheKey xs = GetSchemaCacheKey ys \<Longrightarrow>
   schema_of xs = schema_of ys"
proof (induction xs arbitrary: ys)
  case Nil
  then show ?case by (simp add: key_empty_iff [of ys, symmetric] schema_of_def)
next
  case (Cons x xs)
  then obtain y ys' where ys: "ys = y # ys'"
    using key_empty_iff [OF Cons.prems(1)] key_empty_iff [OF Cons.prems(2)] by (cases ys) auto
  have "ii_name x = ii_name y \<and> ii_type x = ii_type y \<and> GetSchemaCacheKey xs = GetSchemaCacheKey ys'"
    using Cons.prems ys by (intro field_split) (auto simp: plain_schema_def)
  with Cons.IH [of ys'] Cons.prems ys show ?case
    by (auto simp: plain_schema_def schema_of_def)
qed

lemma key_by_schema: "GetSchemaCacheKey sv = concat (map (\<lambda>(n, t). n @ t) (schema_of sv))"
  by (simp add: GetSchemaCacheKey_def schema_of_def o_def)

lemma array_by_schema: "schema_of xs = schema_of ys \<Longrightarrow> ComposeSchemaArray xs = ComposeSchemaArray ys"
proof -
  assume eq: "schema_of xs = schema_of ys"
  then have len: "length xs = length ys" unfolding schema_of_def by (rule map_eq_imp_length_eq)
  have "ii_name (xs ! i) = ii_name (ys ! i) \<and> ii_type (xs ! i) = ii_type (ys ! i)" if "i < length ys" for i
    using arg_cong [OF eq, of "\<lambda>l. l ! i"] that len by (simp add: schema_of_def)
  with len show ?thesis
    unfolding ComposeSchemaArray_def comma_loop_def by (auto intro!: arg_cong [where f = concat])
qed

lemma array_nonempty [simp]: "ComposeSchemaArray sv \<noteq> []"
  by (simp add: ComposeSchemaArray_def)

text \<open>A cache filled by such items: every entry is the schema array of its key's fields.\<close>

definition schema_cache_ok :: "idmgr \<Rightarrow> bool" where
  "schema_cache_ok m \<longleftrightarrow> ids_dense m \<and>
     (\<forall>k i arr. map_of m k = Some (i, arr) \<longrightarrow>
        (\<exists>sv. plain_schema sv \<and> GetSchemaCacheKey sv = k \<and> ComposeSchemaArray sv = arr))"

lemma schema_cache_ok_Nil: "schema_cache_ok []"
  by (simp add: schema_cache_ok_def)

lemma schema_cache_hit:
  assumes "schema_cache_ok m" "plain_schema sv" "map_of m (GetSchemaCacheKey sv) = Some (i, arr)"
  shows "arr = ComposeSchemaArray sv"
  using assms array_by_schema key_inject [OF _ assms(2)] unfolding schema_cache_ok_def by metis

lemma ComposeSchema_plain:
  assumes "schema_cache_ok m" "plain_schema sv" "sv \<noteq> []"
  shows "\<exists>i m'. FindOrInsert (GetSchemaCacheKey sv) (ComposeSchemaArray sv) m = Inr (i, m')
    \<and> ComposeSchema sv m = Inr (to_string (unat i) @ '','' @ ComposeSchemaArray sv, m')
    \<and> schema_cache_ok m'"
proof -
  let ?k = "GetSchemaCacheKey sv" and ?a = "ComposeSchemaArray sv"
  have k: "?k \<noteq> []" using assms by (simp add: key_empty_iff)
  show ?thesis
  proof (cases "map_of m ?k")
    case None
    let ?m' = "m @ [(?k, word_of_nat (Suc (length m)), ?a)]"
    have new: "FindOrInsert ?k ?a m = Inr (word_of_nat (Suc (length m)), ?m')"
      by (rule FindOrInsert_new [OF k array_nonempty None])
    moreover have "schema_cache_ok ?m'"
      using assms FindOrInsert_dense [OF _ new]
      by (auto simp: schema_cache_ok_def map_add_def split: option.splits)
    ultimately show ?thesis
      using k None by (auto simp: ComposeSchema_def GetItem_def Let_def)
  next
    case (Some v)
    then obtain i where i: "map_of m ?k = Some (i, ?a)"
      using schema_cache_hit [OF assms(1,2)] by (cases v) auto
    then have "FindOrInsert ?k ?a m = Inr (i, m)" using k by (intro FindOrInsert_known) auto
    with i k assms(1) show ?thesis by (auto simp: ComposeSchema_def GetItem_def)
  qed
qed

text \<open>Composing a list of items one after the other.\<close>

fun get_all :: "djson_item list \<Rightarrow> idmgr \<Rightarrow> (string list \<times> idmgr) result" where
  "get_all [] m = Inr ([], m)"
| "get_all (item # items) m =
     (case GetData item m of
        Inl e \<Rightarrow> Inl e
      | Inr (s, item', m') \<Rightarrow>
          (case get_all items m' of Inl e \<Rightarrow> Inl e | Inr (ss, m'') \<Rightarrow> Inr (s # ss, m'')))"

text \<open>An item built from plain fields, before its first \<open>GetData\<close>.\<close>

definition plain_item :: "djson_item \<Rightarrow> bool" where
  "plain_item item \<longleftrightarrow> m_djsonData item = [] \<and> m_schemaAndData item = [] \<and>
     plain_schema (m_svlist item) \<and> m_svlist item \<noteq> []"

text \<open>The message such an item should have when its schema has the id \<open>i\<close>.\<close>

definition item_message :: "djson_item \<Rightarrow> 64 word \<Rightarrow> string" where
  "item_message item i =
     djson_frame (djson_payload (m_source item) (GetTag item)
       (to_string (unat i) @ '','' @ ComposeSchemaArray (m_svlist item) @ ComposeDataValue (m_svlist item)))"

lemma GetData_plain:
  assumes "schema_cache_ok m" "plain_item item"
  shows "\<exists>i item' m'. FindOrInsert (GetSchemaCacheKey (m_svlist item)) (ComposeSchemaArray (m_svlist item)) m = Inr (i, m')
    \<and> GetData item m = Inr (item_message item i, item', m') \<and> schema_cache_ok m'"
proof -
  obtain i m' where new: "FindOrInsert (GetSchemaCacheKey (m_svlist item)) (ComposeSchemaArray (m_svlist item)) m = Inr (i, m')"
    and comp: "ComposeSchema (m_svlist item) m = Inr (to_string (unat i) @ '','' @ ComposeSchemaArray (m_svlist item), m')"
    and ok: "schema_cache_ok m'"
    using ComposeSchema_plain [OF assms(1), of "m_svlist item"] assms(2) by (auto simp: plain_item_def)
  have "\<exists>item'. GetData item m = Inr (item_message item i, item', m')"
    using assms(2)
    by (simp add: GetData_def plain_item_def ComposeSchemaAndData_def comp Let_def
        ComposeFullData_frame item_message_def GetTag_def)
  with new ok show ?thesis by blast
qed

lemma get_all_plain:
  assumes "schema_cache_ok m" "\<forall>item \<in> set items. plain_item item"
  shows "\<exists>ids m'. get_all items m = Inr (map2 item_message items ids, m') \<and> schema_cache_ok m'
    \<and> length ids = length items \<and> length m' \<le> length m + length items
    \<and> (\<forall>k v. map_of m k = Some v \<longrightarrow> map_of m' k = Some v)
    \<and> list_all2 (\<lambda>item i. map_of m' (GetSchemaCacheKey (m_svlist item)) = Some (i, ComposeSchemaArray (m_svlist item))) items ids"
  using assms
proof (induction items arbitrary: m)
  case Nil
  then show ?case by (auto intro!: exI [of _ "[]"])
next
  case (Cons item items)
  let ?k = "GetSchemaCacheKey (m_svlist item)" and ?a = "ComposeSchemaArray (m_svlist item)"
  obtain i item' m1 where new: "FindOrInsert ?k ?a m = Inr (i, m1)"
    and get: "GetData item m = Inr (item_message item i, item', m1)" and ok: "schema_cache_ok m1"
    using GetData_plain [of m item] Cons.prems by auto
  obtain ids m' where IH: "get_all items m1 = Inr (map2 item_message items ids, m')" "schema_cache_ok m'"
    "length ids = length items" "length m' \<le> length m1 + length items"
    "\<forall>k v. map_of m1 k = Some v \<longrightarrow> map_of m' k = Some v"
    "list_all2 (\<lambda>item i. map_of m' (GetSchemaCacheKey (m_svlist item)) = Some (i, ComposeSchemaArray (m_svlist item))) items ids"
    using Cons.IH [OF ok] Cons.prems(2) by auto
  have "map_of m' k = Some v" if "map_of m k = Some v" for k v
    using IH(5) im.intern_keeps [OF new that] by blast
  moreover have "map_of m' ?k = Some (i, ?a)"
    using IH(5) im.intern_holds [OF new] by blast
  ultimately show ?case
    using IH get FindOrInsert_length [OF new] by (intro exI [of _ "i # ids"] exI [of _ m']) auto
qed

section \<open>Properties\<close>

text \<open>
  C4: every message carries its own schema, and schema ids mean schemas. Composing any list
  of fewer than \<open>2^64\<close> items with plain fields, from an empty schema cache, succeeds; each
  message is the documented frame with the item's own source, tag, schema array and
  values; and two messages carry the same schema id exactly when their fields have the same
  names and types in the same order.
\<close>

theorem messages_carry_own_schema:
  assumes "\<forall>item \<in> set items. plain_item item" and "length items < 2 ^ 64"
  shows "\<exists>ids m'. get_all items [] = Inr (map2 item_message items ids, m') \<and> length ids = length items
    \<and> (\<forall>x < length items. \<forall>y < length items.
         ids ! x = ids ! y \<longleftrightarrow> schema_of (m_svlist (items ! x)) = schema_of (m_svlist (items ! y)))"
proof -
  obtain ids m' where all: "get_all items [] = Inr (map2 item_message items ids, m')" "schema_cache_ok m'"
    "length ids = length items" "length m' \<le> length items"
    and held: "list_all2 (\<lambda>item i. map_of m' (GetSchemaCacheKey (m_svlist item)) = Some (i, ComposeSchemaArray (m_svlist item))) items ids"
    using get_all_plain [OF schema_cache_ok_Nil assms(1)] by auto
  have dense: "ids_dense m'" "length m' < 2 ^ 64"
    using all assms(2) by (simp_all add: schema_cache_ok_def)
  have entry: "map_of m' (GetSchemaCacheKey (m_svlist (items ! x))) = Some (ids ! x, ComposeSchemaArray (m_svlist (items ! x)))"
    if "x < length items" for x
    using held that by (auto dest: list_all2_nthD)
  have "ids ! x = ids ! y \<longleftrightarrow> schema_of (m_svlist (items ! x)) = schema_of (m_svlist (items ! y))"
    if xy: "x < length items" "y < length items" for x y
  proof
    let ?kx = "GetSchemaCacheKey (m_svlist (items ! x))" and ?ky = "GetSchemaCacheKey (m_svlist (items ! y))"
    assume "ids ! x = ids ! y"
    then have "?kx = ?ky"
      using dense_ids_inject [OF dense entry [OF xy(1)]] entry [OF xy(2)] by simp
    then show "schema_of (m_svlist (items ! x)) = schema_of (m_svlist (items ! y))"
      using assms(1) xy by (intro key_inject) (auto simp: plain_item_def)
  next
    assume "schema_of (m_svlist (items ! x)) = schema_of (m_svlist (items ! y))"
    then have "GetSchemaCacheKey (m_svlist (items ! x)) = GetSchemaCacheKey (m_svlist (items ! y))"
      by (simp add: key_by_schema)
    with entry [OF xy(1)] entry [OF xy(2)] show "ids ! x = ids ! y" by simp
  qed
  with all show ?thesis by auto
qed

theorem messages_carry_own_schema_witness:
  "\<exists>ids m'. get_all
      [(fst (new_djson_item 0 ''s'' 0))\<lparr>m_svlist := [\<lparr>ii_name = ''a'', ii_type = ''FT_BOOL'', ii_value = ''true''\<rparr>]\<rparr>] []
    = Inr (map2 item_message
        [(fst (new_djson_item 0 ''s'' 0))\<lparr>m_svlist := [\<lparr>ii_name = ''a'', ii_type = ''FT_BOOL'', ii_value = ''true''\<rparr>]\<rparr>] ids, m')
      \<and> length ids = 1"
proof -
  have "plain_item ((fst (new_djson_item 0 ''s'' 0))\<lparr>m_svlist := [\<lparr>ii_name = ''a'', ii_type = ''FT_BOOL'', ii_value = ''true''\<rparr>]\<rparr>)"
    by (simp add: plain_item_def new_djson_item_def new_log_item_def make_djson_item_def plain_schema_def ft_types_def Let_def)
  with messages_carry_own_schema [of "[(fst (new_djson_item 0 ''s'' 0))\<lparr>m_svlist := [\<lparr>ii_name = ''a'', ii_type = ''FT_BOOL'', ii_value = ''true''\<rparr>]\<rparr>]"]
  show ?thesis by fastforce
qed

definition collide1 :: "item_info list" where
  "collide1 = [\<lparr>ii_name = ''a'', ii_type = ''FT_BOOL'', ii_value = ''true''\<rparr>,
               \<lparr>ii_name = ''b'', ii_type = ''FT_BOOL'', ii_value = ''true''\<rparr>]"

definition collide2 :: "item_info list" where
  "collide2 = [\<lparr>ii_name = ''aFT_BOOLb'', ii_type = ''FT_BOOL'', ii_value = ''true''\<rparr>]"

text \<open>
  The cache key is ambiguous. Names and types are concatenated without a separator, so
  two items with different fields can have the same key; the second one composed then
  carries the schema of the first: here one boolean named \<open>aFT_BOOLb\<close> is sent under the
  schema of two booleans \<open>a\<close> and \<open>b\<close>.
\<close>

theorem schema_key_collision:
  "\<exists>m'. ComposeSchema collide1 [] = Inr (''1,'' @ ComposeSchemaArray collide1, m')
      \<and> ComposeSchema collide2 m' = Inr (''1,'' @ ComposeSchemaArray collide1, m')
      \<and> ComposeSchemaArray collide1 \<noteq> ComposeSchemaArray collide2"
proof -
  have key: "GetSchemaCacheKey collide1 = ''aFT_BOOLbFT_BOOL''" "GetSchemaCacheKey collide2 = ''aFT_BOOLbFT_BOOL''"
    by (simp_all add: collide1_def collide2_def)
  have "ComposeSchemaArray collide1 \<noteq> ComposeSchemaArray collide2"
    by (simp add: ComposeSchemaArray_def comma_loop_def collide1_def collide2_def)
  moreover have "to_string (unat (1 :: 64 word)) = ''1''"
    by (simp add: to_string.simps)
  ultimately show ?thesis
    by (simp add: ComposeSchema_def key GetItem_def FindOrInsert_def Let_def)
qed

text \<open>
  C15: the messages of any items can be cut out of the byte stream again. If the chunks a
  receiver reads make up the outputs of \<open>GetData\<close> of any items (with given or composed
  schemas), followed by the beginning of a further message, the documented decoding
  returns exactly the payload of each item (its source, tag and schema-and-data text) and
  keeps the incomplete rest, however the chunks are cut.
\<close>

theorem djson_stream_roundtrip:
  assumes "\<forall>(item, m, s, item', m') \<in> set sent. m_djsonData item = [] \<and> GetData item m = Inr (s, item', m')"
    and "strict_prefix t (djson_frame p)"
    and "concat cs = concat (map (\<lambda>(item, m, s, item', m'). s) sent) @ t"
  shows "decode_chunks decode_frame cs [] =
    (map (\<lambda>(item, m, s, item', m'). djson_payload (m_source item) (GetTag item) (m_schemaAndData item')) sent, t)"
proof -
  let ?pay = "\<lambda>(item, m, s, item', m'). djson_payload (m_source item) (GetTag item) (m_schemaAndData item')"
  have "map (\<lambda>(item, m, s, item', m'). s) sent = map djson_frame (map ?pay sent)"
    unfolding map_map
    by (rule map_cong [OF refl]) (use assms(1) in \<open>auto dest: GetData_fresh(1)\<close>)
  with assms(3) have "concat cs = concat (map djson_frame (map ?pay sent)) @ t" by simp
  then show ?thesis
    by (intro djson.decode_chunks_stream decode_frame_Nil decode_frame_partial [OF assms(2)]) simp_all
qed

definition sample_item :: djson_item where
  "sample_item = fst (new_djson_item_with 0 ''s'' ''D'' 0)"

lemma sample_item_sel [simp]:
  "m_source sample_item = ''s''" "m_tag sample_item = ''1''" "m_schemaAndData sample_item = ''D''"
  "m_djsonData sample_item = []" "m_svlist sample_item = []"
  by (simp_all add: sample_item_def new_djson_item_with_def new_log_item_def make_djson_item_def
      Let_def to_string.simps)

lemma sample_item_GetData:
  "GetData sample_item m =
     Inr (djson_frame (djson_payload ''s'' ''1'' ''D''), ComposeFullData sample_item, m)"
  by (simp add: GetData_def Let_def ComposeFullData_frame GetTag_def)

theorem djson_stream_roundtrip_witness:
  "decode_chunks decode_frame
     [take 4 (djson_frame (djson_payload ''s'' ''1'' ''D'')),
      drop 4 (djson_frame (djson_payload ''s'' ''1'' ''D'')) @ ''1''] []
   = ([djson_payload ''s'' ''1'' ''D''], ''1'')"
proof -
  let ?s = "djson_frame (djson_payload ''s'' ''1'' ''D'')"
  have "djson_frame ''twelve chars'' = ''1'' @ ''2'' @ newline # ''twelve chars''"
    by (simp add: djson_frame_def to_string.simps)
  then have "strict_prefix ''1'' (djson_frame ''twelve chars'')"
    by (intro strict_prefixI') simp
  from djson_stream_roundtrip [OF _ this, of "[(sample_item, [], ?s, ComposeFullData sample_item, [])]"
      "[take 4 ?s, drop 4 ?s @ ''1'']"]
  show ?thesis by (simp add: sample_item_GetData GetTag_def flip: append_assoc)
qed

text \<open>
  \<open>GetData\<close> is composed once. After a successful call, whatever fields are added later
  and whatever happened to the schema cache, the next call returns the same text and
  changes neither the item nor the cache: a resent message is byte for byte the original.
\<close>

theorem GetData_memoised:
  assumes "GetData item m = Inr (s, item1, m1)" and "AddData name v item1 = Inr item2"
  shows "GetData item1 m2 = Inr (s, item1, m2) \<and> GetData item2 m2 = Inr (s, item2, m2)"
  using GetData_nonempty [OF assms(1)] AddData_keeps_data [OF assms(2)]
  by (simp add: GetData_cached)

theorem GetData_memoised_witness:
  "GetData (ComposeFullData sample_item) [(''k'', 1, ''x'')]
    = Inr (djson_frame (djson_payload ''s'' ''1'' ''D''), ComposeFullData sample_item, [(''k'', 1, ''x'')])"
  by (rule GetData_memoised [OF sample_item_GetData, of "''late''" "VBool True" _ "[(''k'', 1, ''x'')]", THEN conjunct1])
    simp

text \<open>
  The only way composing a message can fail. \<open>GetData\<close> throws exactly when the item has
  no composed data, was constructed without schema text and its fields give an empty cache
  key (in particular when it has no fields), and then the exception is \<open>invalid_argument\<close>.
\<close>

theorem GetData_error:
  "GetData item m = Inl e \<longleftrightarrow>
     m_djsonData item = [] \<and> m_schemaAndData item = [] \<and> GetSchemaCacheKey (m_svlist item) = [] \<and>
     e = Invalid_Argument ''GetItem(): invalid empty string for 'key' parameter.''"
  by (auto simp: GetData_def ComposeSchemaAndData_def ComposeSchema_def GetItem_def FindOrInsert_def Let_def
      split: option.splits)

text \<open>
  A NUL byte breaks the framing. What is sent of a composed message is the C string
  \<open>c_str\<close>; when the message contains a NUL byte, fewer bytes are sent than the length
  header announces, and the receiver cannot take the message off the stream.
\<close>

theorem nul_breaks_framing:
  assumes "m_djsonData item = []" and "GetData item m = Inr (s, item', m')" and "nul \<in> set s"
  shows "length (c_str s) < length s \<and> decode_frame (c_str s) = None"
proof -
  have "s = djson_frame (djson_payload (m_source item) (GetTag item) (m_schemaAndData item'))"
    using assms(2,1) by (rule GetData_fresh)
  moreover have "strict_prefix (c_str s) s"
    using c_str_prefix [of s] c_str_cut [OF assms(3)] by (auto simp: strict_prefix_def)
  ultimately have "decode_frame (c_str s) = None" by (metis decode_frame_partial)
  with c_str_cut [OF assms(3)] show ?thesis by simp
qed

theorem nul_breaks_framing_witness:
  "decode_frame (c_str (djson_frame (djson_payload [nul] ''1'' ''D''))) = None"
proof -
  let ?item = "sample_item\<lparr>m_source := [nul]\<rparr>"
  have "GetData ?item [] = Inr (djson_frame (djson_payload [nul] ''1'' ''D''), ComposeFullData ?item, [])"
    by (simp add: GetData_def Let_def ComposeFullData_frame GetTag_def)
  from nul_breaks_framing [OF _ this] show ?thesis
    by (simp add: djson_frame_def djson_payload_def)
qed

end
