(* ===== verification/Sock_Addr.thy ===== *)
theory Sock_Addr
  imports Mdsd_Prelude
begin

text \<open>
  \<open>src/src/outmdsd/SockAddr.h\<close> and \<open>SockAddr.cc\<close>: socket addresses. The constants are those
  of Linux (\<open>sizeof(sun_path)\<close> is 108).
\<close>

definition AF_UNIX :: int where "AF_UNIX = 1"
definition AF_INET :: int where "AF_INET = 2"
definition sun_path_size :: nat where "sun_path_size = 108"
definition INADDR_LOOPBACK :: "32 word" where "INADDR_LOOPBACK = 0x7F000001"

record sockaddr_un =
  sun_family :: int
  sun_path :: string

text \<open>
  The port and the address as the numbers they denote; \<open>htons\<close> and \<open>htonl\<close> only put their
  bytes into network order.
\<close>

record sockaddr_in =
  sin_family :: int
  sin_port :: "16 word"
  sin_addr :: "32 word"

text \<open>\<open>strncpy\<close> copies up to the terminating NUL and fills the rest with NUL bytes.\<close>

definition strncpy :: "string \<Rightarrow> nat \<Rightarrow> string" where
  "strncpy src n = take n (c_str src) @ replicate (n - length (c_str src)) nul"

definition UnixSockAddr :: "string \<Rightarrow> sockaddr_un result" where
  "UnixSockAddr socketfile =
     (if socketfile = [] then Inl (Invalid_Argument ''UnixSockAddr: unexpected empty socketfile parameter.'')
      else if length socketfile > sun_path_size
      then Inl (Invalid_Argument (''UnixSockAddr: socketfile '' @ [CHR 0x27] @ socketfile @ [CHR 0x27] @
             '' exceeds max allowed length '' @ to_string sun_path_size))
      else Inr \<lparr>sun_family = AF_UNIX, sun_path = strncpy socketfile sun_path_size\<rparr>)"

definition TcpSockAddr :: "32 word \<Rightarrow> sockaddr_in result" where
  "TcpSockAddr port =
     (if sint port \<le> 0 then Inl (Invalid_Argument (''TcpSockAddr: invalid port '' @ to_string_int (sint port)))
      else Inr \<lparr>sin_family = AF_INET, sin_port = ucast port, sin_addr = INADDR_LOOPBACK\<rparr>)"

lemma strncpy_length: "length (strncpy src n) = n"
  by (simp add: strncpy_def)

lemma c_str_append_nul: "nul \<notin> set s \<Longrightarrow> c_str (s @ replicate k nul) = s"
  by (induction s) (auto simp: c_str_def takeWhile_eq_Nil_iff hd_replicate)

lemma nul_not_in_c_str: "nul \<notin> set (c_str s)"
  by (auto simp: c_str_def dest: set_takeWhileD)

lemma c_str_strncpy:
  assumes "length (c_str src) \<le> n"
  shows "c_str (strncpy src n) = c_str src"
proof -
  have "strncpy src n = c_str src @ replicate (n - length (c_str src)) nul"
    using assms by (simp add: strncpy_def)
  then show ?thesis by (simp only: c_str_append_nul [OF nul_not_in_c_str])
qed

section \<open>Properties\<close>

text \<open>
  A Unix address is made exactly for a path of 1 to 108 bytes; the address then holds
  108 bytes, of which those before the first NUL are the path as a C string: no path is
  truncated.
\<close>

theorem unix_address_exact:
  "case UnixSockAddr f of
     Inl e \<Rightarrow> is_invalid_argument e \<and> (length f = 0 \<or> 108 < length f)
   | Inr a \<Rightarrow> length f \<in> {1..108} \<and> sun_family a = AF_UNIX
             \<and> length (sun_path a) = 108 \<and> c_str (sun_path a) = c_str f"
proof -
  have "length (c_str f) \<le> length f" using prefix_length_le [OF c_str_prefix [of f]] .
  then show ?thesis
    by (cases f) (auto simp: UnixSockAddr_def sun_path_size_def strncpy_length c_str_strncpy)
qed

text \<open>
  A TCP port is checked for its sign only. Every positive \<open>int\<close> is accepted and the
  address denotes it modulo \<open>2^16\<close>: 65616 connects to port 80.
\<close>

theorem tcp_port_truncated:
  assumes "TcpSockAddr port = Inr a"
  shows "unat (sin_port a) = unat port mod 2 ^ 16"
  using assms by (auto simp: TcpSockAddr_def unsigned_ucast_eq take_bit_eq_mod split: if_splits)

theorem tcp_port_truncated_witness: "unat (ucast (65616 :: 32 word) :: 16 word) = 80"
  using tcp_port_truncated [of 65616 "\<lparr>sin_family = AF_INET, sin_port = ucast (65616 :: 32 word), sin_addr = INADDR_LOOPBACK\<rparr>"]
  by (simp add: TcpSockAddr_def)

end
