(* ===== verification/Socket_Client.thy ===== *)
theory Socket_Client
  imports Sock_Addr Complex_Main
begin

unbundle bit_operations_syntax

text \<open>
  \<open>src/src/outmdsd/SocketClient.h\<close> and \<open>SocketClient.cc\<close>: the connection shared by the
  threads. The operating system and the other threads are arguments: each turn of a loop
  takes a record of what the turn observes (flags read, results of its system calls). A
  call that has used up its turns is still in progress, the result \<open>None\<close>; the lemmas on
  progress say which turns make it return.
\<close>

section \<open>System calls\<close>

definition EINTR :: int where "EINTR = 4"
definition EAGAIN :: int where "EAGAIN = 11"
definition POLLIN :: "16 word" where "POLLIN = 1"
definition POLLOUT :: "16 word" where "POLLOUT = 4"
definition POLLHUP :: "16 word" where "POLLHUP = 16"

text \<open>A non-negative result, or -1 with the errno.\<close>

datatype sys = Sys_Ok nat | Sys_Err int

text \<open>\<open>while (-1 == (rtn = call()) && EINTR == errno) {}\<close> over the successive results.\<close>

fun retry_eintr :: "sys list \<Rightarrow> sys option" where
  "retry_eintr [] = None"
| "retry_eintr (Sys_Ok n # rs) = Some (Sys_Ok n)"
| "retry_eintr (Sys_Err e # rs) = (if e = EINTR then retry_eintr rs else Some (Sys_Err e))"

text \<open>What \<open>poll\<close> answers: an errno, or the returned events with the errno left over.\<close>

datatype poll_res = Poll_Err int | Poll_Ok "16 word" int

fun retry_poll :: "poll_res list \<Rightarrow> poll_res option" where
  "retry_poll [] = None"
| "retry_poll (Poll_Ok ev e # rs) = Some (Poll_Ok ev e)"
| "retry_poll (Poll_Err e # rs) = (if e = EINTR then retry_poll rs else Some (Poll_Err e))"

section \<open>State\<close>

definition INVALID_SOCKET :: int where "INVALID_SOCKET = -1"

record socket_client =
  m_sockfd :: int
  m_stopClient :: bool
  m_numConnect :: nat
  m_connRetryTimeoutMS :: "32 word"
  m_randDist :: "rat \<times> rat"

text \<open>The two constructors; the second leaves the distribution at its default range.\<close>

definition new_unix_client :: "string \<Rightarrow> 32 word \<Rightarrow> socket_client result" where
  "new_unix_client socketfile connRetryTimeoutMS =
     (case UnixSockAddr socketfile of
        Inl e \<Rightarrow> Inl e
      | Inr addr \<Rightarrow>
          if connRetryTimeoutMS = 0
          then Inl (Invalid_Argument ''SocketClient: connect retry timeout must be non-zero.'')
          else Inr \<lparr>m_sockfd = INVALID_SOCKET, m_stopClient = False, m_numConnect = 0,
                    m_connRetryTimeoutMS = connRetryTimeoutMS, m_randDist = (3/4, 5/4)\<rparr>)"

definition new_tcp_client :: "32 word \<Rightarrow> 32 word \<Rightarrow> socket_client result" where
  "new_tcp_client port connRetryTimeoutMS =
     (case TcpSockAddr port of
        Inl e \<Rightarrow> Inl e
      | Inr addr \<Rightarrow>
          Inr \<lparr>m_sockfd = INVALID_SOCKET, m_stopClient = False, m_numConnect = 0,
               m_connRetryTimeoutMS = connRetryTimeoutMS, m_randDist = (0, 1)\<rparr>)"

definition Close :: "socket_client \<Rightarrow> socket_client" where
  "Close c = (if m_sockfd c \<noteq> INVALID_SOCKET then c\<lparr>m_sockfd := INVALID_SOCKET\<rparr> else c)"

definition client_Stop :: "socket_client \<Rightarrow> socket_client" where
  "client_Stop c = Close (if \<not> m_stopClient c then c\<lparr>m_stopClient := True\<rparr> else c)"

definition GetNumReConnect :: "socket_client \<Rightarrow> nat" where
  "GetNumReConnect c = m_numConnect c"

definition client_destructor :: "socket_client \<Rightarrow> socket_client" where
  "client_destructor c = client_Stop c"

section \<open>Connecting\<close>

text \<open>
  What one turn of the connection loop observes: the stop flag, the results of
  \<open>socket\<close> and \<open>connect\<close>, the errno that is left after closing the failed socket, the
  elapsed milliseconds before and after waiting, the random factor, and the stop flag at
  each check while waiting.
\<close>

record conn_round =
  cr_stop :: bool
  cr_socket :: sys
  cr_connect :: sys
  cr_errno_after_close :: int
  cr_runtime1 :: "32 word"
  cr_factor :: rat
  cr_stop_in_wait :: "nat \<Rightarrow> bool"
  cr_runtime2 :: "32 word"

definition SetupSocketConnect :: "conn_round \<Rightarrow> socket_client \<Rightarrow> unit result \<times> socket_client" where
  "SetupSocketConnect r c =
     (if INVALID_SOCKET \<noteq> m_sockfd c then (Inr (), c)
      else let c1 = c\<lparr>m_numConnect := m_numConnect c + 1\<rparr>
           in case cr_socket r of
                Sys_Err e \<Rightarrow> (Inl (Socket_Exception e ''SocketClient socket()''), c1)
              | Sys_Ok fd \<Rightarrow>
                  (case cr_connect r of
                     Sys_Err e \<Rightarrow>
                       (Inl (Socket_Exception (cr_errno_after_close r) ''SocketClient connect()''),
                        c1\<lparr>m_sockfd := INVALID_SOCKET\<rparr>)
                   | Sys_Ok _ \<Rightarrow> (Inr (), c1\<lparr>m_sockfd := int fd\<rparr>)))"

text \<open>
  \<open>WaitBeforeReConnect\<close>: the delay in milliseconds, and the milliseconds slept in slices
  of 100 while the stop flag is not seen. The product with the random factor is rounded
  towards zero by the conversion to \<open>int\<close>.
\<close>

definition to_int :: "rat \<Rightarrow> int" where
  "to_int x = (if x < 0 then - \<lfloor>- x\<rfloor> else \<lfloor>x\<rfloor>)"

definition reconnect_delay :: "nat \<Rightarrow> int \<Rightarrow> rat \<Rightarrow> int" where
  "reconnect_delay numConnect maxWaitMS factor =
     (let minDelay = 100;
          maxDelay = min 60000 maxWaitMS;
          k = push_bit (numConnect mod 10) 1;
          delayMS = min (minDelay * k) maxDelay
      in to_int (of_int delayMS * factor))"

fun nap_loop :: "nat \<Rightarrow> nat \<Rightarrow> (nat \<Rightarrow> bool) \<Rightarrow> nat" where
  "nap_loop i 0 stop = 0"
| "nap_loop i (Suc n) stop = (if stop i then 0 else 100 + nap_loop (Suc i) n stop)"

definition WaitBeforeReConnect :: "nat \<Rightarrow> int \<Rightarrow> rat \<Rightarrow> (nat \<Rightarrow> bool) \<Rightarrow> nat" where
  "WaitBeforeReConnect numConnect maxWaitMS factor stop =
     (let delayMS = reconnect_delay numConnect maxWaitMS factor;
          ntimes = nat (delayMS div 100);
          slept = nap_loop 0 ntimes stop;
          leftMS = (if delayMS < 0 then 0 else delayMS mod 100)
      in slept + (if \<not> stop ntimes \<and> leftMS > 0 then nat leftMS else 0))"

definition IsRetryTimeout :: "32 word \<Rightarrow> socket_client \<Rightarrow> bool" where
  "IsRetryTimeout runtimeMS c \<longleftrightarrow> m_connRetryTimeoutMS c \<le> runtimeMS"

text \<open>
  The loop of \<open>Connect\<close>, entered with the mutex held; the last component is the time slept.
  The waiting time handed on is the difference of two \<open>unsigned int\<close>, converted to \<open>int\<close>.
\<close>

fun connect_loop :: "conn_round list \<Rightarrow> socket_client \<Rightarrow> unit option \<times> socket_client \<times> nat" where
  "connect_loop [] c = (None, c, 0)"
| "connect_loop (r # rs) c =
     (if cr_stop r then (Some (), c, 0)
      else case SetupSocketConnect r c of
             (Inr _, c1) \<Rightarrow> (Some (), c1, 0)
           | (Inl ex, c1) \<Rightarrow>
               if m_connRetryTimeoutMS c1 \<le> cr_runtime1 r then (Some (), c1, 0)
               else let slept = WaitBeforeReConnect (m_numConnect c1)
                                  (sint (m_connRetryTimeoutMS c1 - cr_runtime1 r)) (cr_factor r) (cr_stop_in_wait r)
                    in if IsRetryTimeout (cr_runtime2 r) c1 then (Some (), c1, slept)
                       else let (res, c2, slept') = connect_loop rs c1 in (res, c2, slept + slept'))"

definition Connect :: "conn_round list \<Rightarrow> socket_client \<Rightarrow> unit option \<times> socket_client \<times> nat" where
  "Connect rs c =
     (if INVALID_SOCKET \<noteq> m_sockfd c then (Some (), c, 0) else connect_loop rs c)"

section \<open>Polling, sending, reading\<close>

definition PollSocket :: "16 word \<Rightarrow> int \<Rightarrow> poll_res list \<Rightarrow> unit result option" where
  "PollSocket pollMode sockfd polls =
     (if pollMode = 0 then Some (Inl (Invalid_Argument ''PollSocket(): pollMode cannot be 0.''))
      else if sockfd < 0
      then Some (Inl (Socket_Exception 0 (''PollSocket(): invalid sockfd='' @ to_string_int sockfd)))
      else case retry_poll polls of
             None \<Rightarrow> None
           | Some (Poll_Err e) \<Rightarrow> Some (Inl (Socket_Exception e ''poll()''))
           | Some (Poll_Ok revents errCopy) \<Rightarrow>
               if revents AND POLLHUP \<noteq> 0
               then Some (Inl (Socket_Exception errCopy ''poll() returned hang-up. Socket was closed.''))
               else if revents AND pollMode = 0
               then Some (Inl (Socket_Exception errCopy ''poll() returned unexpected event.''))
               else Some (Inr ()))"

text \<open>
  One turn of the sending loop: the stop flag and the descriptor it reads, the answers of
  \<open>poll\<close> and of \<open>send\<close>. The results are the outcome and the bytes the kernel accepted.
\<close>

record send_round =
  sr_stop :: bool
  sr_fd :: int
  sr_polls :: "poll_res list"
  sr_sends :: "sys list"

fun send_loop :: "string \<Rightarrow> nat \<Rightarrow> nat \<Rightarrow> send_round list \<Rightarrow> unit result option \<times> string" where
  "send_loop buf sent bytesleft [] = (if bytesleft = 0 then Some (Inr ()) else None, [])"
| "send_loop buf sent bytesleft (r # rs) =
     (if sr_stop r \<or> bytesleft = 0 then (Some (Inr ()), [])
      else case PollSocket POLLOUT (sr_fd r) (sr_polls r) of
             None \<Rightarrow> (None, [])
           | Some (Inl e) \<Rightarrow> (Some (Inl e), [])
           | Some (Inr _) \<Rightarrow>
               (case retry_eintr (sr_sends r) of
                  None \<Rightarrow> (None, [])
                | Some (Sys_Err e) \<Rightarrow>
                    if e = EAGAIN then send_loop buf sent bytesleft rs
                    else (Some (Inl (Socket_Exception e ''socket send()'')), [])
                | Some (Sys_Ok rtn) \<Rightarrow>
                    (let (res, more) = send_loop buf (sent + rtn) (bytesleft - rtn) rs
                     in (res, take rtn (drop sent buf) @ more))))"

definition SendData :: "string option \<Rightarrow> int \<Rightarrow> send_round list \<Rightarrow> unit result option \<times> string" where
  "SendData p sockfd rs =
     (if sockfd < 0
      then (Some (Inl (Socket_Exception 0 (''SocketClient SendData(): invalid sockfd '' @ to_string_int sockfd))), [])
      else case p of
             None \<Rightarrow> (Some (Inl (Invalid_Argument ''SocketClient SendData(): unexpected NULL for buf pointer.'')), [])
           | Some buf \<Rightarrow>
               if length buf = 0 then (Some (Inr ()), [])
               else send_loop buf 0 (length buf) rs)"

text \<open>\<open>Send(const void*, size_t)\<close>: outcome, client, bytes accepted by the kernel.\<close>

definition Send_bytes ::
  "string option \<Rightarrow> nat \<Rightarrow> conn_round list \<Rightarrow> send_round list \<Rightarrow> socket_client
   \<Rightarrow> unit result option \<times> socket_client \<times> string" where
  "Send_bytes p len crs srs c =
     (if len = 0 then (Some (Inr ()), c, [])
      else case p of
             None \<Rightarrow> (Some (Inl (Invalid_Argument ''SocketClient::Send(): unexpected NULL for input data'')), c, [])
           | Some buf \<Rightarrow>
               (case Connect crs c of
                  (None, c1, _) \<Rightarrow> (None, c1, [])
                | (Some _, c1, _) \<Rightarrow>
                    if m_sockfd c1 < 0
                    then (Some (Inl (Socket_Exception 0 (''SocketClient Send(): invalid sockfd '' @ to_string_int (m_sockfd c1)))), Close c1, [])
                    else (case SendData (Some (take len buf)) (m_sockfd c1) srs of
                            (Some (Inl e), acc) \<Rightarrow>
                              (Some (Inl e), if is_socket_exception e then Close c1 else c1, acc)
                          | (res, acc) \<Rightarrow> (res, c1, acc))))"

definition Send :: "string option \<Rightarrow> conn_round list \<Rightarrow> send_round list \<Rightarrow> socket_client
   \<Rightarrow> unit result option \<times> socket_client \<times> string" where
  "Send data crs srs c =
     (case data of
        None \<Rightarrow> (Some (Inl (Invalid_Argument ''SocketClient::Send(): unexpected NULL for input data'')), c, [])
      | Some s \<Rightarrow> Send_bytes (Some s) (length (c_str s)) crs srs c)"

text \<open>
  \<open>Read\<close>: the shared client as the reading thread finds it on entry, when its wait ends and
  when it goes on, with the answers of \<open>poll\<close> and \<open>read\<close>. The value -1 (already stopped) is
  \<open>None\<close>, the bytes read are \<open>Some\<close>; the client is the one left behind.
\<close>

datatype read_sys = Read_Ok string | Read_Err int

fun retry_read :: "read_sys list \<Rightarrow> read_sys option" where
  "retry_read [] = None"
| "retry_read (Read_Ok s # rs) = Some (Read_Ok s)"
| "retry_read (Read_Err e # rs) = (if e = EINTR then retry_read rs else Some (Read_Err e))"

record read_env =
  re_entry :: socket_client
  re_woken :: socket_client
  re_after :: socket_client
  re_polls :: "poll_res list"
  re_reads :: "read_sys list"

definition WaitForSocketToBeReady :: "socket_client \<Rightarrow> unit result" where
  "WaitForSocketToBeReady c =
     (if m_stopClient c then Inr ()
      else if INVALID_SOCKET = m_sockfd c
      then Inl (Socket_Exception 0 ''WaitForSocketToBeReady: socket fd is invalid'')
      else Inr ())"

text \<open>The body of the \<open>try\<close> block: poll, read, close at the end of the stream.\<close>

definition try_read :: "read_env \<Rightarrow> string result option \<times> socket_client" where
  "try_read env =
     (case PollSocket POLLIN (m_sockfd (re_after env)) (re_polls env) of
        None \<Rightarrow> (None, re_after env)
      | Some (Inl e) \<Rightarrow> (Some (Inl e), re_after env)
      | Some (Inr _) \<Rightarrow>
          (case retry_read (re_reads env) of
             None \<Rightarrow> (None, re_after env)
           | Some (Read_Err e) \<Rightarrow>
               (Some (if e = EAGAIN then Inr [] else Inl (Socket_Exception e ''SocketClient read()'')), re_after env)
           | Some (Read_Ok s) \<Rightarrow> (Some (Inr s), if s = [] then Close (re_after env) else re_after env)))"

definition Read :: "bool \<Rightarrow> nat \<Rightarrow> read_env \<Rightarrow> string option result option \<times> socket_client" where
  "Read buf_null count env =
     (if buf_null then (Some (Inl (Invalid_Argument ''SocketClient::Read(): NULL pointer for buffer'')), re_entry env)
      else if count = 0
      then (Some (Inl (Invalid_Argument ''SocketClient::Read(): read count cannot be 0.'')), re_entry env)
      else if m_stopClient (re_entry env) then (Some (Inr None), re_entry env)
      else case WaitForSocketToBeReady (re_woken env) of
             Inl e \<Rightarrow> (Some (Inl e), re_woken env)
           | Inr _ \<Rightarrow>
             if m_stopClient (re_after env) then (Some (Inr None), re_after env)
             else case try_read env of
                    (None, c) \<Rightarrow> (None, c)
                  | (Some (Inr s), c) \<Rightarrow> (Some (Inr (Some s)), c)
                  | (Some (Inl e), c) \<Rightarrow> (Some (Inl e), if is_socket_exception e then Close c else c))"

section \<open>Lemmas\<close>

lemma PollSocket_error:
  "pollMode \<noteq> 0 \<Longrightarrow> PollSocket pollMode fd polls = Some (Inl e) \<Longrightarrow> is_socket_exception e"
  by (auto simp: PollSocket_def split: if_splits option.splits poll_res.splits)

lemma POLLOUT_nonzero: "POLLOUT \<noteq> 0" and POLLIN_nonzero: "POLLIN \<noteq> 0"
  by (simp_all add: POLLOUT_def POLLIN_def)

lemma Close_closes: "m_sockfd (Close c) = INVALID_SOCKET"
  by (simp add: Close_def)

lemma Close_keeps: "m_stopClient (Close c) = m_stopClient c" "m_numConnect (Close c) = m_numConnect c"
  by (simp_all add: Close_def)

text \<open>
  The loop invariant of \<open>SendData\<close>: what the turns from \<open>sent\<close> on hand to the kernel is the
  continuation of the buffer there.
\<close>

lemma send_loop_prefix:
  "send_loop buf sent left rs = (res, acc) \<Longrightarrow> prefix acc (drop sent buf)"
proof (induction buf sent left rs arbitrary: res acc rule: send_loop.induct)
  case (2 buf sent left r rs)
  have step: "prefix (take n (drop sent buf) @ more) (drop sent buf)"
    if "prefix more (drop (sent + n) buf)" for n more
  proof -
    have "drop sent buf = take n (drop sent buf) @ drop (sent + n) buf"
      by (metis append_take_drop_id drop_drop add.commute)
    with that show ?thesis by (metis same_prefix_prefix)
  qed
  show ?case
    using "2.prems" 2(1,2)
    by (auto split: if_splits option.splits sum.splits sys.splits prod.splits intro!: step)
qed auto

lemma send_loop_complete:
  assumes "send_loop buf sent left rs = (Some (Inr ()), acc)" "left = length buf - sent"
    and "\<forall>r\<in>set rs. \<not> sr_stop r"
  shows "acc = drop sent buf"
  using assms
proof (induction buf sent left rs arbitrary: acc rule: send_loop.induct)
  case (2 buf sent left r rs)
  have "take n (drop sent buf) @ drop (sent + n) buf = drop sent buf" for n
    by (metis append_take_drop_id drop_drop add.commute)
  with 2 show ?case
    by (fastforce split: if_splits option.splits sum.splits sys.splits prod.splits)
qed (auto split: if_splits)

text \<open>A turn in which the kernel takes something; that many turns are enough for the rest.\<close>

definition send_progress :: "send_round \<Rightarrow> bool" where
  "send_progress r \<longleftrightarrow> \<not> sr_stop r \<and> PollSocket POLLOUT (sr_fd r) (sr_polls r) = Some (Inr ())
     \<and> (case retry_eintr (sr_sends r) of Some (Sys_Ok n) \<Rightarrow> 0 < n | _ \<Rightarrow> False)"

lemma send_loop_returns:
  "left \<le> length rs \<Longrightarrow> \<forall>r\<in>set rs. send_progress r
   \<Longrightarrow> fst (send_loop buf sent left rs) = Some (Inr ())"
proof (induction rs arbitrary: sent left)
  case (Cons r rs)
  from Cons.prems obtain n where r: "\<not> sr_stop r" "PollSocket POLLOUT (sr_fd r) (sr_polls r) = Some (Inr ())"
    "retry_eintr (sr_sends r) = Some (Sys_Ok n)" "0 < n"
    by (auto simp: send_progress_def split: option.splits sys.splits)
  have "fst (send_loop buf (sent + n) (left - n) rs) = Some (Inr ())"
    using Cons.prems r(4) by (intro Cons.IH) auto
  with r show ?case by (simp add: split_beta)
qed simp

lemma send_loop_error:
  "send_loop buf sent left rs = (Some (Inl e), acc) \<Longrightarrow> is_socket_exception e"
proof (induction buf sent left rs arbitrary: acc rule: send_loop.induct)
  case (2 buf sent left r rs)
  then show ?case
    by (auto split: if_splits option.splits sum.splits sys.splits prod.splits
        dest: PollSocket_error [OF POLLOUT_nonzero])
qed (auto split: if_splits)

lemma take_c_str: "take (length (c_str s)) s = c_str s"
  using c_str_prefix [of s] by (metis append_eq_conv_conj prefix_def)

lemma Send_prefix:
  "Send (Some s) crs srs c = (res, c', acc) \<Longrightarrow> prefix acc (c_str s)"
  by (auto simp: Send_def Send_bytes_def SendData_def take_c_str
      dest: send_loop_prefix split: if_splits option.splits prod.splits sum.splits)

lemma SetupSocketConnect_frame:
  "SetupSocketConnect r c = (res, c') \<Longrightarrow>
     m_connRetryTimeoutMS c' = m_connRetryTimeoutMS c \<and> m_stopClient c' = m_stopClient c
     \<and> m_numConnect c \<le> m_numConnect c' \<and> m_numConnect c' \<le> m_numConnect c + 1
     \<and> (case res of Inl e \<Rightarrow> is_socket_exception e \<and> m_sockfd c' = INVALID_SOCKET
                   | Inr _ \<Rightarrow> m_sockfd c' \<noteq> INVALID_SOCKET)"
  by (auto simp: SetupSocketConnect_def INVALID_SOCKET_def Let_def split: if_splits sys.splits)

lemma connect_loop_props:
  "connect_loop rs c = (res, c', t) \<Longrightarrow> m_sockfd c = INVALID_SOCKET \<Longrightarrow>
     m_numConnect c \<le> m_numConnect c' \<and> m_numConnect c' \<le> m_numConnect c + length rs
     \<and> m_stopClient c' = m_stopClient c
     \<and> (res = None \<longrightarrow> m_sockfd c' = INVALID_SOCKET)
     \<and> (res = Some () \<longrightarrow> m_sockfd c' \<noteq> INVALID_SOCKET
          \<or> (\<exists>r\<in>set rs. cr_stop r \<or> m_connRetryTimeoutMS c \<le> max (cr_runtime1 r) (cr_runtime2 r)))"
proof (induction rs arbitrary: c res c' t)
  case (Cons r rs)
  show ?case
  proof (cases "cr_stop r")
    case False
    obtain sr c1 where s: "SetupSocketConnect r c = (sr, c1)" by fastforce
    note f = SetupSocketConnect_frame [OF s]
    show ?thesis
    proof (cases sr)
      case (Inl e)
      obtain res2 c2 t2 where l: "connect_loop rs c1 = (res2, c2, t2)" by (metis prod_cases3)
      have "m_sockfd c1 = INVALID_SOCKET" using f Inl by simp
      note ih = Cons.IH [OF l this]
      show ?thesis
        using Cons.prems False s f Inl l ih
        by (auto simp: Let_def IsRetryTimeout_def le_max_iff_disj split: if_splits)
    qed (use Cons.prems False s f in auto)
  qed (use Cons.prems in auto)
qed simp

text \<open>A turn after which the loop is left for good: it connects, sees the stop flag or the timeout.\<close>

definition conn_ends :: "32 word \<Rightarrow> conn_round \<Rightarrow> bool" where
  "conn_ends timeoutMS r \<longleftrightarrow> cr_stop r \<or> timeoutMS \<le> cr_runtime1 r \<or> timeoutMS \<le> cr_runtime2 r
     \<or> (case (cr_socket r, cr_connect r) of (Sys_Ok _, Sys_Ok _) \<Rightarrow> True | _ \<Rightarrow> False)"

lemma connect_loop_returns:
  "\<exists>r\<in>set rs. conn_ends (m_connRetryTimeoutMS c) r \<Longrightarrow> fst (connect_loop rs c) = Some ()"
proof (induction rs arbitrary: c)
  case (Cons r rs)
  obtain sr c1 where s: "SetupSocketConnect r c = (sr, c1)" by fastforce
  note f = SetupSocketConnect_frame [OF s]
  have now: "fst (connect_loop (r # rs) c) = Some ()" if "conn_ends (m_connRetryTimeoutMS c) r"
    using that s f
    by (auto simp: conn_ends_def IsRetryTimeout_def Let_def SetupSocketConnect_def
        split: sum.splits sys.splits if_splits)
  have later: "fst (connect_loop (r # rs) c) = Some ()"
    if "fst (connect_loop rs c1) = Some ()"
    using that s by (auto simp: Let_def split: sum.splits prod.splits)
  show ?case
  proof (cases "conn_ends (m_connRetryTimeoutMS c) r")
    case False
    with Cons.prems f have "\<exists>r\<in>set rs. conn_ends (m_connRetryTimeoutMS c1) r" by simp
    from later [OF Cons.IH [OF this]] show ?thesis .
  qed (rule now)
qed simp

lemma nap_loop_bound: "nap_loop i n stop \<le> 100 * n"
  by (induction n arbitrary: i) (auto intro: le_trans)

lemma nap_loop_unstopped: "\<forall>j. \<not> stop j \<Longrightarrow> nap_loop i n stop = 100 * n"
  by (induction n arbitrary: i) auto

lemma WaitBeforeReConnect_le:
  "WaitBeforeReConnect n maxWaitMS f stop \<le> nat (reconnect_delay n maxWaitMS f)"
proof -
  define d where "d = reconnect_delay n maxWaitMS f"
  have "nap_loop 0 (nat (d div 100)) stop + (if d < 0 then 0 else nat (d mod 100)) \<le> nat d"
  proof (cases "d < 0")
    case False
    have "nap_loop 0 (nat (d div 100)) stop \<le> 100 * nat (d div 100)" by (rule nap_loop_bound)
    moreover have "100 * nat (d div 100) + nat (d mod 100) = nat d"
      using False by (simp add: nat_div_distrib nat_mod_distrib)
    ultimately show ?thesis using False by simp
  next
    case True
    then have "nat (d div 100) = 0" by linarith
    then show ?thesis using True by (simp only: nap_loop.simps) simp
  qed
  then show ?thesis by (auto simp: WaitBeforeReConnect_def Let_def d_def split: if_splits)
qed

lemma reconnect_delay_bounds:
  assumes "0 \<le> f" "f \<le> 5/4" "0 \<le> maxWaitMS"
  shows "0 \<le> reconnect_delay n maxWaitMS f" "reconnect_delay n maxWaitMS f \<le> 75000"
    "4 * reconnect_delay n maxWaitMS f \<le> 5 * maxWaitMS"
proof -
  define d where "d = min (100 * push_bit (n mod 10) 1) (min 60000 maxWaitMS)"
  have d: "0 \<le> d" "d \<le> 60000" "d \<le> maxWaitMS" using assms(3) by (auto simp: d_def)
  have r: "reconnect_delay n maxWaitMS f = \<lfloor>of_int d * f\<rfloor>"
  proof -
    have "reconnect_delay n maxWaitMS f = to_int (of_int d * f)"
      by (simp only: reconnect_delay_def Let_def d_def)
    moreover have "\<not> of_int d * f < 0" using d(1) assms(1) by (simp add: not_less)
    ultimately show ?thesis by (simp only: to_int_def if_False)
  qed
  have le: "of_int d * f \<le> of_int d * (5/4)" using d(1) assms(2) by (intro mult_left_mono) auto
  have "of_int \<lfloor>of_int d * f\<rfloor> \<le> of_int d * f" by (rule of_int_floor_le)
  also note le
  finally have "(of_int (4 * \<lfloor>of_int d * f\<rfloor>) :: rat) \<le> of_int (5 * d)" by simp
  then have "4 * \<lfloor>of_int d * f\<rfloor> \<le> 5 * d" by (simp only: of_int_le_iff)
  with r d show "reconnect_delay n maxWaitMS f \<le> 75000" "4 * reconnect_delay n maxWaitMS f \<le> 5 * maxWaitMS"
    by linarith+
  show "0 \<le> reconnect_delay n maxWaitMS f" using r d(1) assms(1) by simp
qed

lemma try_read_error: "try_read env = (Some (Inl e), c) \<Longrightarrow> is_socket_exception e"
  using POLLIN_nonzero
  by (auto simp: try_read_def dest: PollSocket_error
      split: if_splits option.splits sum.splits read_sys.splits)

lemma try_read_bytes:
  "try_read env = (Some (Inr s), c) \<Longrightarrow>
     (retry_read (re_reads env) = Some (Read_Ok s) \<or> s = [] \<and> retry_read (re_reads env) = Some (Read_Err EAGAIN))
     \<and> (retry_read (re_reads env) = Some (Read_Ok []) \<longrightarrow> m_sockfd c = INVALID_SOCKET)"
  by (auto simp: try_read_def Close_closes split: if_splits option.splits sum.splits read_sys.splits)

lemma WaitForSocketToBeReady_error:
  "WaitForSocketToBeReady c = Inl e \<Longrightarrow> is_socket_exception e \<and> m_sockfd c = INVALID_SOCKET"
  by (auto simp: WaitForSocketToBeReady_def split: if_splits)

lemma Read_cases:
  assumes "Read False count env = (Some res, c)" "0 < count"
  obtains (stopped) "res = Inr None" "m_stopClient (re_entry env) \<or> m_stopClient (re_after env)"
  | (not_ready) e where "res = Inl e" "WaitForSocketToBeReady (re_woken env) = Inl e" "c = re_woken env"
  | (bytes) s where "res = Inr (Some s)" "try_read env = (Some (Inr s), c)"
  | (failed) e c0 where "res = Inl e" "try_read env = (Some (Inl e), c0)" "c = (if is_socket_exception e then Close c0 else c0)"
proof (cases "m_stopClient (re_entry env)")
  case True
  with assms show thesis by (intro stopped) (simp_all add: Read_def)
next
  case entry: False
  show thesis
  proof (cases "WaitForSocketToBeReady (re_woken env)")
    case (Inl e)
    with assms entry show thesis by (intro not_ready [of e]) (simp_all add: Read_def)
  next
    case wait: (Inr u)
    show thesis
    proof (cases "m_stopClient (re_after env)")
      case True
      with assms entry wait show thesis by (intro stopped) (simp_all add: Read_def)
    next
      case False
      obtain ro c0 where t: "try_read env = (ro, c0)" by fastforce
      show thesis
      proof (cases ro)
        case (Some ro')
        then show thesis
          using assms entry wait False t bytes failed by (cases ro') (auto simp: Read_def)
      qed (use assms entry wait False t in \<open>simp add: Read_def\<close>)
    qed
  qed
qed

section \<open>Concrete turns\<close>

definition unix_client :: "32 word \<Rightarrow> socket_client" where
  "unix_client timeoutMS = \<lparr>m_sockfd = INVALID_SOCKET, m_stopClient = False, m_numConnect = 0,
     m_connRetryTimeoutMS = timeoutMS, m_randDist = (3/4, 5/4)\<rparr>"

definition accepting :: "nat \<Rightarrow> nat \<Rightarrow> send_round" where
  "accepting fd k = \<lparr>sr_stop = False, sr_fd = int fd, sr_polls = [Poll_Err EINTR, Poll_Ok POLLOUT 0], sr_sends = [Sys_Err EINTR, Sys_Ok k]\<rparr>"

definition hung_up :: "nat \<Rightarrow> send_round" where
  "hung_up fd = \<lparr>sr_stop = False, sr_fd = int fd, sr_polls = [Poll_Ok (POLLOUT OR POLLHUP) 0], sr_sends = []\<rparr>"

definition stopped :: "nat \<Rightarrow> send_round" where
  "stopped fd = \<lparr>sr_stop = True, sr_fd = int fd, sr_polls = [], sr_sends = []\<rparr>"

definition refused :: "32 word \<Rightarrow> conn_round" where
  "refused ms = \<lparr>cr_stop = False, cr_socket = Sys_Ok 3, cr_connect = Sys_Err 111, cr_errno_after_close = 111,
     cr_runtime1 = ms, cr_factor = 1, cr_stop_in_wait = (\<lambda>_. False), cr_runtime2 = ms\<rparr>"

definition connecting :: "nat \<Rightarrow> conn_round" where
  "connecting fd = \<lparr>cr_stop = False, cr_socket = Sys_Ok fd, cr_connect = Sys_Ok 0, cr_errno_after_close = 0,
     cr_runtime1 = 0, cr_factor = 1, cr_stop_in_wait = (\<lambda>_. False), cr_runtime2 = 0\<rparr>"

lemmas concrete_turns = unix_client_def accepting_def hung_up_def stopped_def refused_def connecting_def
  EINTR_def EAGAIN_def INVALID_SOCKET_def POLLIN_def POLLOUT_def POLLHUP_def

lemmas client_ops = Send_def Send_bytes_def SendData_def Connect_def SetupSocketConnect_def PollSocket_def
  Close_def IsRetryTimeout_def c_str_def Let_def

text \<open>Neither sending nor reading touches the stop flag.\<close>

lemma Connect_keeps_stop: "Connect crs c = (res, c', t) \<Longrightarrow> m_stopClient c' = m_stopClient c"
  by (auto simp: Connect_def dest: connect_loop_props split: if_splits)

lemma Send_keeps_stop: "Send data crs srs c = (res, c', acc) \<Longrightarrow> m_stopClient c' = m_stopClient c"
  by (auto simp: Send_def Send_bytes_def Close_keeps dest!: Connect_keeps_stop
      split: if_splits option.splits prod.splits sum.splits)

lemma Read_keeps_stop:
  assumes "Read b n \<lparr>re_entry = c, re_woken = c, re_after = c, re_polls = polls, re_reads = reads\<rparr> = (res, c')"
  shows "m_stopClient c' = m_stopClient c"
  using assms
  by (auto simp: Read_def try_read_def Close_keeps split: if_splits option.splits sum.splits prod.splits read_sys.splits)

text \<open>A call that returned, and was not stopped, has sent the whole C string.\<close>

lemma Send_complete:
  assumes "Send (Some s) crs srs c = (Some (Inr ()), c', accepted)" "\<forall>r\<in>set srs. \<not> sr_stop r"
  shows "accepted = c_str s"
  using assms
  by (auto simp: Send_def Send_bytes_def SendData_def take_c_str
      dest!: send_loop_complete split: if_splits option.splits prod.splits sum.splits)

section \<open>Properties\<close>

text \<open>
  C28: when \<open>Send\<close> returns normally and no turn of its loop saw the stop flag, the kernel
  has accepted exactly the bytes of the C string, each once and in order, however the
  calls of \<open>send\<close> split them.
\<close>

theorem send_exact:
  assumes "Send (Some s) crs srs c = (Some (Inr ()), c', accepted)" "\<forall>r\<in>set srs. \<not> sr_stop r"
  shows "accepted = c_str s"
  using assms by (rule Send_complete)

theorem send_exact_witness: "''abc'' = c_str ''abc''"
  by (rule send_exact [of _ "[connecting 3]" "[accepting 3 2, accepting 3 1]" "unix_client 1000"])
     (simp_all add: concrete_turns client_ops)

text \<open>
  C29: when \<open>Send\<close> of a string throws, the exception is a socket exception, the descriptor
  is closed, and what was accepted is a prefix of the string.
\<close>

theorem send_error_closes:
  assumes "Send (Some s) crs srs c = (Some (Inl e), c', accepted)"
  shows "is_socket_exception e \<and> m_sockfd c' = INVALID_SOCKET \<and> prefix accepted (c_str s)"
  using assms Send_prefix [OF assms]
  by (auto simp: Send_def Send_bytes_def SendData_def Close_closes
      dest: send_loop_error split: if_splits option.splits prod.splits sum.splits)

theorem send_error_closes_witness:
  "is_socket_exception (Socket_Exception 0 ''poll() returned hang-up. Socket was closed.'')
   \<and> m_sockfd (Close (unix_client 1000)) = INVALID_SOCKET \<and> prefix ''ab'' (c_str ''abc'')"
  using send_error_closes [of "''abc''" "[connecting 3]" "[accepting 3 2, hung_up 3]" "unix_client 1000"
      "Socket_Exception 0 ''poll() returned hang-up. Socket was closed.''"
      "Close (unix_client 1000)\<lparr>m_numConnect := 1\<rparr>" "''ab''"]
  by (simp add: concrete_turns client_ops)

text \<open>
  As many ready turns as there are bytes are enough for \<open>SendData\<close> to return with
  everything sent, whatever share of the rest each of them accepts.
\<close>

theorem send_data_returns:
  assumes "0 \<le> fd" "length buf \<le> length rs" "\<forall>r\<in>set rs. send_progress r"
  shows "SendData (Some buf) fd rs = (Some (Inr ()), buf)"
proof -
  obtain acc where l: "send_loop buf 0 (length buf) rs = (Some (Inr ()), acc)"
    using send_loop_returns [OF assms(2,3)] by (metis prod.collapse)
  have "acc = buf" using send_loop_complete [OF l] assms(3) by (auto simp: send_progress_def)
  with l assms(1) show ?thesis by (simp add: SendData_def)
qed

theorem send_data_returns_witness:
  "SendData (Some ''abc'') 3 [accepting 3 1, accepting 3 1, accepting 3 1] = (Some (Inr ()), ''abc'')"
  by (rule send_data_returns) (simp_all add: send_progress_def concrete_turns PollSocket_def)

text \<open>
  A stop between two partial sends ends \<open>SendData\<close> normally, with only a prefix of the
  buffer sent: the caller cannot tell it from a complete send.
\<close>

theorem send_stopped_truncates:
  "SendData (Some buf) (int fd) [accepting fd k, stopped fd] = (Some (Inr ()), take k buf)"
  by (cases "buf = []") (simp_all add: concrete_turns SendData_def PollSocket_def)

text \<open>
  C30: \<open>Connect\<close> on a closed client never throws: it returns normally once some turn connects,
  sees the stop flag or the timeout; when it has returned without a connection, some turn saw
  one of these two; and it calls \<open>socket\<close> at most once per turn.
\<close>

theorem connect_outcome:
  assumes "m_sockfd c = INVALID_SOCKET" "Connect rs c = (res, c', slept)"
  shows "((\<exists>r\<in>set rs. conn_ends (m_connRetryTimeoutMS c) r) \<longrightarrow> res = Some ())
    \<and> (res = Some () \<and> m_sockfd c' = INVALID_SOCKET \<longrightarrow>
         (\<exists>r\<in>set rs. cr_stop r \<or> m_connRetryTimeoutMS c \<le> max (cr_runtime1 r) (cr_runtime2 r)))
    \<and> m_numConnect c' \<le> m_numConnect c + length rs"
proof -
  have l: "connect_loop rs c = (res, c', slept)" using assms by (simp add: Connect_def)
  show ?thesis
    using connect_loop_props [OF l assms(1)] connect_loop_returns [of rs c] l by auto
qed

theorem connect_outcome_witness:
  "conn_ends 1000 (connecting 3) \<and> m_numConnect (unix_client 1000\<lparr>m_sockfd := 3, m_numConnect := 2\<rparr>) \<le> 0 + 2"
  using connect_outcome [of "unix_client 1000" "[refused 0, connecting 3]" "Some ()"
      "unix_client 1000\<lparr>m_sockfd := 3, m_numConnect := 2\<rparr>" 200]
  by (simp add: concrete_turns client_ops conn_ends_def WaitBeforeReConnect_def reconnect_delay_def to_int_def eval_nat_numeral)

text \<open>
  C39: the time slept before the next attempt is at most 75 s and at most 5/4 of the given
  maximum, for every random factor of the range \<open>[3/4, 5/4]\<close> and every behaviour of the
  stop flag.
\<close>

theorem backoff_bounded:
  assumes "3/4 \<le> f" "f \<le> 5/4" "0 \<le> maxWaitMS"
  shows "WaitBeforeReConnect n maxWaitMS f stop \<le> 75000
    \<and> 4 * int (WaitBeforeReConnect n maxWaitMS f stop) \<le> 5 * maxWaitMS"
proof -
  have f: "0 \<le> f" using assms(1) by simp
  note b = reconnect_delay_bounds [OF f assms(2,3), of n]
  have "int (WaitBeforeReConnect n maxWaitMS f stop) \<le> reconnect_delay n maxWaitMS f"
    using WaitBeforeReConnect_le [of n maxWaitMS f stop] b(1) by linarith
  with b show ?thesis by linarith
qed

text \<open>The maximum handed to the wait can be exceeded: 500 ms are slept where 400 are left.\<close>

theorem backoff_bounded_witness:
  "WaitBeforeReConnect 3 400 (5/4) (\<lambda>_. False) = 500 \<and> 4 * int 500 \<le> 5 * (400 :: int)"
proof -
  have d: "reconnect_delay 3 400 (5/4) = 500"
    by (simp add: reconnect_delay_def to_int_def push_bit_eq_mult)
  have "WaitBeforeReConnect 3 400 (5/4) (\<lambda>_. False) = 500"
    by (simp add: WaitBeforeReConnect_def d Let_def nap_loop_unstopped)
  with backoff_bounded [of "5/4" 400 3 "\<lambda>_. False"] show ?thesis by simp
qed

text \<open>
  C38: \<open>Read\<close> into a proper buffer returns -1 only when one of its two checks saw the stop
  flag, returns bytes only of the first \<open>read\<close> not interrupted, and the descriptor
  is invalid at the end of the stream and after every exception.
\<close>

theorem read_outcome:
  assumes "0 < count" "Read False count env = (Some res, c)"
  shows "case res of
        Inr None \<Rightarrow> m_stopClient (re_entry env) \<or> m_stopClient (re_after env)
      | Inr (Some s) \<Rightarrow> (retry_read (re_reads env) = Some (Read_Ok s)
                           \<or> s = [] \<and> retry_read (re_reads env) = Some (Read_Err EAGAIN))
                       \<and> (retry_read (re_reads env) = Some (Read_Ok []) \<longrightarrow> m_sockfd c = INVALID_SOCKET)
      | Inl e \<Rightarrow> is_socket_exception e \<and> m_sockfd c = INVALID_SOCKET"
  using assms(2,1)
proof (cases rule: Read_cases)
  case (not_ready e)
  then show ?thesis using WaitForSocketToBeReady_error by simp
next
  case (bytes s)
  then show ?thesis using try_read_bytes by simp
next
  case (failed e c0)
  then show ?thesis using try_read_error by (simp add: Close_closes)
qed simp

theorem read_outcome_witness:
  "retry_read [Read_Err EINTR, Read_Ok ''a:0''] = Some (Read_Ok ''a:0'')"
  using read_outcome [of 1000 "\<lparr>re_entry = unix_client 1, re_woken = unix_client 1\<lparr>m_sockfd := 3\<rparr>,
       re_after = unix_client 1\<lparr>m_sockfd := 3\<rparr>, re_polls = [Poll_Ok POLLIN 0],
       re_reads = [Read_Err EINTR, Read_Ok ''a:0'']\<rparr>" "Inr (Some ''a:0'')" "unix_client 1\<lparr>m_sockfd := 3\<rparr>"]
  by (simp add: Read_def try_read_def WaitForSocketToBeReady_def PollSocket_def concrete_turns)

end
