(* ===== verification/Logger_State.thy ===== *)
theory Logger_State
  imports Concurrent_Map Djson_Item Socket_Client
begin

text \<open>
  What the threads of a logger share: the items (\<open>LogItemPtr.h\<close>), the schema cache, the
  backup cache and the socket client. Items are shared by pointer between the queue, the
  cache and the threads, and are changed in place (\<open>Touch\<close>, \<open>GetData\<close>), so they live in a
  store: a pointer is an index, the null pointer is \<open>None\<close>, allocation appends.
\<close>

type_synonym item_ptr = "nat option"

text \<open>
  \<open>wire\<close> is what the server's side of the socket sees: for every finished call of
  \<open>SocketClient::Send\<close> the bytes the kernel accepted from it. A null cache is \<open>None\<close>.
\<close>

record shared =
  items :: "djson_item list"
  schema_ids :: idmgr
  dataCache :: "item_ptr cmap option"
  sockClient :: socket_client
  wire :: "string list"

text \<open>
  What a step of a thread takes from outside: the clock when it is read for an item, the
  order in which a loop over the cache visits it, and the turns of the connection and
  sending loops of a call of \<open>Send\<close>.
\<close>

record thread_input =
  in_now :: "nat \<Rightarrow> int"
  in_order :: "string list"
  in_conns :: "conn_round list"
  in_sends :: "send_round list"

definition alloc_item :: "djson_item \<Rightarrow> shared \<Rightarrow> item_ptr \<times> shared" where
  "alloc_item item sh = (Some (length (items sh)), sh\<lparr>items := items sh @ [item]\<rparr>)"

definition ptr_Touch :: "int \<Rightarrow> nat \<Rightarrow> shared \<Rightarrow> shared" where
  "ptr_Touch now p sh = sh\<lparr>items := (items sh)[p := Touch now (items sh ! p)]\<rparr>"

definition ptr_GetTag :: "nat \<Rightarrow> shared \<Rightarrow> string" where
  "ptr_GetTag p sh = GetTag (items sh ! p)"

definition ptr_GetData :: "nat \<Rightarrow> shared \<Rightarrow> string result \<times> shared" where
  "ptr_GetData p sh =
     (case GetData (items sh ! p) (schema_ids sh) of
        Inl e \<Rightarrow> (Inl e, sh)
      | Inr (s, item, m) \<Rightarrow> (Inr s, sh\<lparr>items := (items sh)[p := item], schema_ids := m\<rparr>))"

text \<open>A call of \<open>SocketClient::Send\<close> by one of the threads; \<open>None\<close> while it has not returned.\<close>

definition client_Send :: "string \<Rightarrow> thread_input \<Rightarrow> shared \<Rightarrow> (unit result \<times> shared) option" where
  "client_Send data inp sh =
     (case Send (Some data) (in_conns inp) (in_sends inp) (sockClient sh) of
        (None, c, acc) \<Rightarrow> None
      | (Some res, c, acc) \<Rightarrow> Some (res, sh\<lparr>sockClient := c, wire := wire sh @ [acc]\<rparr>))"

section \<open>Items keep their tag\<close>

definition tag_list :: "shared \<Rightarrow> string list" where
  "tag_list sh = map GetTag (items sh)"

lemma GetData_keeps: "GetData item m = Inr (s, item', m') \<Longrightarrow> m_tag item' = m_tag item \<and> m_touchTime item' = m_touchTime item"
  by (auto simp: GetData_def ComposeFullData_def ComposeSchemaAndData_def Let_def
      split: if_splits sum.splits prod.splits)

lemma map_update_same: "f x = f (xs ! i) \<Longrightarrow> map f (xs[i := x]) = map f xs"
  by (cases "i < length xs") (simp_all add: map_update list_update_same_conv list_update_beyond)

lemma ptr_Touch_frame [simp]:
  "tag_list (ptr_Touch now p sh) = tag_list sh" "dataCache (ptr_Touch now p sh) = dataCache sh"
  "length (items (ptr_Touch now p sh)) = length (items sh)"
  "wire (ptr_Touch now p sh) = wire sh" "sockClient (ptr_Touch now p sh) = sockClient sh"
  "schema_ids (ptr_Touch now p sh) = schema_ids sh"
  by (simp_all add: ptr_Touch_def tag_list_def map_update_same GetTag_def Touch_def)

lemma ptr_GetData_frame:
  "ptr_GetData p sh = (r, sh') \<Longrightarrow>
     tag_list sh' = tag_list sh \<and> dataCache sh' = dataCache sh \<and> length (items sh') = length (items sh)
     \<and> wire sh' = wire sh \<and> sockClient sh' = sockClient sh"
  by (auto simp: ptr_GetData_def tag_list_def GetTag_def map_update_same
      split: sum.splits dest!: GetData_keeps)

lemma client_Send_frame:
  "client_Send data inp sh = Some (r, sh') \<Longrightarrow>
     items sh' = items sh \<and> dataCache sh' = dataCache sh \<and> schema_ids sh' = schema_ids sh
     \<and> (\<exists>acc. wire sh' = wire sh @ [acc] \<and> prefix acc (c_str data))"
proof -
  assume a: "client_Send data inp sh = Some (r, sh')"
  obtain res c acc where s: "Send (Some data) (in_conns inp) (in_sends inp) (sockClient sh) = (res, c, acc)"
    by (metis prod_cases3)
  with a show ?thesis
    using Send_prefix [OF s] by (auto simp: client_Send_def split: option.splits)
qed

lemma ptr_GetTag_tag_list: "p < length (items sh) \<Longrightarrow> ptr_GetTag p sh = tag_list sh ! p"
  by (simp add: ptr_GetTag_def tag_list_def)

section \<open>The cache invariant\<close>

text \<open>Every entry is a live item under its own tag.\<close>

definition cache_ok :: "shared \<Rightarrow> bool" where
  "cache_ok sh \<longleftrightarrow>
     (case dataCache sh of
        None \<Rightarrow> True
      | Some m \<Rightarrow> cmap_wf m \<and>
          (\<forall>k v. map_of m k = Some v \<longrightarrow> (\<exists>p. v = Some p \<and> p < length (tag_list sh) \<and> tag_list sh ! p = k)))"

lemma cache_ok_frame:
  "cache_ok sh \<Longrightarrow> dataCache sh' = dataCache sh \<Longrightarrow> tag_list sh' = tag_list sh \<Longrightarrow> cache_ok sh'"
  by (simp add: cache_ok_def split: option.splits)

lemma tag_list_length: "length (tag_list sh) = length (items sh)"
  by (simp add: tag_list_def)

lemma cache_okD:
  "cache_ok sh \<Longrightarrow> dataCache sh = Some m \<Longrightarrow> map_of m k = Some v \<Longrightarrow>
     \<exists>p. v = Some p \<and> p < length (items sh) \<and> ptr_GetTag p sh = k"
  by (fastforce simp: cache_ok_def tag_list_length ptr_GetTag_tag_list)

lemma cache_ok_alloc: "cache_ok sh \<Longrightarrow> cache_ok (snd (alloc_item item sh))"
  by (cases "dataCache sh") (fastforce simp: cache_ok_def alloc_item_def tag_list_def nth_append)+

lemma cache_ok_erase:
  "cache_ok sh \<Longrightarrow> dataCache sh = Some m \<Longrightarrow> cache_ok (sh\<lparr>dataCache := Some (snd (map_erase k m))\<rparr>)"
  by (auto simp: cache_ok_def tag_list_def cm.erase_look intro: cm.erase_good)

lemma cache_ok_erase_list:
  "cache_ok sh \<Longrightarrow> dataCache sh = Some m \<Longrightarrow> cache_ok (sh\<lparr>dataCache := Some (snd (map_erase_list ks m))\<rparr>)"
  by (auto simp: cache_ok_def tag_list_def map_erase_list_loop erase_loop_wf store_simps)

lemma cache_ok_add:
  "cache_ok sh \<Longrightarrow> dataCache sh = Some m \<Longrightarrow> map_add (ptr_GetTag p sh) (Some p) m = Inr m' \<Longrightarrow>
     p < length (items sh) \<Longrightarrow> cache_ok (sh\<lparr>dataCache := Some m'\<rparr>)"
  by (auto simp: cache_ok_def tag_list_def ptr_GetTag_def cm.add_look intro: cm.add_good split: if_splits)

section \<open>Only messages go out\<close>

text \<open>The composed messages of the items, and the condition that all on the wire are parts of such.\<close>

definition on_record :: "shared \<Rightarrow> string \<Rightarrow> bool" where
  "on_record sh s \<longleftrightarrow> s \<noteq> [] \<and> (\<exists>item \<in> set (items sh). m_djsonData item = s)"

definition wire_ok :: "shared \<Rightarrow> bool" where
  "wire_ok sh \<longleftrightarrow> (\<forall>x \<in> set (wire sh). \<exists>s. on_record sh s \<and> prefix x (c_str s))"

definition shared_ok :: "shared \<Rightarrow> bool" where
  "shared_ok sh \<longleftrightarrow> cache_ok sh \<and> wire_ok sh"

lemma set_update_keeps:
  assumes "x \<in> set xs" "p < length xs" "P (xs ! p) \<longrightarrow> P y" "P x"
  shows "\<exists>x \<in> set (xs[p := y]). P x"
proof -
  obtain i where i: "i < length xs" "x = xs ! i" using assms(1) by (auto simp: in_set_conv_nth)
  show ?thesis
  proof (cases "i = p")
    case True
    with assms i show ?thesis by (intro bexI [of _ y]) (auto simp: set_update_memI)
  next
    case False
    then have "xs[p := y] ! i = x" using i by simp
    with i assms(4) show ?thesis by (metis length_list_update nth_mem)
  qed
qed

lemma on_record_update:
  assumes "on_record sh s" "m_djsonData (items sh ! p) \<noteq> [] \<longrightarrow> m_djsonData y = m_djsonData (items sh ! p)"
  shows "on_record (sh\<lparr>items := (items sh)[p := y]\<rparr>) s"
proof (cases "p < length (items sh)")
  case True
  obtain x where x: "x \<in> set (items sh)" "m_djsonData x = s" "s \<noteq> []"
    using assms(1) by (auto simp: on_record_def)
  have "\<exists>x \<in> set ((items sh)[p := y]). m_djsonData x = s"
    by (rule set_update_keeps [OF x(1) True]) (use assms(2) x in auto)
  with x(3) show ?thesis by (simp add: on_record_def)
next
  case False
  with assms(1) show ?thesis by (simp add: list_update_beyond)
qed

lemma ptr_Touch_record: "on_record sh s \<Longrightarrow> on_record (ptr_Touch now p sh) s"
  unfolding ptr_Touch_def by (rule on_record_update) (simp_all add: Touch_def)

lemma GetData_memo: "GetData item m = Inr (s, item', m') \<Longrightarrow> m_djsonData item \<noteq> [] \<longrightarrow> m_djsonData item' = m_djsonData item"
  by (auto simp: GetData_def)

lemma on_record_schema [simp]:
  "on_record (sh\<lparr>schema_ids := m\<rparr>) s = on_record sh s" "on_record (sh\<lparr>dataCache := c\<rparr>) s = on_record sh s"
  "on_record (sh\<lparr>sockClient := cl\<rparr>) s = on_record sh s"
  by (simp_all add: on_record_def)

lemma tag_list_schema [simp]:
  "tag_list (sh\<lparr>dataCache := c\<rparr>) = tag_list sh" "tag_list (sh\<lparr>sockClient := cl\<rparr>) = tag_list sh"
  by (simp_all add: tag_list_def)

lemma wire_ok_cache [simp]: "wire_ok (sh\<lparr>dataCache := c\<rparr>) = wire_ok sh" "wire_ok (sh\<lparr>sockClient := cl\<rparr>) = wire_ok sh"
  by (simp_all add: wire_ok_def)

lemma ptr_GetData_record:
  assumes "ptr_GetData p sh = (r, sh')"
  shows "(\<forall>s. on_record sh s \<longrightarrow> on_record sh' s) \<and> (\<forall>s. r = Inr s \<longrightarrow> p < length (items sh) \<longrightarrow> on_record sh' s)"
proof (cases "GetData (items sh ! p) (schema_ids sh)")
  case (Inl e)
  with assms show ?thesis by (auto simp: ptr_GetData_def)
next
  case (Inr x)
  obtain s item m where x: "x = (s, item, m)" by (metis prod_cases3)
  note g = Inr [unfolded x]
  have sh': "sh' = (sh\<lparr>items := (items sh)[p := item]\<rparr>)\<lparr>schema_ids := m\<rparr>" "r = Inr s"
    using assms g by (simp_all add: ptr_GetData_def)
  have "on_record sh' s" if "p < length (items sh)"
    using that GetData_nonempty [OF g] by (auto simp: sh' on_record_def set_update_memI intro!: bexI [of _ item])
  moreover have "on_record sh' t" if "on_record sh t" for t
    unfolding sh'(1) on_record_schema by (rule on_record_update [OF that GetData_memo [OF g]])
  ultimately show ?thesis using sh'(2) by blast
qed

lemma wire_ok_record:
  "wire_ok sh \<Longrightarrow> (\<forall>s. on_record sh s \<longrightarrow> on_record sh' s) \<Longrightarrow> wire sh' = wire sh \<Longrightarrow> wire_ok sh'"
  unfolding wire_ok_def by metis

lemma client_Send_record:
  assumes "client_Send data inp sh = Some (r, sh')" "wire_ok sh" "on_record sh data"
  shows "wire_ok sh' \<and> (\<forall>s. on_record sh' s = on_record sh s)"
proof -
  obtain acc where "items sh' = items sh" "wire sh' = wire sh @ [acc]" "prefix acc (c_str data)"
    using client_Send_frame [OF assms(1)] by blast
  with assms(2,3) show ?thesis by (auto simp: wire_ok_def on_record_def)
qed

lemma alloc_record: "on_record sh s \<Longrightarrow> on_record (snd (alloc_item item sh)) s"
  by (auto simp: on_record_def alloc_item_def)

lemma shared_ok_alloc: "shared_ok sh \<Longrightarrow> shared_ok (snd (alloc_item item sh))"
proof -
  assume ok: "shared_ok sh"
  have "wire_ok (snd (alloc_item item sh))"
    by (rule wire_ok_record [of sh]) (use ok in \<open>auto simp: shared_ok_def intro: alloc_record\<close>, simp add: alloc_item_def)
  with ok show ?thesis by (simp add: shared_ok_def cache_ok_alloc)
qed

end
