(* ===== verification/Concurrent_Queue.thy ===== *)
theory Concurrent_Queue
  imports Mdsd_Prelude
begin

text \<open>
  \<open>src/src/outmdsd/ConcurrentQueue.h\<close>: a mutex-protected FIFO queue with an optional
  maximal size. Every public operation holds the mutex from its first to its last
  statement, so each is one atomic step; the record below is the state the mutex guards.
  A wait on the condition variable is the result \<open>Blocked\<close>: the caller is still inside
  the call and the queue is unchanged.
\<close>

section \<open>State and operations\<close>

record 'a cqueue =
  data_queue :: "'a list"
  stopOnceEmpty :: bool
  m_maxSize :: nat

definition new_queue :: "nat \<Rightarrow> 'a cqueue" where
  "new_queue maxSize = \<lparr>data_queue = [], stopOnceEmpty = False, m_maxSize = maxSize\<rparr>"

text \<open>The copy constructor copies contents and limit, not the stop flag.\<close>

definition copy_queue :: "'a cqueue \<Rightarrow> 'a cqueue" where
  "copy_queue other =
     \<lparr>data_queue = data_queue other, stopOnceEmpty = False, m_maxSize = m_maxSize other\<rparr>"

text \<open>
  The move constructor, as its three assignments read: what remains in the moved-from
  \<open>std::queue\<close> is unspecified and is the argument \<open>left\<close>. (Its fourth statement assigns a
  condition variable, which no library allows, so no program contains this constructor.)
\<close>

definition move_queue :: "'a list \<Rightarrow> 'a cqueue \<Rightarrow> 'a cqueue \<times> 'a cqueue" where
  "move_queue left other =
     (\<lparr>data_queue = data_queue other, stopOnceEmpty = False, m_maxSize = m_maxSize other\<rparr>,
      other\<lparr>data_queue := left\<rparr>)"

definition is_full :: "'a cqueue \<Rightarrow> bool" where
  "is_full q \<longleftrightarrow> 0 < m_maxSize q \<and> length (data_queue q) = m_maxSize q"

definition push :: "'a \<Rightarrow> 'a cqueue \<Rightarrow> 'a cqueue" where
  "push new_value q =
     (let q' = (if is_full q then q\<lparr>data_queue := tl (data_queue q)\<rparr> else q)
      in q'\<lparr>data_queue := data_queue q' @ [new_value]\<rparr>)"

datatype 'a waited = Blocked | Aborted | Popped 'a

definition wait_and_pop :: "'a cqueue \<Rightarrow> 'a waited \<times> 'a cqueue" where
  "wait_and_pop q =
     (case data_queue q of
        [] \<Rightarrow> (if stopOnceEmpty q then Aborted else Blocked, q)
      | v # vs \<Rightarrow> (Popped v, q\<lparr>data_queue := vs\<rparr>))"

text \<open>
  \<open>bool try_pop(T&)\<close>: the returned \<open>bool\<close> is \<open>None\<close> where control flows off the end
  of the function without a \<open>return\<close>; the second component is what was assigned to the
  reference.
\<close>

definition try_pop_ref :: "'a cqueue \<Rightarrow> bool option \<times> 'a option \<times> 'a cqueue" where
  "try_pop_ref q =
     (case data_queue q of
        [] \<Rightarrow> (Some False, None, q)
      | v # vs \<Rightarrow> (None, Some v, q\<lparr>data_queue := vs\<rparr>))"

definition try_pop :: "'a cqueue \<Rightarrow> 'a option \<times> 'a cqueue" where
  "try_pop q =
     (case data_queue q of
        [] \<Rightarrow> (None, q)
      | v # vs \<Rightarrow> (Some v, q\<lparr>data_queue := vs\<rparr>))"

definition queue_empty :: "'a cqueue \<Rightarrow> bool" where
  "queue_empty q \<longleftrightarrow> data_queue q = []"

definition queue_size :: "'a cqueue \<Rightarrow> nat" where
  "queue_size q = length (data_queue q)"

definition stop_once_empty :: "'a cqueue \<Rightarrow> 'a cqueue" where
  "stop_once_empty q = q\<lparr>stopOnceEmpty := True\<rparr>"

text \<open>The destructor's call, which lets waiting threads out.\<close>

definition destroy_queue :: "'a cqueue \<Rightarrow> 'a cqueue" where
  "destroy_queue q = stop_once_empty q"

section \<open>What each operation does to the contents\<close>

lemma new_queue_simps [queue_simps]:
  "data_queue (new_queue n) = []" "m_maxSize (new_queue n) = n" "\<not> stopOnceEmpty (new_queue n)"
  by (simp_all add: new_queue_def)

lemma push_frame [queue_simps]:
  "m_maxSize (push v q) = m_maxSize q" "stopOnceEmpty (push v q) = stopOnceEmpty q"
  by (simp_all add: push_def Let_def)

lemma push_contents:
  "data_queue (push v q) = (if is_full q then tl (data_queue q) else data_queue q) @ [v]"
  by (simp add: push_def Let_def)

lemma stop_once_empty_simps [queue_simps]:
  "data_queue (stop_once_empty q) = data_queue q" "m_maxSize (stop_once_empty q) = m_maxSize q"
  "stopOnceEmpty (stop_once_empty q)"
  by (simp_all add: stop_once_empty_def)

lemma wait_and_pop_cases:
  obtains (blocked) "wait_and_pop q = (Blocked, q)" "data_queue q = []" "\<not> stopOnceEmpty q"
  | (aborted) "wait_and_pop q = (Aborted, q)" "data_queue q = []" "stopOnceEmpty q"
  | (popped) v vs where "wait_and_pop q = (Popped v, q\<lparr>data_queue := vs\<rparr>)" "data_queue q = v # vs"
  by (cases "data_queue q"; cases "stopOnceEmpty q") (auto simp: wait_and_pop_def)

text \<open>Both popping overloads take the same element as \<open>wait_and_pop\<close> when there is one.\<close>

lemma try_pop_agrees:
  "data_queue q \<noteq> [] \<Longrightarrow> wait_and_pop q = (Popped v, q') \<longleftrightarrow> try_pop q = (Some v, q')"
  by (auto simp: wait_and_pop_def try_pop_def split: list.splits)

section \<open>The size limit\<close>

definition within_limit :: "'a cqueue \<Rightarrow> bool" where
  "within_limit q \<longleftrightarrow> (0 < m_maxSize q \<longrightarrow> length (data_queue q) \<le> m_maxSize q)"

lemma within_limit_new: "within_limit (new_queue n)"
  by (simp add: within_limit_def queue_simps)

lemma within_limit_push: "within_limit q \<Longrightarrow> within_limit (push v q)"
  by (auto simp: within_limit_def push_contents is_full_def queue_simps)

lemma within_limit_pop: "within_limit q \<Longrightarrow> within_limit (snd (wait_and_pop q))"
  by (cases q rule: wait_and_pop_cases) (auto simp: within_limit_def)

lemma within_limit_stop: "within_limit q \<Longrightarrow> within_limit (stop_once_empty q)"
  by (simp add: within_limit_def queue_simps)

lemmas within_limit_intros =
  within_limit_new within_limit_push within_limit_pop within_limit_stop

text \<open>The abstract effect of a push: append, then keep the newest \<open>n\<close> elements.\<close>

definition newest :: "nat \<Rightarrow> 'a list \<Rightarrow> 'a list" where
  "newest n xs = (if n = 0 then xs else drop (length xs - n) xs)"

lemma push_newest:
  "within_limit q \<Longrightarrow> data_queue (push v q) = newest (m_maxSize q) (data_queue q @ [v])"
proof (cases "is_full q")
  case True
  then obtain x xs where "data_queue q = x # xs" and "Suc (length xs) = m_maxSize q"
    by (cases "data_queue q") (auto simp: is_full_def)
  with True show ?thesis by (simp add: push_contents newest_def flip: \<open>Suc _ = _\<close>)
next
  case False
  moreover assume "within_limit q"
  ultimately have "m_maxSize q = 0 \<or> length (data_queue q @ [v]) \<le> m_maxSize q"
    by (auto simp: is_full_def within_limit_def)
  with False show ?thesis by (auto simp: push_contents newest_def)
qed

lemma newest_newest: "newest n (newest n xs @ ys) = newest n (xs @ ys)"
  by (cases "length xs \<le> n") (auto simp: newest_def add.commute)

section \<open>Histories of operations\<close>

text \<open>
  The interface the sender thread and the producers share, as a history of operations: the
  second component collects the popped elements in order.
\<close>

datatype 'a queue_op = Push 'a | Wait_And_Pop | Stop_Once_Empty

fun pushed :: "'a queue_op list \<Rightarrow> 'a list" where
  "pushed [] = []"
| "pushed (Push v # ops) = v # pushed ops"
| "pushed (_ # ops) = pushed ops"

fun popped_elem :: "'a waited \<Rightarrow> 'a list" where
  "popped_elem (Popped v) = [v]"
| "popped_elem _ = []"

fun queue_run ::
  "('a \<Rightarrow> 'q \<Rightarrow> 'q) \<Rightarrow> ('q \<Rightarrow> 'a waited \<times> 'q) \<Rightarrow> ('q \<Rightarrow> 'q) \<Rightarrow> 'a queue_op list \<Rightarrow> 'q \<Rightarrow> 'a list \<times> 'q"
where
  "queue_run enq deq halt [] q = ([], q)"
| "queue_run enq deq halt (Push v # ops) q = queue_run enq deq halt ops (enq v q)"
| "queue_run enq deq halt (Wait_And_Pop # ops) q =
     (let (r, q1) = deq q; (out, q2) = queue_run enq deq halt ops q1 in (popped_elem r @ out, q2))"
| "queue_run enq deq halt (Stop_Once_Empty # ops) q = queue_run enq deq halt ops (halt q)"

text \<open>
  The contract of a work queue: an enqueue appends and may drop a prefix (the oldest
  elements), a dequeue takes the head, and a stop changes no element.
\<close>

locale work_queue =
  fixes contents :: "'q \<Rightarrow> 'a list"
    and good :: "'q \<Rightarrow> bool"
    and enq :: "'a \<Rightarrow> 'q \<Rightarrow> 'q"
    and deq :: "'q \<Rightarrow> 'a waited \<times> 'q"
    and halt :: "'q \<Rightarrow> 'q"
  assumes enq_contents: "good q \<Longrightarrow> \<exists>n. contents (enq v q) = drop n (contents q) @ [v]"
    and enq_good: "good q \<Longrightarrow> good (enq v q)"
    and deq_contents: "good q \<Longrightarrow> popped_elem (fst (deq q)) @ contents (snd (deq q)) = contents q"
    and deq_good: "good q \<Longrightarrow> good (snd (deq q))"
    and halt_contents: "good q \<Longrightarrow> contents (halt q) = contents q"
    and halt_good: "good q \<Longrightarrow> good (halt q)"
begin

lemma run_step:
  assumes "good q"
  shows "queue_run enq deq halt (Wait_And_Pop # ops) q =
    (popped_elem (fst (deq q)) @ fst (queue_run enq deq halt ops (snd (deq q))),
     snd (queue_run enq deq halt ops (snd (deq q))))"
  by (simp split: prod.splits)

lemma run_good: "good q \<Longrightarrow> good (snd (queue_run enq deq halt ops q))"
proof (induction ops arbitrary: q)
  case (Cons op ops)
  then show ?case
    by (cases op) (simp_all add: enq_good halt_good deq_good run_step del: queue_run.simps(3))
qed simp

lemma run_subseq:
  "good q \<Longrightarrow> subseq (fst (queue_run enq deq halt ops q) @ contents (snd (queue_run enq deq halt ops q)))
     (contents q @ pushed ops)"
proof (induction ops arbitrary: q)
  case (Cons op ops)
  show ?case
  proof (cases op)
    case (Push v)
    obtain n where "contents (enq v q) = drop n (contents q) @ [v]"
      using enq_contents Cons.prems by blast
    then have "subseq (contents (enq v q) @ pushed ops) (contents q @ pushed (op # ops))"
      by (simp add: Push subseq_drop list_emb_append_mono)
    with Cons.IH [OF enq_good [OF Cons.prems]] show ?thesis
      unfolding Push queue_run.simps by (rule subseq_order.trans)
  next
    case Wait_And_Pop
    have "contents q @ pushed ops = popped_elem (fst (deq q)) @ contents (snd (deq q)) @ pushed ops"
      by (simp flip: deq_contents [OF Cons.prems])
    moreover have "subseq (popped_elem (fst (deq q)) @ fst (queue_run enq deq halt ops (snd (deq q)))
        @ contents (snd (queue_run enq deq halt ops (snd (deq q)))))
      (popped_elem (fst (deq q)) @ contents (snd (deq q)) @ pushed ops)"
      by (intro list_emb_append_mono Cons.IH deq_good Cons.prems) simp
    ultimately show ?thesis
      by (simp only: Wait_And_Pop run_step [OF Cons.prems] fst_conv snd_conv append_assoc pushed.simps)
  next
    case Stop_Once_Empty
    with Cons.IH [OF halt_good [OF Cons.prems]] Cons.prems show ?thesis
      by (simp add: halt_contents)
  qed
qed simp

end

text \<open>A queue that never drops: nothing is lost and nothing is reordered.\<close>

locale lossless_queue = work_queue +
  assumes enq_keeps: "good q \<Longrightarrow> contents (enq v q) = contents q @ [v]"
begin

lemma run_exact:
  "good q \<Longrightarrow> fst (queue_run enq deq halt ops q) @ contents (snd (queue_run enq deq halt ops q))
     = contents q @ pushed ops"
proof (induction ops arbitrary: q)
  case (Cons op ops)
  then show ?case
  proof (cases op)
    case Wait_And_Pop
    from Cons.IH [OF deq_good [OF Cons.prems]] deq_contents [OF Cons.prems] show ?thesis
      by (simp only: Wait_And_Pop run_step [OF Cons.prems] fst_conv snd_conv append_assoc pushed.simps)
        (metis append_assoc)
  next
    case (Push v)
    with Cons.IH [OF enq_good [OF Cons.prems]] Cons.prems show ?thesis by (simp add: enq_keeps)
  next
    case Stop_Once_Empty
    with Cons.IH [OF halt_good [OF Cons.prems]] Cons.prems show ?thesis by (simp add: halt_contents)
  qed
qed simp

end

section \<open>The queue of the code meets the contract\<close>

lemma push_drops_oldest: "\<exists>n. data_queue (push v q) = drop n (data_queue q) @ [v]"
  by (rule exI [of _ "if is_full q then 1 else 0"]) (simp add: push_contents drop_Suc)

lemma wait_and_pop_contents:
  "popped_elem (fst (wait_and_pop q)) @ data_queue (snd (wait_and_pop q)) = data_queue q"
  by (cases q rule: wait_and_pop_cases) auto

lemma wait_and_pop_frame [queue_simps]: "m_maxSize (snd (wait_and_pop q)) = m_maxSize q"
  by (cases q rule: wait_and_pop_cases) auto

interpretation cq: work_queue data_queue within_limit push wait_and_pop stop_once_empty
  by unfold_locales
    (auto intro: within_limit_intros push_drops_oldest simp: queue_simps wait_and_pop_contents)

interpretation cq_nolimit: lossless_queue data_queue "\<lambda>q. m_maxSize q = 0" push wait_and_pop stop_once_empty
proof unfold_locales
  show "\<exists>n. data_queue (push v q) = drop n (data_queue q) @ [v]" for v and q :: "'a cqueue"
    by (rule push_drops_oldest)
qed (simp_all add: queue_simps wait_and_pop_contents push_contents is_full_def)

lemma fold_push_newest:
  "within_limit q \<Longrightarrow> data_queue (fold push vs q) = newest (m_maxSize q) (data_queue q @ vs)"
proof (induction vs arbitrary: q)
  case Nil
  then show ?case by (simp add: newest_def within_limit_def)
next
  case (Cons v vs)
  then show ?case
    by (simp add: push_newest within_limit_push queue_simps newest_newest)
qed

section \<open>Properties\<close>

text \<open>
  What a history should give, on lists: a push keeps the newest \<open>n\<close> elements (all if \<open>n\<close> is 0), a
  wait takes the oldest one if there is one.
\<close>

fun ring_history :: "nat \<Rightarrow> 'a queue_op list \<Rightarrow> 'a list \<Rightarrow> 'a list \<times> 'a list" where
  "ring_history n [] xs = ([], xs)"
| "ring_history n (Push v # ops) xs = ring_history n ops (newest n (xs @ [v]))"
| "ring_history n (Wait_And_Pop # ops) xs = (take 1 xs @ fst (ring_history n ops (drop 1 xs)), snd (ring_history n ops (drop 1 xs)))"
| "ring_history n (Stop_Once_Empty # ops) xs = ring_history n ops xs"

lemma queue_run_ring:
  "within_limit q \<Longrightarrow>
   (fst (queue_run push wait_and_pop stop_once_empty ops q), data_queue (snd (queue_run push wait_and_pop stop_once_empty ops q)))
     = ring_history (m_maxSize q) ops (data_queue q)"
proof (induction ops arbitrary: q)
  case (Cons op ops)
  show ?case
  proof (cases op)
    case (Push v)
    with Cons.IH [OF within_limit_push [OF Cons.prems]] show ?thesis
      by (simp add: queue_simps push_newest [OF Cons.prems])
  next
    case Wait_And_Pop
    have "popped_elem (fst (wait_and_pop q)) = take 1 (data_queue q)" "data_queue (snd (wait_and_pop q)) = drop 1 (data_queue q)"
      by (cases q rule: wait_and_pop_cases; simp)+
    with Cons.IH [OF within_limit_pop [OF Cons.prems]] show ?thesis
      by (simp add: Wait_And_Pop cq.run_step [OF Cons.prems] wait_and_pop_frame prod_eq_iff del: queue_run.simps(3))
  next
    case Stop_Once_Empty
    with Cons.IH [OF within_limit_stop [OF Cons.prems]] show ?thesis by (simp add: queue_simps)
  qed
qed simp

lemma ring_lossless:
  assumes "n = 0 \<or> (\<forall>k \<le> length ops. length xs + length (pushed (take k ops)) \<le> n + length (fst (ring_history n (take k ops) xs)))"
  shows "fst (ring_history n ops xs) @ snd (ring_history n ops xs) = xs @ pushed ops"
  using assms
proof (induction ops arbitrary: xs)
  case (Cons op ops)
  have ex: "n = 0 \<or> length xs + length (pushed (take (Suc k) (op # ops))) \<le> n + length (fst (ring_history n (take (Suc k) (op # ops)) xs))"
    if "k \<le> length ops" for k
    using Cons.prems that by (auto dest!: spec [of _ "Suc k"] simp del: take_Suc_Cons)
  show ?case
  proof (cases op)
    case (Push v)
    have "newest n (xs @ [v]) = xs @ [v]" using ex [of 0] Push by (auto simp: newest_def)
    with Cons.IH [of "xs @ [v]"] ex Push show ?thesis by fastforce
  next
    case Wait_And_Pop
    have "n = 0 \<or> length (drop 1 xs) + length (pushed (take k ops)) \<le> n + length (fst (ring_history n (take k ops) (drop 1 xs)))"
      if "k \<le> length ops" for k
      using ex [OF that] Wait_And_Pop by (cases xs) auto
    then have "fst (ring_history n ops (drop 1 xs)) @ snd (ring_history n ops (drop 1 xs)) = drop 1 xs @ pushed ops"
      by (intro Cons.IH) blast
    with Wait_And_Pop show ?thesis by (cases xs) simp_all
  next
    case Stop_Once_Empty
    with Cons.IH [of xs] ex show ?thesis by fastforce
  qed
qed simp

text \<open>
  C33: the history of a queue is FIFO. Any history of pushes, waits and stop requests on a new queue
  of limit \<open>n\<close> gives what the same history gives on lists that keep their newest \<open>n\<close> elements: the
  same elements are popped and the same wait. The popped elements and then the waiting ones are
  a subsequence of those pushed, in their order; and they are all of them if there is no limit or
  if, after every operation, at most \<open>n\<close> of the pushed elements had not been popped.
\<close>

theorem queue_history_fifo:
  assumes "queue_run push wait_and_pop stop_once_empty ops (new_queue n) = (out, q)"
  shows "(out, data_queue q) = ring_history n ops []
    \<and> subseq (out @ data_queue q) (pushed ops)
    \<and> (n = 0 \<or> (\<forall>k \<le> length ops. length (pushed (take k ops))
             \<le> n + length (fst (queue_run push wait_and_pop stop_once_empty (take k ops) (new_queue n))))
         \<longrightarrow> out @ data_queue q = pushed ops)"
proof -
  have ring: "(fst (queue_run push wait_and_pop stop_once_empty ops' (new_queue n)),
      data_queue (snd (queue_run push wait_and_pop stop_once_empty ops' (new_queue n)))) = ring_history n ops' []" for ops' :: "'a queue_op list"
    using queue_run_ring [OF within_limit_new [of n], of ops'] by (simp add: queue_simps)
  have "subseq (out @ data_queue q) (pushed ops)"
    using cq.run_subseq [OF within_limit_new [of n], of ops] assms by (simp add: queue_simps)
  moreover have "out @ data_queue q = pushed ops"
    if "n = 0 \<or> (\<forall>k \<le> length ops. length (pushed (take k ops))
         \<le> n + length (fst (queue_run push wait_and_pop stop_once_empty (take k ops) (new_queue n))))"
    using ring_lossless [of n ops "[]"] that ring [of ops] ring [THEN arg_cong [where f = fst]] assms
    by (metis append_Nil fst_conv list.size(3) plus_nat.add_0 snd_conv)
  ultimately show ?thesis using ring [of ops] assms by simp
qed

theorem queue_history_fifo_witness:
  "\<exists>q. queue_run push wait_and_pop stop_once_empty [Push (1::nat), Push 2, Wait_And_Pop, Push 3, Stop_Once_Empty] (new_queue 2) = ([1], q)
     \<and> data_queue q = [2, 3] \<and> [1] @ data_queue q = pushed [Push (1::nat), Push 2, Wait_And_Pop, Push 3, Stop_Once_Empty]"
proof -
  let ?ops = "[Push (1::nat), Push 2, Wait_And_Pop, Push 3, Stop_Once_Empty]"
  obtain out q where run: "queue_run push wait_and_pop stop_once_empty ?ops (new_queue 2) = (out, q)" by fastforce
  have "ring_history 2 ?ops [] = ([1], [2, 3])" by (simp add: newest_def)
  with queue_history_fifo [OF run] run show ?thesis by simp
qed

text \<open>
  Without a limit nothing is lost. With \<open>maxSize = 0\<close> the elements popped followed by
  the elements still queued are exactly the elements pushed, in order.
\<close>

theorem queue_unlimited_lossless:
  "fst (queue_run push wait_and_pop stop_once_empty ops (new_queue 0))
      @ data_queue (snd (queue_run push wait_and_pop stop_once_empty ops (new_queue 0)))
    = pushed ops"
  using cq_nolimit.run_exact [of "new_queue 0"] by (simp add: queue_simps)

text \<open>
  The limit is a ring of the newest elements. After pushing the list \<open>vs\<close> into a new
  queue of limit \<open>n\<close>, the queue holds the last \<open>n\<close> elements of \<open>vs\<close> in order (all
  of them when \<open>n = 0\<close>).
\<close>

theorem queue_keeps_newest:
  "data_queue (fold push vs (new_queue n)) = (if n = 0 then vs else drop (length vs - n) vs)"
  by (simp add: fold_push_newest within_limit_new queue_simps newest_def)

text \<open>
  The size limit is an invariant of every history: a queue constructed with a positive
  limit never holds more elements than it.
\<close>

theorem queue_never_exceeds_limit:
  "0 < n \<Longrightarrow> queue_size (snd (queue_run push wait_and_pop stop_once_empty ops (new_queue n))) \<le> n"
proof -
  assume n: "0 < n"
  have frame: "m_maxSize (snd (queue_run push wait_and_pop stop_once_empty ops q)) = m_maxSize q" for q :: "'a cqueue"
    by (induction ops arbitrary: q rule: pushed.induct) (simp_all add: queue_simps split_beta)
  show ?thesis
    using cq.run_good [OF within_limit_new [of n], of ops] frame [of "new_queue n"] n
    by (simp add: within_limit_def queue_size_def queue_simps)
qed

theorem queue_never_exceeds_limit_witness:
  "queue_size (snd (queue_run push wait_and_pop stop_once_empty [Push (1::nat), Push 2, Push 3] (new_queue 2))) \<le> 2"
  by (rule queue_never_exceeds_limit) simp

text \<open>
  What a waiting consumer sees. \<open>wait_and_pop\<close> blocks exactly on an empty queue that
  has not been told to stop, gives up exactly on an empty stopped queue, and otherwise
  returns the head: a stop request never hides queued elements.
\<close>

theorem wait_and_pop_outcome:
  "fst (wait_and_pop q) =
     (if data_queue q \<noteq> [] then Popped (hd (data_queue q))
      else if stopOnceEmpty q then Aborted else Blocked)
   \<and> data_queue (snd (wait_and_pop q)) = tl (data_queue q)
   \<and> stopOnceEmpty (snd (wait_and_pop q)) = stopOnceEmpty q"
  by (cases q rule: wait_and_pop_cases) auto

text \<open>
  The overload \<open>bool try_pop(T&)\<close> returns a value only on an empty queue. Whenever it
  does pop an element, control reaches the end of the function without a return statement.
\<close>

theorem try_pop_ref_missing_return:
  "fst (try_pop_ref q) = None \<longleftrightarrow> data_queue q \<noteq> []"
  by (simp add: try_pop_ref_def split: list.splits)

end
