(* ===== verification/Data_Sender.thy ===== *)
theory Data_Sender
  imports Logger_State Concurrent_Queue
begin

text \<open>
  \<open>src/src/outmdsd/DataSender.h\<close> and \<open>DataSender.cc\<close>: the thread that pops items off the
  incoming queue, saves them in the cache and sends them. \<open>Run\<close> is cut at its accesses to
  what other threads also use: the value of \<open>s_pc\<close> says where the thread is in the loop,
  with the local variables live there, and one \<open>sender_step\<close> takes it over one access.
\<close>

section \<open>State\<close>

text \<open>Why \<open>Run\<close> ended; each way out has a log message of its own.\<close>

datatype exit_reason =
    Loop_Stopped
  | Queue_Aborted
  | Interrupted
  | Caught exn

datatype sender_pc =
    S_Loop
  | S_Wait
  | S_Popped nat
  | S_Uncached nat
  | S_Caching nat
  | S_Lookup string
  | S_Found string
  | S_Fetch string
  | S_Sending string
  | S_After
  | S_Null_Deref
  | S_Done exit_reason

record data_sender =
  m_stopSender :: bool
  m_numSend :: nat
  m_numSuccess :: nat
  s_pc :: sender_pc

definition new_data_sender :: data_sender where
  "new_data_sender = \<lparr>m_stopSender = False, m_numSend = 0, m_numSuccess = 0, s_pc = S_Loop\<rparr>"

definition sender_Stop :: "data_sender \<Rightarrow> data_sender" where
  "sender_Stop ds = ds\<lparr>m_stopSender := True\<rparr>"

definition sender_destructor :: "data_sender \<Rightarrow> data_sender" where
  "sender_destructor ds = sender_Stop ds"

definition GetNumSend :: "data_sender \<Rightarrow> nat" where
  "GetNumSend ds = m_numSend ds"

definition GetNumSuccess :: "data_sender \<Rightarrow> nat" where
  "GetNumSuccess ds = m_numSuccess ds"

declare GetNumSend_def [simp] GetNumSuccess_def [simp]

definition goto :: "sender_pc \<Rightarrow> data_sender \<Rightarrow> data_sender" where
  "goto pc ds = ds\<lparr>s_pc := pc\<rparr>"

text \<open>\<open>InterruptPoint(); \<dots>\<close>: the exception leaves the loop, its handler ends \<open>Run\<close>.\<close>

definition InterruptPoint :: "sender_pc \<Rightarrow> data_sender \<Rightarrow> data_sender" where
  "InterruptPoint next_pc ds = goto (if m_stopSender ds then S_Done Interrupted else next_pc) ds"

section \<open>Steps\<close>

text \<open>\<open>Send(item->GetData())\<close> up to the call of the socket client.\<close>

definition enter_Send :: "nat \<Rightarrow> data_sender \<Rightarrow> shared \<Rightarrow> data_sender \<times> shared" where
  "enter_Send p ds sh =
     (case ptr_GetData p sh of
        (Inl e, sh') \<Rightarrow> (goto (S_Done (Caught e)) ds, sh')
      | (Inr s, sh') \<Rightarrow> (goto (S_Sending s) (ds\<lparr>m_numSend := m_numSend ds + 1\<rparr>), sh'))"

text \<open>The rest of \<open>Send\<close>: only socket exceptions are caught in it.\<close>

definition finish_Send :: "string \<Rightarrow> thread_input \<Rightarrow> data_sender \<Rightarrow> shared \<Rightarrow> data_sender \<times> shared" where
  "finish_Send s inp ds sh =
     (case client_Send s inp sh of
        None \<Rightarrow> (ds, sh)
      | Some (Inr _, sh') \<Rightarrow> (goto S_After (ds\<lparr>m_numSuccess := m_numSuccess ds + 1\<rparr>), sh')
      | Some (Inl e, sh') \<Rightarrow> (goto (if is_socket_exception e then S_After else S_Done (Caught e)) ds, sh'))"

text \<open>
  \<open>Touch\<close>, \<open>GetTag\<close> and \<open>Add\<close>: until it is added, only this thread has the item. The
  results of \<open>Get\<close> are those of the cache at that moment.
\<close>

definition cache_item :: "int \<Rightarrow> nat \<Rightarrow> data_sender \<Rightarrow> shared \<Rightarrow> data_sender \<times> shared" where
  "cache_item now p ds sh =
     (let sh1 = ptr_Touch now p sh; tag = ptr_GetTag p sh1
      in case dataCache sh1 of
           None \<Rightarrow> (goto S_Null_Deref ds, sh1)
         | Some m \<Rightarrow>
             (case map_add tag (Some p) m of
                Inl e \<Rightarrow> (goto (S_Done (Caught e)) ds, sh1)
              | Inr m' \<Rightarrow> (goto (S_Lookup tag) ds, sh1\<lparr>dataCache := Some m'\<rparr>)))"

definition cache_Get :: "string \<Rightarrow> shared \<Rightarrow> item_ptr result" where
  "cache_Get tag sh = (case dataCache sh of None \<Rightarrow> Inr None | Some m \<Rightarrow> map_get tag m)"

fun sender_step ::
  "thread_input \<Rightarrow> data_sender \<times> item_ptr cqueue \<times> shared \<Rightarrow> data_sender \<times> item_ptr cqueue \<times> shared"
where
  "sender_step inp (ds, q, sh) =
     (case s_pc ds of
        S_Loop \<Rightarrow> (goto (if m_stopSender ds then S_Done Loop_Stopped else S_Wait) ds, q, sh)
      | S_Wait \<Rightarrow>
          (case wait_and_pop q of
             (Blocked, q') \<Rightarrow> (ds, q', sh)
           | (Aborted, q') \<Rightarrow> (goto (S_Done Queue_Aborted) ds, q', sh)
           | (Popped None, q') \<Rightarrow> (goto (S_Done Queue_Aborted) ds, q', sh)
           | (Popped (Some p), q') \<Rightarrow> (goto (S_Popped p) ds, q', sh))
      | S_Popped p \<Rightarrow>
          (InterruptPoint (if dataCache sh = None then S_Uncached p else S_Caching p) ds, q, sh)
      | S_Uncached p \<Rightarrow> (let (ds', sh') = enter_Send p ds sh in (ds', q, sh'))
      | S_Caching p \<Rightarrow> (let (ds', sh') = cache_item (in_now inp p) p ds sh in (ds', q, sh'))
      | S_Lookup tag \<Rightarrow>
          (case cache_Get tag sh of
             Inl e \<Rightarrow> (goto (S_Done (Caught e)) ds, q, sh)
           | Inr None \<Rightarrow> (goto S_After ds, q, sh)
           | Inr (Some p) \<Rightarrow> (goto (S_Found tag) ds, q, sh))
      | S_Found tag \<Rightarrow> (InterruptPoint (S_Fetch tag) ds, q, sh)
      | S_Fetch tag \<Rightarrow>
          (case cache_Get tag sh of
             Inl e \<Rightarrow> (goto (S_Done (Caught e)) ds, q, sh)
           | Inr None \<Rightarrow> (goto S_Null_Deref ds, q, sh)
           | Inr (Some p) \<Rightarrow> (let (ds', sh') = enter_Send p ds sh in (ds', q, sh')))
      | S_Sending s \<Rightarrow> (let (ds', sh') = finish_Send s inp ds sh in (ds', q, sh'))
      | S_After \<Rightarrow> (InterruptPoint S_Loop ds, q, sh)
      | S_Null_Deref \<Rightarrow> (ds, q, sh)
      | S_Done r \<Rightarrow> (ds, q, sh))"

fun sender_run ::
  "thread_input list \<Rightarrow> data_sender \<times> item_ptr cqueue \<times> shared \<Rightarrow> data_sender \<times> item_ptr cqueue \<times> shared"
where
  "sender_run [] st = st"
| "sender_run (inp # inps) st = sender_run inps (sender_step inp st)"

section \<open>The invariant of the thread\<close>

text \<open>
  \<open>unsent pc\<close> counts the item the thread holds that has not yet been handed to \<open>Send\<close>.
\<close>

fun unsent :: "sender_pc \<Rightarrow> nat" where
  "unsent (S_Popped p) = 1"
| "unsent (S_Uncached p) = 1"
| "unsent (S_Caching p) = 1"
| "unsent (S_Lookup t) = 1"
| "unsent (S_Found t) = 1"
| "unsent (S_Fetch t) = 1"
| "unsent _ = 0"

fun unfinished :: "sender_pc \<Rightarrow> nat" where
  "unfinished (S_Sending s) = 1"
| "unfinished _ = 0"

fun pc_ok :: "shared \<Rightarrow> sender_pc \<Rightarrow> bool" where
  "pc_ok sh (S_Popped p) = (p < length (items sh))"
| "pc_ok sh (S_Uncached p) = (p < length (items sh) \<and> dataCache sh = None)"
| "pc_ok sh (S_Caching p) = (p < length (items sh) \<and> dataCache sh \<noteq> None)"
| "pc_ok sh (S_Lookup t) = (dataCache sh \<noteq> None)"
| "pc_ok sh (S_Found t) = (dataCache sh \<noteq> None)"
| "pc_ok sh (S_Fetch t) = (dataCache sh \<noteq> None)"
| "pc_ok sh (S_Sending s) = on_record sh s"
| "pc_ok sh S_Null_Deref = False"
| "pc_ok sh _ = True"

text \<open>All pointers in the queue are non-null and live.\<close>

definition queue_live :: "item_ptr cqueue \<Rightarrow> shared \<Rightarrow> bool" where
  "queue_live q sh \<longleftrightarrow> (\<forall>v \<in> set (data_queue q). \<exists>p. v = Some p \<and> p < length (items sh))"

definition sender_ok :: "data_sender \<Rightarrow> item_ptr cqueue \<Rightarrow> shared \<Rightarrow> bool" where
  "sender_ok ds q sh \<longleftrightarrow> shared_ok sh \<and> queue_live q sh \<and> pc_ok sh (s_pc ds)
     \<and> m_numSuccess ds + unfinished (s_pc ds) \<le> m_numSend ds"

lemma goto_simps [simp]:
  "s_pc (goto pc ds) = pc" "m_numSend (goto pc ds) = m_numSend ds"
  "m_numSuccess (goto pc ds) = m_numSuccess ds" "m_stopSender (goto pc ds) = m_stopSender ds"
  by (simp_all add: goto_def)

text \<open>What no operation of the thread changes in the shared state.\<close>

definition same_items :: "shared \<Rightarrow> shared \<Rightarrow> bool" where
  "same_items sh sh' \<longleftrightarrow> tag_list sh' = tag_list sh \<and> length (items sh') = length (items sh)
     \<and> (dataCache sh' = None \<longleftrightarrow> dataCache sh = None) \<and> (\<forall>s. on_record sh s \<longrightarrow> on_record sh' s)"

lemma same_items_refl [simp]: "same_items sh sh"
  by (simp add: same_items_def)

lemma same_items_trans: "same_items a b \<Longrightarrow> same_items b c \<Longrightarrow> same_items a c"
  by (simp add: same_items_def)

lemma ptr_GetData_same: "ptr_GetData p sh = (r, sh') \<Longrightarrow> same_items sh sh' \<and> dataCache sh' = dataCache sh"
  using ptr_GetData_frame [of p sh r sh'] ptr_GetData_record [of p sh r sh'] by (simp add: same_items_def)

lemma client_Send_same: "client_Send s inp sh = Some (r, sh') \<Longrightarrow> same_items sh sh' \<and> dataCache sh' = dataCache sh"
  using client_Send_frame [of s inp sh r sh'] by (auto simp: same_items_def tag_list_def on_record_def)

lemma queue_live_same: "queue_live q sh \<Longrightarrow> same_items sh sh' \<Longrightarrow> queue_live q sh'"
  by (simp add: queue_live_def same_items_def)

lemma cache_ok_same: "cache_ok sh \<Longrightarrow> same_items sh sh' \<Longrightarrow> dataCache sh' = dataCache sh \<Longrightarrow> cache_ok sh'"
  by (auto simp: same_items_def intro: cache_ok_frame)

lemma shared_ok_same:
  "shared_ok sh \<Longrightarrow> same_items sh sh' \<Longrightarrow> dataCache sh' = dataCache sh \<Longrightarrow> wire sh' = wire sh \<Longrightarrow> shared_ok sh'"
  unfolding shared_ok_def
  by (auto intro: cache_ok_same) (auto simp: same_items_def intro: wire_ok_record)

lemma shared_ok_sent:
  assumes "client_Send s inp sh = Some (r, sh')" "shared_ok sh" "on_record sh s"
  shows "shared_ok sh'"
  using client_Send_record [OF assms(1) _ assms(3)] client_Send_same [OF assms(1)] assms(2)
  by (auto simp: shared_ok_def intro: cache_ok_same)

lemma pc_ok_same: "pc_ok sh pc \<Longrightarrow> same_items sh sh' \<Longrightarrow> pc_ok sh' pc"
  by (cases pc) (simp_all add: same_items_def)

text \<open>One operation of the thread: its effect on the counters, the cache and the control.\<close>

lemma enter_Send_effect:
  assumes "enter_Send p ds sh = (ds', sh')" "shared_ok sh" "p < length (items sh)"
  shows "shared_ok sh' \<and> same_items sh sh' \<and> wire sh' = wire sh \<and> m_stopSender ds' = m_stopSender ds
    \<and> m_numSuccess ds' = m_numSuccess ds
    \<and> ((\<exists>e. s_pc ds' = S_Done (Caught e) \<and> m_numSend ds' = m_numSend ds)
       \<or> (\<exists>s. s_pc ds' = S_Sending s \<and> on_record sh' s \<and> m_numSend ds' = m_numSend ds + 1))"
proof (cases "ptr_GetData p sh")
  case (Pair r sh1)
  note eff = ptr_GetData_same [OF Pair] ptr_GetData_frame [OF Pair] ptr_GetData_record [OF Pair]
  have sh1: "sh' = sh1" using assms(1) Pair by (auto simp: enter_Send_def split: sum.splits)
  have "shared_ok sh1" using shared_ok_same assms(2) eff by blast
  with eff sh1 assms(1,3) Pair show ?thesis by (auto simp: enter_Send_def split: sum.splits)
qed

lemma finish_Send_effect:
  assumes "finish_Send s inp ds sh = (ds', sh')" "shared_ok sh" "s_pc ds = S_Sending s" "on_record sh s"
  shows "shared_ok sh' \<and> same_items sh sh' \<and> m_stopSender ds' = m_stopSender ds
    \<and> m_numSend ds' = m_numSend ds \<and> pc_ok sh' (s_pc ds') \<and> unsent (s_pc ds') = 0
    \<and> m_numSuccess ds' + unfinished (s_pc ds') \<le> m_numSuccess ds + 1"
proof (cases "client_Send s inp sh")
  case None
  with assms show ?thesis by (simp add: finish_Send_def)
next
  case (Some x)
  obtain r sh1 where x: "x = (r, sh1)" by fastforce
  note eff = client_Send_same [OF Some [unfolded x]]
  have sh1: "sh' = sh1" using assms(1) Some x by (auto simp: finish_Send_def split: sum.splits)
  have "shared_ok sh1" by (rule shared_ok_sent [OF Some [unfolded x] assms(2,4)])
  with eff sh1 assms(1) Some x show ?thesis by (auto simp: finish_Send_def split: sum.splits if_splits)
qed

lemma cache_item_effect:
  assumes "cache_item now p ds sh = (ds', sh')" "shared_ok sh" "p < length (items sh)" "dataCache sh \<noteq> None"
  shows "shared_ok sh' \<and> same_items sh sh' \<and> wire sh' = wire sh \<and> m_stopSender ds' = m_stopSender ds
    \<and> m_numSend ds' = m_numSend ds \<and> m_numSuccess ds' = m_numSuccess ds
    \<and> ((\<exists>e. s_pc ds' = S_Done (Caught e)) \<or> (\<exists>t. s_pc ds' = S_Lookup t))"
proof -
  obtain m where m: "dataCache sh = Some m" using assms(4) by blast
  let ?sh1 = "ptr_Touch now p sh"
  have same1: "same_items sh ?sh1" by (simp add: same_items_def ptr_Touch_record)
  have ok1: "shared_ok ?sh1" by (rule shared_ok_same [OF assms(2) same1]) simp_all
  show ?thesis
  proof (cases "map_add (ptr_GetTag p ?sh1) (Some p) m")
    case (Inl e)
    with assms(1) m ok1 same1 show ?thesis by (auto simp: cache_item_def Let_def)
  next
    case (Inr m')
    have "cache_ok (?sh1\<lparr>dataCache := Some m'\<rparr>)"
      by (rule cache_ok_add [OF _ _ Inr]) (use ok1 in \<open>simp_all add: shared_ok_def m assms(3)\<close>)
    then have "shared_ok (?sh1\<lparr>dataCache := Some m'\<rparr>)"
      using ok1 by (simp add: shared_ok_def)
    with assms(1) m same1 Inr show ?thesis
      by (auto simp: cache_item_def same_items_def Let_def)
  qed
qed

lemma cache_Get_found:
  assumes "shared_ok sh" "cache_Get t sh = Inr v" "dataCache sh \<noteq> None"
  obtains p where "v = Some p" "p < length (items sh)" "ptr_GetTag p sh = t"
  using assms(2,3) cache_okD [of sh] assms(1) [unfolded shared_ok_def]
  by (fastforce simp: cache_Get_def map_get_def split: option.splits if_splits)

lemma pop_cases:
  obtains (blocked) "wait_and_pop q = (Blocked, q)" "data_queue q = []" "\<not> stopOnceEmpty q"
  | (aborted) "wait_and_pop q = (Aborted, q)" "data_queue q = []" "stopOnceEmpty q"
  | (popped) v vs where "wait_and_pop q = (Popped v, q\<lparr>data_queue := vs\<rparr>)" "data_queue q = v # vs"
  by (cases "data_queue q"; cases "stopOnceEmpty q") (auto simp: wait_and_pop_def)

text \<open>
  What a step preserves and counts: as long as the thread runs, items still queued, held and
  handed to \<open>Send\<close> add up.
\<close>

definition is_done :: "sender_pc \<Rightarrow> bool" where
  "is_done pc \<longleftrightarrow> (case pc of S_Done r \<Rightarrow> True | _ \<Rightarrow> False)"

lemma is_done_simps [simp]:
  "is_done (S_Done r)" "\<not> is_done S_Loop" "\<not> is_done S_Wait" "\<not> is_done (S_Popped p)"
  "\<not> is_done (S_Uncached p)" "\<not> is_done (S_Caching p)" "\<not> is_done (S_Lookup t)" "\<not> is_done (S_Found t)"
  "\<not> is_done (S_Fetch t)" "\<not> is_done (S_Sending s)" "\<not> is_done S_After" "\<not> is_done S_Null_Deref"
  by (simp_all add: is_done_def)

definition sender_step_spec ::
  "data_sender \<times> item_ptr cqueue \<times> shared \<Rightarrow> data_sender \<times> item_ptr cqueue \<times> shared \<Rightarrow> bool"
where
  "sender_step_spec = (\<lambda>(ds, q, sh) (ds', q', sh').
     sender_ok ds' q' sh' \<and> same_items sh sh' \<and> m_stopSender ds' = m_stopSender ds
     \<and> stopOnceEmpty q' = stopOnceEmpty q \<and> m_maxSize q' = m_maxSize q
     \<and> m_numSend ds \<le> m_numSend ds'
     \<and> (is_done (s_pc ds) \<longrightarrow> s_pc ds' = s_pc ds)
     \<and> (\<exists>n \<le> length (data_queue q). data_queue q' = drop n (data_queue q)
           \<and> (\<not> is_done (s_pc ds') \<or> s_pc ds' = S_Done Queue_Aborted \<longrightarrow>
                m_numSend ds' + unsent (s_pc ds') = m_numSend ds + unsent (s_pc ds) + n)))"

lemma spec_refl: "sender_ok ds q sh \<Longrightarrow> sender_step_spec (ds, q, sh) (ds, q, sh)"
  by (auto simp: sender_step_spec_def intro!: exI [of _ 0])

lemma spec_goto:
  assumes "sender_ok ds q sh" "pc_ok sh pc" "unfinished pc \<le> unfinished (s_pc ds)"
    "\<not> is_done pc \<or> pc = S_Done Queue_Aborted \<longrightarrow> unsent pc = unsent (s_pc ds)" "\<not> is_done (s_pc ds)"
  shows "sender_step_spec (ds, q, sh) (goto pc ds, q, sh)"
  using assms by (auto simp: sender_step_spec_def sender_ok_def intro!: exI [of _ 0])

lemma sender_step_ok:
  assumes ok: "sender_ok ds q sh"
  shows "sender_step_spec (ds, q, sh) (sender_step inp (ds, q, sh))"
proof -
  have c: "shared_ok sh" and l: "queue_live q sh" and n: "m_numSuccess ds + unfinished (s_pc ds) \<le> m_numSend ds"
    and pc: "pc_ok sh (s_pc ds)"
    using ok by (simp_all add: sender_ok_def)
  have enter: "sender_step_spec (ds, q, sh) (ds1, q, sh1)"
    if "enter_Send p ds sh = (ds1, sh1)" "unsent (s_pc ds) = 1" "unfinished (s_pc ds) = 0" "p < length (items sh)" "\<not> is_done (s_pc ds)" for p ds1 sh1
    using enter_Send_effect [OF that(1) c that(4)] that(2,3,5) n queue_live_same [OF l, of sh1]
    by (auto simp: sender_step_spec_def sender_ok_def intro!: exI [of _ 0])
  show ?thesis
  proof (cases "s_pc ds")
    case S_Loop
    with ok show ?thesis by (simp add: spec_goto spec_refl)
  next
    case S_Wait
    show ?thesis
    proof (cases rule: pop_cases [of q])
      case blocked
      with S_Wait ok show ?thesis by (simp add: spec_goto spec_refl)
    next
      case aborted
      with S_Wait ok show ?thesis by (simp add: spec_goto spec_refl)
    next
      case (popped v vs)
      then obtain p where "v = Some p" "p < length (items sh)" using l by (auto simp: queue_live_def)
      moreover have "queue_live (q\<lparr>data_queue := vs\<rparr>) sh" using l popped(2) by (simp add: queue_live_def)
      ultimately show ?thesis
        using popped S_Wait c n by (simp add: sender_step_spec_def sender_ok_def exI [of _ 1])
    qed
  next
    case (S_Popped p)
    with ok pc show ?thesis by (auto simp: InterruptPoint_def spec_goto)
  next
    case (S_Uncached p)
    with enter pc show ?thesis by (simp split: prod.split)
  next
    case (S_Caching p)
    obtain ds1 sh1 where i: "cache_item (in_now inp p) p ds sh = (ds1, sh1)" by fastforce
    have eff: "shared_ok sh1" "same_items sh sh1" "m_stopSender ds1 = m_stopSender ds"
      "m_numSend ds1 = m_numSend ds" "m_numSuccess ds1 = m_numSuccess ds"
      "(\<exists>e. s_pc ds1 = S_Done (Caught e)) \<or> (\<exists>t. s_pc ds1 = S_Lookup t)"
      using cache_item_effect [OF i c] pc S_Caching by simp_all
    have "dataCache sh1 \<noteq> None" using eff(2) pc S_Caching by (simp add: same_items_def)
    with eff S_Caching n queue_live_same [OF l eff(2)] i show ?thesis
      by (auto simp: sender_step_spec_def sender_ok_def intro!: exI [of _ 0])
  next
    case (S_Lookup t)
    show ?thesis
    proof (cases "cache_Get t sh")
      case (Inr v)
      with cache_Get_found [OF c this] pc S_Lookup obtain p where "v = Some p" by auto
      with Inr S_Lookup ok pc show ?thesis by (simp add: spec_goto spec_refl)
    qed (use S_Lookup ok pc in \<open>simp add: spec_goto\<close>)
  next
    case (S_Found t)
    with ok pc show ?thesis by (auto simp: InterruptPoint_def spec_goto)
  next
    case (S_Fetch t)
    show ?thesis
    proof (cases "cache_Get t sh")
      case (Inr v)
      with cache_Get_found [OF c this] pc S_Fetch obtain p where "v = Some p" "p < length (items sh)" by auto
      with Inr S_Fetch enter show ?thesis by (simp split: prod.split)
    qed (use S_Fetch ok pc in \<open>simp add: spec_goto\<close>)
  next
    case (S_Sending s)
    obtain ds1 sh1 where i: "finish_Send s inp ds sh = (ds1, sh1)" by fastforce
    have "on_record sh s" using pc S_Sending by simp
    note eff = finish_Send_effect [OF i c S_Sending this]
    with S_Sending n queue_live_same [OF l, of sh1] i show ?thesis
      by (simp add: sender_step_spec_def sender_ok_def exI [of _ 0])
  next
    case S_After
    with ok show ?thesis by (auto simp: InterruptPoint_def spec_goto)
  next
    case (S_Done r)
    with ok show ?thesis by (simp add: spec_goto spec_refl)
  qed (use pc in simp)
qed

section \<open>Draining the queue\<close>

text \<open>
  A call of \<open>Send\<close> under good conditions: the first attempt to connect succeeds, and \<open>n\<close>
  times the socket is ready and takes something.
\<close>

definition good_turns :: "nat \<Rightarrow> thread_input \<Rightarrow> bool" where
  "good_turns n inp \<longleftrightarrow> n \<le> length (in_sends inp) \<and> list_all send_progress (in_sends inp)
     \<and> (case in_conns inp of
          [] \<Rightarrow> False
        | r # rs \<Rightarrow> \<not> cr_stop r \<and> (case (cr_socket r, cr_connect r) of (Sys_Ok fd, Sys_Ok _) \<Rightarrow> True | _ \<Rightarrow> False))"

lemma good_connect:
  assumes "good_turns n inp" "- 1 \<le> m_sockfd c"
  obtains c' t where "Connect (in_conns inp) c = (Some (), c', t)" "0 \<le> m_sockfd c'" "m_stopClient c' = m_stopClient c"
proof (cases "m_sockfd c = INVALID_SOCKET")
  case True
  with assms(1) that show thesis
    by (auto simp: good_turns_def Connect_def SetupSocketConnect_def Let_def
        split: list.splits sys.splits)
next
  case False
  with assms(2) that show thesis by (simp add: Connect_def INVALID_SOCKET_def)
qed

lemma good_Send:
  assumes "good_turns n inp" "length (c_str s) \<le> n" "- 1 \<le> m_sockfd c"
  obtains c' where "Send (Some s) (in_conns inp) (in_sends inp) c = (Some (Inr ()), c', c_str s)" "- 1 \<le> m_sockfd c'"
    "c_str s \<noteq> [] \<Longrightarrow> 0 \<le> m_sockfd c'" "m_stopClient c' = m_stopClient c"
proof (cases "c_str s = []")
  case True
  with assms(3) that show thesis by (simp add: Send_def Send_bytes_def)
next
  case False
  obtain c' t where c: "Connect (in_conns inp) c = (Some (), c', t)" "0 \<le> m_sockfd c'" "m_stopClient c' = m_stopClient c"
    by (rule good_connect [OF assms(1,3)])
  have "fst (send_loop (c_str s) 0 (length (c_str s)) (in_sends inp)) = Some (Inr ())"
    using assms(1,2) by (intro send_loop_returns) (auto simp: good_turns_def list_all_iff)
  then obtain acc where l: "send_loop (c_str s) 0 (length (c_str s)) (in_sends inp) = (Some (Inr ()), acc)"
    by (metis prod.collapse)
  have "acc = c_str s"
    using send_loop_complete [OF l] assms(1) by (auto simp: good_turns_def list_all_iff send_progress_def)
  with l c False have "Send (Some s) (in_conns inp) (in_sends inp) c = (Some (Inr ()), c', c_str s)"
    by (simp add: Send_def Send_bytes_def SendData_def take_c_str)
  with c(2,3) show thesis by (intro that [of c']) auto
qed

text \<open>An item with schema text, not yet composed, and its message.\<close>

definition item_frame :: "djson_item \<Rightarrow> string" where
  "item_frame item = djson_frame (djson_payload (m_source item) (GetTag item) (m_schemaAndData item))"

definition prepared :: "djson_item \<Rightarrow> bool" where
  "prepared item \<longleftrightarrow> m_djsonData item = [] \<and> m_schemaAndData item \<noteq> [] \<and> nul \<notin> set (item_frame item)"

lemma c_str_no_nul: "nul \<notin> set s \<Longrightarrow> c_str s = s"
  unfolding c_str_def by (rule takeWhile_eq_all_conv [THEN iffD2]) auto

lemma ptr_GetData_prepared:
  "prepared (items sh ! p) \<Longrightarrow>
   ptr_GetData p sh = (Inr (item_frame (items sh ! p)), sh\<lparr>items := (items sh)[p := ComposeFullData (items sh ! p)]\<rparr>)"
  by (simp add: ptr_GetData_def GetData_def prepared_def Let_def ComposeFullData_frame item_frame_def)

lemma sender_run_append: "sender_run (xs @ ys) st = sender_run ys (sender_run xs st)"
  by (induction xs arbitrary: st) simp_all

text \<open>The six steps that take one item off the queue and send it.\<close>

lemma drain_one:
  assumes "s_pc ds = S_Loop" "\<not> m_stopSender ds" "data_queue q = Some p # vs" "dataCache sh = None"
    "prepared (items sh ! p)" "length (item_frame (items sh ! p)) \<le> n" "- 1 \<le> m_sockfd (sockClient sh)"
    and "good_turns n i5"
  obtains ds' sh' where "sender_run [i1, i2, i3, i4, i5, i6] (ds, q, sh) = (ds', q\<lparr>data_queue := vs\<rparr>, sh')"
    "s_pc ds' = S_Loop" "\<not> m_stopSender ds'" "m_numSend ds' = m_numSend ds + 1"
    "m_numSuccess ds' = m_numSuccess ds + 1" "dataCache sh' = None"
    "items sh' = (items sh)[p := ComposeFullData (items sh ! p)]"
    "wire sh' = wire sh @ [item_frame (items sh ! p)]" "- 1 \<le> m_sockfd (sockClient sh')"
proof -
  let ?f = "item_frame (items sh ! p)"
  have f: "c_str ?f = ?f" using assms(5) by (simp add: prepared_def c_str_no_nul)
  obtain c' where c: "Send (Some ?f) (in_conns i5) (in_sends i5) (sockClient sh) = (Some (Inr ()), c', ?f)"
    "- 1 \<le> m_sockfd c'"
    using good_Send [OF assms(8), of ?f "sockClient sh"] assms(6,7) f by auto
  note step = InterruptPoint_def wait_and_pop_def enter_Send_def finish_Send_def client_Send_def goto_def
  show thesis
    by (rule that [of "ds\<lparr>m_numSend := m_numSend ds + 1, m_numSuccess := m_numSuccess ds + 1\<rparr>"
          "sh\<lparr>items := (items sh)[p := ComposeFullData (items sh ! p)], sockClient := c', wire := wire sh @ [?f]\<rparr>"])
       (use assms c in \<open>simp_all add: step ptr_GetData_prepared\<close>)
qed

lemma take_six:
  assumes "6 \<le> length xs"
  obtains a b c d e f where "take 6 xs = [a, b, c, d, e, f]" "e \<in> set xs"
proof -
  from assms obtain a b c d e f ys where "xs = a # b # c # d # e # f # ys"
    by (auto simp: numeral_eq_Suc Suc_le_length_iff)
  then show thesis by (intro that [of a b c d e f]) simp_all
qed

lemma drain_all:
  assumes "s_pc ds = S_Loop" "\<not> m_stopSender ds" "stopOnceEmpty q" "data_queue q = map Some ps" "distinct ps"
    "dataCache sh = None" "\<forall>p\<in>set ps. prepared (items sh ! p) \<and> length (item_frame (items sh ! p)) \<le> n"
    "- 1 \<le> m_sockfd (sockClient sh)" "list_all (good_turns n) inps" "length inps = 6 * length ps + 2"
  shows "case sender_run inps (ds, q, sh) of (ds', q', sh') \<Rightarrow>
     s_pc ds' = S_Done Queue_Aborted \<and> data_queue q' = []
     \<and> m_numSend ds' = m_numSend ds + length ps \<and> m_numSuccess ds' = m_numSuccess ds + length ps
     \<and> wire sh' = wire sh @ map (\<lambda>p. item_frame (items sh ! p)) ps"
  using assms
proof (induction ps arbitrary: ds q sh inps)
  case Nil
  then obtain i1 i2 where "inps = [i1, i2]" by (auto simp: numeral_eq_Suc length_Suc_conv)
  with Nil show ?case by (simp add: wait_and_pop_def)
next
  case (Cons p ps)
  obtain i1 i2 i3 i4 i5 i6 where t: "take 6 inps = [i1, i2, i3, i4, i5, i6]" "i5 \<in> set inps"
    by (rule take_six [of inps]) (use Cons.prems in simp)
  obtain ds' sh' where one: "sender_run [i1, i2, i3, i4, i5, i6] (ds, q, sh) = (ds', q\<lparr>data_queue := map Some ps\<rparr>, sh')"
    "s_pc ds' = S_Loop" "\<not> m_stopSender ds'" "m_numSend ds' = m_numSend ds + 1"
    "m_numSuccess ds' = m_numSuccess ds + 1" "dataCache sh' = None"
    "items sh' = (items sh)[p := ComposeFullData (items sh ! p)]"
    "wire sh' = wire sh @ [item_frame (items sh ! p)]" "- 1 \<le> m_sockfd (sockClient sh')"
    by (rule drain_one [of ds q p "map Some ps" sh n i5 i1 i2 i3 i4 i6])
       (use Cons.prems t(2) in \<open>auto simp: list_all_iff\<close>)
  have rest: "items sh' ! r = items sh ! r" if "r \<in> set ps" for r
    using that Cons.prems(5) one(7) by (cases "p = r") auto
  have "sender_run inps (ds, q, sh) = sender_run (drop 6 inps) (ds', q\<lparr>data_queue := map Some ps\<rparr>, sh')"
    using sender_run_append [of "take 6 inps" "drop 6 inps" "(ds, q, sh)"]
    unfolding t(1) one(1) by (simp only: t(1) [symmetric] append_take_drop_id)
  moreover have "list_all (good_turns n) (drop 6 inps)"
    using Cons.prems(9) by (auto simp: list_all_iff dest: in_set_dropD)
  moreover have "map (\<lambda>p. item_frame (items sh' ! p)) ps = map (\<lambda>p. item_frame (items sh ! p)) ps"
    using rest by simp
  ultimately show ?case
    using Cons.IH [of ds' "q\<lparr>data_queue := map Some ps\<rparr>" sh' "drop 6 inps"] Cons.prems one rest
    by (simp add: split_beta)
qed

lemma frames_decode:
  "decode_all decode_frame (concat (map item_frame its)) =
     (map (\<lambda>item. djson_payload (m_source item) (GetTag item) (m_schemaAndData item)) its, [])"
proof -
  let ?pay = "\<lambda>item. djson_payload (m_source item) (GetTag item) (m_schemaAndData item)"
  have "decode_all decode_frame (concat (map djson_frame (map ?pay its)) @ []) = (map ?pay its, [])"
    by (rule djson.decode_all_stream) (simp_all add: decode_frame_Nil)
  then show ?thesis by (simp add: item_frame_def [abs_def] o_def)
qed

section \<open>Properties\<close>

text \<open>
  The sender delivers. Without a cache, with the queue told to stop once empty and the
  socket taking what it is given, \<open>Run\<close> ends after six steps per queued item and two more,
  because the queue is exhausted; both counters have grown by the number of items; and the
  bytes on the wire decode to the payloads of the queued items, each once, in queue order.
\<close>

theorem sender_delivers:
  assumes "s_pc ds = S_Loop" "\<not> m_stopSender ds" "stopOnceEmpty q" "data_queue q = map Some ps" "distinct ps"
    "dataCache sh = None" "\<forall>p\<in>set ps. prepared (items sh ! p) \<and> length (item_frame (items sh ! p)) \<le> n"
    "- 1 \<le> m_sockfd (sockClient sh)" "list_all (good_turns n) inps" "length inps = 6 * length ps + 2"
    and "wire sh = []"
  shows "case sender_run inps (ds, q, sh) of (ds', q', sh') \<Rightarrow>
     s_pc ds' = S_Done Queue_Aborted \<and> data_queue q' = []
     \<and> m_numSend ds' = m_numSend ds + length ps \<and> m_numSuccess ds' = m_numSuccess ds + length ps
     \<and> decode_all decode_frame (concat (wire sh')) =
         (map (\<lambda>p. djson_payload (m_source (items sh ! p)) (GetTag (items sh ! p)) (m_schemaAndData (items sh ! p))) ps, [])"
  using drain_all [OF assms(1-10)] assms(11) frames_decode [of "map ((!) (items sh)) ps"]
  by (auto simp: o_def split: prod.splits)

text \<open>A state with one queued item and the inputs that send it.\<close>

definition drain_start :: "data_sender \<times> item_ptr cqueue \<times> shared" where
  "drain_start =
     (new_data_sender, stop_once_empty (push (Some 0) (new_queue 0)),
      \<lparr>items = [sample_item], schema_ids = [], dataCache = None, sockClient = unix_client 1000, wire = []\<rparr>)"

definition good_input :: "nat \<Rightarrow> thread_input" where
  "good_input n = \<lparr>in_now = (\<lambda>_. 0), in_order = [], in_conns = [connecting 3], in_sends = replicate n (accepting 3 100)\<rparr>"

lemma good_input_good: "good_turns n (good_input n)"
  by (simp add: good_turns_def good_input_def connecting_def list_all_iff send_progress_def PollSocket_def
      accepting_def EINTR_def POLLOUT_def POLLHUP_def)

lemma sample_frame: "item_frame sample_item = ''9'' @ newline # djson_payload ''s'' ''1'' ''D''"
proof -
  have "length (djson_payload ''s'' ''1'' ''D'') = 9" by (simp add: djson_payload_def)
  then show ?thesis by (simp add: item_frame_def djson_frame_def GetTag_def to_string.simps)
qed

lemma sample_prepared: "prepared sample_item"
  by (simp add: prepared_def sample_frame djson_payload_def)

theorem sender_delivers_witness:
  "case sender_run (replicate 8 (good_input 20)) drain_start of (ds', q', sh') \<Rightarrow>
     decode_all decode_frame (concat (wire sh')) = ([djson_payload ''s'' ''1'' ''D''], [])"
proof -
  have good: "list_all (good_turns 20) (replicate 8 (good_input 20))"
    by (simp add: list_all_iff good_input_good)
  show ?thesis
    using sender_delivers [of "fst drain_start" "fst (snd drain_start)" "[0]" "snd (snd drain_start)" 20, OF _ _ _ _ _ _ _ _ good]
    by (simp add: drain_start_def new_data_sender_def stop_once_empty_def push_def new_queue_def is_full_def
        sample_prepared sample_frame djson_payload_def unix_client_def INVALID_SOCKET_def GetTag_def split_beta
        del: sender_run.simps sender_step.simps)
qed

text \<open>How many steps a stopped sender still makes.\<close>

fun steps_left :: "sender_pc \<Rightarrow> nat" where
  "steps_left (S_Done r) = 0"
| "steps_left S_Loop = 1"
| "steps_left (S_Popped p) = 1"
| "steps_left (S_Found t) = 1"
| "steps_left S_After = 1"
| "steps_left S_Wait = 2"
| "steps_left (S_Lookup t) = 2"
| "steps_left (S_Sending s) = 2"
| "steps_left _ = 3"

lemma steps_left_0: "steps_left pc = 0 \<longleftrightarrow> is_done pc"
  by (cases pc) simp_all

definition sends_return :: "thread_input \<Rightarrow> bool" where
  "sends_return inp \<longleftrightarrow> (\<forall>s sh. client_Send s inp sh \<noteq> None)"

lemma stopped_step:
  assumes "m_stopSender ds" "stopOnceEmpty q" "sends_return inp" "s_pc ds \<noteq> S_Null_Deref" "\<not> is_done (s_pc ds)"
  shows "steps_left (s_pc (fst (sender_step inp (ds, q, sh)))) < steps_left (s_pc ds)
    \<or> s_pc (fst (sender_step inp (ds, q, sh))) = S_Null_Deref"
proof (cases "s_pc ds")
  case S_Wait
  with assms show ?thesis
    by (cases rule: pop_cases [of q]) (auto simp: InterruptPoint_def split: option.split)
next
  case (S_Uncached p)
  then show ?thesis by (auto simp: enter_Send_def split: prod.split sum.split)
next
  case (S_Caching p)
  then show ?thesis by (auto simp: cache_item_def Let_def split: option.split sum.split prod.split)
next
  case (S_Sending s)
  with assms(3) show ?thesis by (auto simp: finish_Send_def sends_return_def split: option.split sum.split prod.split)
qed (use assms in \<open>auto simp: InterruptPoint_def enter_Send_def split: sum.split option.split prod.split\<close>)

lemma stopped_run:
  assumes "m_stopSender ds" "stopOnceEmpty q" "sender_ok ds q sh" "\<forall>inp\<in>set inps. sends_return inp"
    "steps_left (s_pc ds) \<le> length inps"
  shows "is_done (s_pc (fst (sender_run inps (ds, q, sh))))"
  using assms
proof (induction inps arbitrary: ds q sh)
  case Nil
  then show ?case using steps_left_0 by simp
next
  case (Cons inp inps)
  obtain ds' q' sh' where st: "sender_step inp (ds, q, sh) = (ds', q', sh')" by (metis prod_cases3)
  have spec: "sender_step_spec (ds, q, sh) (ds', q', sh')"
    using sender_step_ok [OF Cons.prems(3), of inp] st by simp
  then have ok: "sender_ok ds' q' sh'" "m_stopSender ds'" "stopOnceEmpty q'" "is_done (s_pc ds) \<longrightarrow> s_pc ds' = s_pc ds"
    using Cons.prems(1,2) by (auto simp: sender_step_spec_def)
  have "s_pc ds \<noteq> S_Null_Deref" "s_pc ds' \<noteq> S_Null_Deref"
    using Cons.prems(3) ok(1) by (auto simp: sender_ok_def)
  then have "steps_left (s_pc ds') \<le> length inps"
    using stopped_step [OF Cons.prems(1,2), of inp sh] Cons.prems(4,5) ok(4) st
      steps_left_0 [of "s_pc ds", THEN iffD2]
    by (cases "is_done (s_pc ds)") (auto simp del: sender_step.simps)
  with Cons.IH [OF ok(2,3,1)] Cons.prems(4) st show ?case by (simp del: sender_step.simps)
qed

text \<open>
  C24: a stopped sender ends. Once both its stop flag and the \<open>stopOnceEmpty\<close> of its queue are set,
  \<open>Run\<close> ends within three steps from wherever it is, if the calls of \<open>Send\<close> return.
\<close>

theorem stopped_sender_ends:
  assumes "sender_ok ds q sh" "m_stopSender ds" "stopOnceEmpty q" "\<forall>inp\<in>set inps. sends_return inp" "3 \<le> length inps"
  shows "is_done (s_pc (fst (sender_run inps (ds, q, sh))))"
proof -
  have "steps_left (s_pc ds) \<le> 3" by (cases "s_pc ds") simp_all
  with assms show ?thesis by (intro stopped_run) simp_all
qed

text \<open>
  The queue's flag is needed: on an empty queue that is not told to stop, a sender on which
  \<open>Stop\<close> was called goes on waiting, however often it is woken.
\<close>

lemma stop_alone_waits:
  assumes "s_pc ds = S_Wait" "data_queue q = []" "\<not> stopOnceEmpty q"
  shows "sender_run inps (sender_Stop ds, q, sh) = (sender_Stop ds, q, sh)"
  using assms by (induction inps) (simp_all add: sender_Stop_def wait_and_pop_def)

text \<open>With the client stopped too, they do return: the first turn of either loop sees the flag.\<close>

lemma stop_seen_returns:
  assumes "in_conns inp = r # rs" "cr_stop r" "in_sends inp = t # ts" "sr_stop t"
  shows "sends_return inp"
  using assms
  by (auto simp: sends_return_def client_Send_def Send_def Send_bytes_def SendData_def Connect_def
      split: option.splits prod.splits if_splits)

definition stopping_input :: thread_input where
  "stopping_input = \<lparr>in_now = (\<lambda>_. 0), in_order = [], in_conns = [(connecting 3)\<lparr>cr_stop := True\<rparr>], in_sends = [stopped 3]\<rparr>"

lemma stopping_input_returns: "sends_return stopping_input"
  by (rule stop_seen_returns [of _ "(connecting 3)\<lparr>cr_stop := True\<rparr>" "[]" "stopped 3" "[]"]) (simp_all add: stopping_input_def connecting_def stopped_def)

theorem stopped_sender_ends_witness:
  "is_done (s_pc (fst (sender_run (replicate 3 stopping_input)
     (sender_Stop (goto (S_Popped 0) new_data_sender), snd drain_start))))"
proof -
  have "shared_ok (snd (snd drain_start))"
    by (simp add: drain_start_def shared_ok_def cache_ok_def wire_ok_def)
  then show ?thesis
    using stopped_sender_ends [of "sender_Stop (goto (S_Popped 0) new_data_sender)" "fst (snd drain_start)"
        "snd (snd drain_start)" "replicate 3 stopping_input"]
    by (simp add: stopping_input_returns sender_ok_def sender_Stop_def new_data_sender_def goto_def drain_start_def
        queue_live_def stop_once_empty_def push_def new_queue_def is_full_def del: sender_run.simps)
qed

end
