(* ===== verification/Data_Resender.thy ===== *)
theory Data_Resender
  imports Data_Sender
begin

text \<open>
  \<open>src/src/outmdsd/DataResender.h\<close> and \<open>DataResender.cc\<close>: the thread that sends the items
  in the cache again at intervals, after dropping those whose acknowledgement is overdue.
  As for the sender, \<open>rs_pc\<close> says where the thread is; one \<open>resender_step\<close> is one access to
  what is shared.
\<close>

section \<open>State\<close>

datatype resender_pc =
    R_Loop
  | R_Waiting
  | R_Size
  | R_Filter
  | R_Erase "string list"
  | R_Copy
  | R_Items "item_ptr list"
  | R_Sending string "item_ptr list"
  | R_Done nat

record data_resender =
  m_ackTimeoutMS :: "32 word"
  m_resendIntervalMS :: "32 word"
  m_stopMe :: bool
  m_totalSend :: nat
  rs_counter :: nat
  rs_pc :: resender_pc

definition new_data_resender :: "32 word \<Rightarrow> 32 word \<Rightarrow> data_resender result" where
  "new_data_resender ackTimeoutMS resendIntervalMS =
     (if ackTimeoutMS = 0
      then Inl (Invalid_Argument ''DataResender: ack timeout must be a positive integer.'')
      else if resendIntervalMS = 0
      then Inl (Invalid_Argument ''DataResender: resend interval must be a positive integer.'')
      else Inr \<lparr>m_ackTimeoutMS = ackTimeoutMS, m_resendIntervalMS = resendIntervalMS, m_stopMe = False,
                m_totalSend = 0, rs_counter = 0, rs_pc = R_Loop\<rparr>)"

definition resender_Stop :: "data_resender \<Rightarrow> data_resender" where
  "resender_Stop rs = rs\<lparr>m_stopMe := True\<rparr>"

definition resender_destructor :: "data_resender \<Rightarrow> data_resender" where
  "resender_destructor rs = resender_Stop rs"

definition GetTotalSendTimes :: "data_resender \<Rightarrow> nat" where
  "GetTotalSendTimes rs = m_totalSend rs"

declare GetTotalSendTimes_def [simp]

definition rgoto :: "resender_pc \<Rightarrow> data_resender \<Rightarrow> data_resender" where
  "rgoto pc rs = rs\<lparr>rs_pc := pc\<rparr>"

text \<open>The end of \<open>ResendOnce\<close>, reached normally or by the exceptions it catches.\<close>

definition end_round :: "data_resender \<Rightarrow> data_resender" where
  "end_round rs = rs\<lparr>rs_counter := rs_counter rs + 1, rs_pc := R_Loop\<rparr>"

section \<open>Operations\<close>

definition CheckItemAge :: "thread_input \<Rightarrow> 32 word \<Rightarrow> shared \<Rightarrow> item_ptr \<Rightarrow> bool" where
  "CheckItemAge inp ackTimeoutMS sh itemPtr =
     (case itemPtr of
        None \<Rightarrow> False
      | Some p \<Rightarrow> GetLastTouchMilliSeconds (in_now inp p) (items sh ! p) > ackTimeoutMS)"

text \<open>The order of a loop over the hash table is any order of its keys.\<close>

definition visit_order :: "thread_input \<Rightarrow> 'v cmap \<Rightarrow> string list" where
  "visit_order inp m = (if visits (in_order inp) m then in_order inp else keys m)"

definition the_cache :: "shared \<Rightarrow> item_ptr cmap" where
  "the_cache sh = (case dataCache sh of None \<Rightarrow> [] | Some m \<Rightarrow> m)"

definition values_in :: "string list \<Rightarrow> item_ptr cmap \<Rightarrow> item_ptr list" where
  "values_in ord m = map (\<lambda>k. the (map_of m k)) ord"

fun resender_step :: "thread_input \<Rightarrow> data_resender \<times> shared \<Rightarrow> data_resender \<times> shared" where
  "resender_step inp (rs, sh) =
     (case rs_pc rs of
        R_Loop \<Rightarrow> (rgoto (if m_stopMe rs then R_Done (rs_counter rs) else R_Waiting) rs, sh)
      | R_Waiting \<Rightarrow> (rgoto (if m_stopMe rs then R_Done (rs_counter rs) else R_Size) rs, sh)
      | R_Size \<Rightarrow> (if map_size (the_cache sh) > 0 then rgoto R_Filter rs else end_round rs, sh)
      | R_Filter \<Rightarrow>
          (let cacheBak = the_cache sh;
               keysToRemove = filter_each (CheckItemAge inp (m_ackTimeoutMS rs) sh) (visit_order inp cacheBak) cacheBak
           in (rgoto (R_Erase keysToRemove) rs, sh))
      | R_Erase keysToRemove \<Rightarrow>
          (rgoto R_Copy rs, sh\<lparr>dataCache := map_option (\<lambda>m. snd (map_erase_list keysToRemove m)) (dataCache sh)\<rparr>)
      | R_Copy \<Rightarrow>
          (let cacheCopy = the_cache sh
           in (rgoto (R_Items (values_in (visit_order inp cacheCopy) cacheCopy)) rs, sh))
      | R_Items [] \<Rightarrow> (end_round rs, sh)
      | R_Items (None # rest) \<Rightarrow> (rgoto (R_Items rest) rs, sh)
      | R_Items (Some p # rest) \<Rightarrow>
          (case ptr_GetData p sh of
             (Inl e, sh') \<Rightarrow> (end_round rs, sh')
           | (Inr s, sh') \<Rightarrow> (rgoto (R_Sending s rest) rs, sh'))
      | R_Sending s rest \<Rightarrow>
          (case client_Send s inp sh of
             None \<Rightarrow> (rs, sh)
           | Some (Inr _, sh') \<Rightarrow> (rgoto (R_Items rest) (rs\<lparr>m_totalSend := m_totalSend rs + 1\<rparr>), sh')
           | Some (Inl e, sh') \<Rightarrow> (end_round rs, sh'))
      | R_Done n \<Rightarrow> (rs, sh))"

fun resender_run :: "thread_input list \<Rightarrow> data_resender \<times> shared \<Rightarrow> data_resender \<times> shared" where
  "resender_run [] st = st"
| "resender_run (inp # inps) st = resender_run inps (resender_step inp st)"

lemma rgoto_simps [simp]:
  "rs_pc (rgoto pc rs) = pc" "m_totalSend (rgoto pc rs) = m_totalSend rs" "m_stopMe (rgoto pc rs) = m_stopMe rs"
  "m_ackTimeoutMS (rgoto pc rs) = m_ackTimeoutMS rs" "rs_counter (rgoto pc rs) = rs_counter rs"
  "rgoto pc (rgoto pc' rs) = rgoto pc rs"
  by (simp_all add: rgoto_def)

lemma end_round_simps [simp]:
  "rs_pc (end_round rs) = R_Loop" "m_totalSend (end_round rs) = m_totalSend rs"
  "m_stopMe (end_round rs) = m_stopMe rs" "m_ackTimeoutMS (end_round rs) = m_ackTimeoutMS rs"
  "rs_counter (end_round rs) = rs_counter rs + 1"
  by (simp_all add: end_round_def)

section \<open>What a step may change\<close>

lemma visit_order_visits: "cmap_wf m \<Longrightarrow> visits (visit_order inp m) m"
  by (simp add: visit_order_def visits_keys)

text \<open>The thread only removes from the cache, and only keys it found overdue before.\<close>

definition shrinks :: "string list \<Rightarrow> shared \<Rightarrow> shared \<Rightarrow> bool" where
  "shrinks ks sh sh' \<longleftrightarrow> map_of (the_cache sh') = without (set ks) (map_of (the_cache sh))"

lemma cache_ok_none: "dataCache sh = None \<Longrightarrow> cache_ok sh"
  by (simp add: cache_ok_def)

lemma the_cache_same: "dataCache sh' = dataCache sh \<Longrightarrow> the_cache sh' = the_cache sh"
  by (simp add: the_cache_def)

text \<open>The pointers the thread holds are live, the message it is sending is that of an item.\<close>

definition all_live :: "item_ptr list \<Rightarrow> shared \<Rightarrow> bool" where
  "all_live vs sh \<longleftrightarrow> (\<forall>p. Some p \<in> set vs \<longrightarrow> p < length (items sh))"

fun rs_pc_ok :: "shared \<Rightarrow> resender_pc \<Rightarrow> bool" where
  "rs_pc_ok sh (R_Items vs) = all_live vs sh"
| "rs_pc_ok sh (R_Sending s vs) = (on_record sh s \<and> all_live vs sh)"
| "rs_pc_ok sh _ = True"

lemma all_live_same: "all_live vs sh \<Longrightarrow> same_items sh sh' \<Longrightarrow> all_live vs sh'"
  by (simp add: all_live_def same_items_def)

lemma rs_pc_ok_same: "rs_pc_ok sh pc \<Longrightarrow> same_items sh sh' \<Longrightarrow> rs_pc_ok sh' pc"
  by (cases pc) (auto intro: all_live_same simp: same_items_def)

lemma values_live:
  assumes "cache_ok sh"
  shows "all_live (values_in (visit_order inp (the_cache sh)) (the_cache sh)) sh"
proof (cases "dataCache sh")
  case None
  then show ?thesis by (auto simp: all_live_def values_in_def the_cache_def visit_order_def visits_def keys_def)
next
  case (Some m)
  then have wf: "cmap_wf m" and c: "the_cache sh = m" using assms by (simp_all add: cache_ok_def the_cache_def)
  show ?thesis
    unfolding all_live_def c
  proof (intro allI impI)
    fix p
    assume "Some p \<in> set (values_in (visit_order inp m) m)"
    then obtain k where "k \<in> set (visit_order inp m)" "the (map_of m k) = Some p"
      by (auto simp: values_in_def)
    then have "map_of m k = Some (Some p)"
      using visit_order_visits [OF wf, of inp] by (auto simp: visits_def in_keys_iff)
    from cache_okD [OF assms Some this] show "p < length (items sh)" by auto
  qed
qed

definition resender_step_spec :: "data_resender \<Rightarrow> shared \<Rightarrow> data_resender \<Rightarrow> shared \<Rightarrow> bool" where
  "resender_step_spec rs sh rs' sh' \<longleftrightarrow> shared_ok sh' \<and> rs_pc_ok sh' (rs_pc rs') \<and> same_items sh sh'
    \<and> (case rs_pc rs of R_Erase ks \<Rightarrow> shrinks ks sh sh' | _ \<Rightarrow> dataCache sh' = dataCache sh)"

lemma resender_spec_refl:
  "shared_ok sh \<Longrightarrow> rs_pc_ok sh (rs_pc rs') \<Longrightarrow> (\<forall>ks. rs_pc rs \<noteq> R_Erase ks) \<Longrightarrow> resender_step_spec rs sh rs' sh"
  by (auto simp: resender_step_spec_def split: resender_pc.split)

lemma resender_step_ok:
  assumes ok: "shared_ok sh" "rs_pc_ok sh (rs_pc rs)"
  shows "case resender_step inp (rs, sh) of (rs', sh') \<Rightarrow> resender_step_spec rs sh rs' sh'"
proof (cases "rs_pc rs")
  case (R_Erase ks)
  have "cache_ok (sh\<lparr>dataCache := map_option (\<lambda>m. snd (map_erase_list ks m)) (dataCache sh)\<rparr>)"
    using ok cache_ok_erase_list [of sh] by (cases "dataCache sh") (auto simp: shared_ok_def cache_ok_none)
  then show ?thesis
    using ok R_Erase
    by (auto simp: resender_step_spec_def shared_ok_def same_items_def shrinks_def the_cache_def
        map_erase_list_loop erase_loop_snd without_def split: option.split)
next
  case R_Copy
  then show ?thesis
    using ok values_live [of sh inp] by (simp add: resender_spec_refl shared_ok_def Let_def)
next
  case (R_Items vs)
  show ?thesis
  proof (cases vs)
    case (Cons v rest)
    then have rest: "all_live rest sh" using ok R_Items by (simp add: all_live_def)
    show ?thesis
    proof (cases v)
      case (Some p)
      obtain r sh1 where g: "ptr_GetData p sh = (r, sh1)" by fastforce
      have p: "p < length (items sh)" using ok R_Items Cons Some by (simp add: all_live_def)
      note same = ptr_GetData_same [OF g]
      have "shared_ok sh1" using shared_ok_same ok(1) same ptr_GetData_frame [OF g] by blast
      with same p rest R_Items Cons Some g ptr_GetData_record [OF g] all_live_same [OF rest, of sh1]
      show ?thesis by (auto simp: resender_step_spec_def split: sum.split)
    qed (use ok rest R_Items Cons in \<open>simp add: resender_spec_refl\<close>)
  qed (use ok R_Items in \<open>simp add: resender_spec_refl\<close>)
next
  case (R_Sending s rest)
  show ?thesis
  proof (cases "client_Send s inp sh")
    case (Some x)
    obtain r sh1 where x: "x = (r, sh1)" by fastforce
    note same = client_Send_same [OF Some [unfolded x]]
    have "shared_ok sh1" using shared_ok_sent [OF Some [unfolded x]] ok R_Sending by simp
    with same ok R_Sending Some x all_live_same [of rest sh sh1] show ?thesis
      by (auto simp: resender_step_spec_def split: sum.split)
  qed (use ok R_Sending in \<open>simp add: resender_spec_refl\<close>)
qed (use ok in \<open>auto simp: Let_def resender_spec_refl\<close>)

text \<open>The sender only adds to the cache.\<close>

definition keeps_keys :: "shared \<Rightarrow> shared \<Rightarrow> bool" where
  "keeps_keys sh sh' \<longleftrightarrow> (\<forall>k. map_of (the_cache sh) k \<noteq> None \<longrightarrow> map_of (the_cache sh') k \<noteq> None)"

lemma keeps_keys_same: "dataCache sh' = dataCache sh \<Longrightarrow> keeps_keys sh sh'"
  by (simp add: keeps_keys_def the_cache_def)

lemma enter_Send_keeps: "keeps_keys sh (snd (enter_Send p ds sh))"
  by (cases "ptr_GetData p sh")
     (auto simp: enter_Send_def split: sum.split dest: ptr_GetData_frame intro!: keeps_keys_same)

lemma finish_Send_keeps: "keeps_keys sh (snd (finish_Send s inp ds sh))"
  by (auto simp: finish_Send_def split: sum.split option.split dest: client_Send_frame intro!: keeps_keys_same)

lemma cache_item_keeps: "keeps_keys sh (snd (cache_item now p ds sh))"
  by (auto simp: cache_item_def Let_def map_add_def map_of_update keeps_keys_def the_cache_def
      split: sum.split option.split if_splits)

lemma sender_step_keeps: "keeps_keys sh (snd (snd (sender_step inp (ds, q, sh))))"
proof (cases "s_pc ds")
  case S_Wait
  then show ?thesis
    by (cases rule: pop_cases [of q]) (auto simp: keeps_keys_same split: option.split)
next
  case (S_Uncached p)
  then show ?thesis using enter_Send_keeps [of sh p ds] by (simp add: split_beta)
next
  case (S_Caching p)
  then show ?thesis using cache_item_keeps [of sh] by (simp add: split_beta)
next
  case (S_Fetch t)
  then show ?thesis using enter_Send_keeps [of sh _ ds]
    by (auto simp: split_beta keeps_keys_same split: sum.split option.split)
next
  case (S_Sending s)
  then show ?thesis using finish_Send_keeps [of sh] by (simp add: split_beta)
qed (auto simp: keeps_keys_same split: sum.split option.split)

section \<open>One round\<close>

lemma resender_run_append: "resender_run (xs @ ys) st = resender_run ys (resender_run xs st)"
  by (induction xs arbitrary: st) simp_all

text \<open>A cached item has been composed by the sender, so resending it changes nothing.\<close>

definition composed :: "shared \<Rightarrow> nat \<Rightarrow> item_ptr \<Rightarrow> bool" where
  "composed sh n v \<longleftrightarrow> (\<exists>p. v = Some p \<and> m_djsonData (items sh ! p) \<noteq> [] \<and> length (m_djsonData (items sh ! p)) \<le> n)"

definition resent :: "shared \<Rightarrow> item_ptr \<Rightarrow> string" where
  "resent sh v = c_str (m_djsonData (items sh ! the v))"

lemma resend_one:
  assumes "rs_pc rs = R_Items (v # vs)" "composed sh n v" "good_turns n i2" "- 1 \<le> m_sockfd (sockClient sh)"
  obtains rs' c where "resender_run [i1, i2] (rs, sh) = (rs', sh\<lparr>sockClient := c, wire := wire sh @ [resent sh v]\<rparr>)"
    "rs_pc rs' = R_Items vs" "m_totalSend rs' = m_totalSend rs + 1" "rs_counter rs' = rs_counter rs" "- 1 \<le> m_sockfd c"
proof -
  obtain p where p: "v = Some p" "m_djsonData (items sh ! p) \<noteq> []" "length (m_djsonData (items sh ! p)) \<le> n"
    using assms(2) by (auto simp: composed_def)
  let ?d = "m_djsonData (items sh ! p)"
  have "length (c_str ?d) \<le> n" using prefix_length_le [OF c_str_prefix [of ?d]] p(3) by simp
  from good_Send [OF assms(3) this assms(4)]
  obtain c where c: "Send (Some ?d) (in_conns i2) (in_sends i2) (sockClient sh) = (Some (Inr ()), c, c_str ?d)"
    "- 1 \<le> m_sockfd c" by auto
  show thesis
    by (rule that [of "rs\<lparr>m_totalSend := m_totalSend rs + 1, rs_pc := R_Items vs\<rparr>" c])
       (use assms p c in \<open>simp_all add: ptr_GetData_def GetData_cached client_Send_def rgoto_def resent_def list_update_id\<close>)
qed

lemma resend_all:
  assumes "rs_pc rs = R_Items vs" "\<forall>v\<in>set vs. composed sh n v" "list_all (good_turns n) inps"
    "- 1 \<le> m_sockfd (sockClient sh)" "length inps = 2 * length vs + 1"
  shows "case resender_run inps (rs, sh) of (rs', sh') \<Rightarrow>
     rs_pc rs' = R_Loop \<and> m_totalSend rs' = m_totalSend rs + length vs \<and> rs_counter rs' = rs_counter rs + 1
     \<and> wire sh' = wire sh @ map (resent sh) vs \<and> items sh' = items sh \<and> dataCache sh' = dataCache sh"
  using assms
proof (induction vs arbitrary: rs sh inps)
  case Nil
  then obtain i where "inps = [i]" by (auto simp: length_Suc_conv)
  with Nil show ?case by simp
next
  case (Cons v vs)
  then obtain i1 i2 rest where i: "inps = i1 # i2 # rest" by (auto simp: length_Suc_conv)
  obtain rs' c where one: "resender_run [i1, i2] (rs, sh) = (rs', sh\<lparr>sockClient := c, wire := wire sh @ [resent sh v]\<rparr>)"
    "rs_pc rs' = R_Items vs" "m_totalSend rs' = m_totalSend rs + 1" "rs_counter rs' = rs_counter rs" "- 1 \<le> m_sockfd c"
    by (rule resend_one [of rs v vs sh n i2 i1]) (use Cons.prems i in auto)
  let ?sh = "sh\<lparr>sockClient := c, wire := wire sh @ [resent sh v]\<rparr>"
  have "resender_run inps (rs, sh) = resender_run rest (rs', ?sh)"
    using resender_run_append [of "[i1, i2]" rest "(rs, sh)"] unfolding one(1) i by simp
  moreover have "\<forall>v\<in>set vs. composed ?sh n v" using Cons.prems(2) by (simp add: composed_def)
  moreover have "resent ?sh = resent sh" by (simp add: fun_eq_iff resent_def)
  ultimately show ?case
    using Cons.IH [of rs' ?sh rest] Cons.prems one i by (simp add: split_beta)
qed

section \<open>Properties\<close>

text \<open>
  When an item is overdue, written out: its age in whole milliseconds, as the code stores it in
  32 bits, is above the timeout.
\<close>

definition overdue :: "thread_input \<Rightarrow> 32 word \<Rightarrow> shared \<Rightarrow> item_ptr \<Rightarrow> bool" where
  "overdue inp timeout sh v \<longleftrightarrow>
     (\<exists>p. v = Some p \<and> uint timeout < ((in_now inp p - m_touchTime (items sh ! p)) sdiv 1000000) mod 2 ^ 32)"

lemma CheckItemAge_overdue: "CheckItemAge inp timeout sh v = overdue inp timeout sh v"
  by (cases v) (simp_all add: CheckItemAge_def overdue_def GetLastTouchMilliSeconds_def word_less_def uint_word_of_int)

lemma filter_and_erase:
  assumes "rs_pc rs = R_Filter" "cache_ok sh" "dataCache sh = Some m"
  shows "\<exists>m'. resender_run [i1, i2] (rs, sh) = (rgoto R_Copy rs, sh\<lparr>dataCache := Some m'\<rparr>)
    \<and> cache_ok (sh\<lparr>dataCache := Some m'\<rparr>)
    \<and> (\<forall>k. map_of m' k =
        (case map_of m k of
           None \<Rightarrow> None
         | Some v \<Rightarrow> if overdue i1 (m_ackTimeoutMS rs) sh v then None else Some v))"
proof -
  have wf: "cmap_wf m" using assms(2,3) by (simp add: cache_ok_def)
  let ?ks = "filter_each (CheckItemAge i1 (m_ackTimeoutMS rs) sh) (visit_order i1 m) m"
  have "k \<in> set ?ks \<longleftrightarrow> (\<exists>v. map_of m k = Some v \<and> overdue i1 (m_ackTimeoutMS rs) sh v)" for k
    using visit_order_visits [OF wf, of i1]
    by (auto simp: filter_each_set visits_def in_keys_iff CheckItemAge_overdue)
  moreover have "resender_run [i1, i2] (rs, sh) = (rgoto R_Copy rs, sh\<lparr>dataCache := Some (snd (map_erase_list ?ks m))\<rparr>)"
    using assms(1,3) by (simp add: the_cache_def Let_def rgoto_def)
  ultimately show ?thesis
    using cache_ok_erase_list [OF assms(2,3)]
    by (auto simp: map_erase_list_loop erase_loop_snd without_def split: option.split)
qed

text \<open>
  C31: dropping overdue items. The filter and the erase that follows it remove exactly the
  entries whose age, in milliseconds modulo \<open>2^32\<close>, is above the timeout at the moment the
  filter looks at them; every other entry and all items stay as they are.
\<close>

theorem overdue_items_dropped:
  assumes "rs_pc rs = R_Filter" "cache_ok sh" "dataCache sh = Some m"
  shows "case resender_run [i1, i2] (rs, sh) of (rs', sh') \<Rightarrow>
     rs_pc rs' = R_Copy \<and> items sh' = items sh \<and>
     (\<forall>k. map_of (the_cache sh') k =
        (case map_of m k of
           None \<Rightarrow> None
         | Some v \<Rightarrow>
             if \<exists>p. v = Some p \<and> uint (m_ackTimeoutMS rs) < ((in_now i1 p - m_touchTime (items sh ! p)) sdiv 1000000) mod 2 ^ 32
             then None else Some v))"
  using filter_and_erase [OF assms, of i1 i2] unfolding overdue_def by (auto simp del: resender_run.simps simp: the_cache_def)

definition sample_resender :: "resender_pc \<Rightarrow> data_resender" where
  "sample_resender pc = \<lparr>m_ackTimeoutMS = 1000, m_resendIntervalMS = 10, m_stopMe = False, m_totalSend = 0,
     rs_counter = 0, rs_pc = pc\<rparr>"

definition cached_sample :: "djson_item \<Rightarrow> shared" where
  "cached_sample item = \<lparr>items = [item], schema_ids = [], dataCache = Some [(''1'', Some 0)],
     sockClient = unix_client 1000, wire = []\<rparr>"

lemma cached_sample_ok: "m_tag item = ''1'' \<Longrightarrow> cache_ok (cached_sample item)"
  by (auto simp: cache_ok_def cached_sample_def cmap_wf_def keys_def tag_list_def GetTag_def split: if_splits)

theorem overdue_items_dropped_witness:
  "map_of (the_cache (snd (resender_run [good_input 0\<lparr>in_now := (\<lambda>_. 1001000000)\<rparr>, good_input 0]
     (sample_resender R_Filter, cached_sample sample_item)))) ''1'' = None"
proof -
  have "m_touchTime sample_item = 0"
    by (simp add: sample_item_def new_djson_item_with_def new_log_item_def make_djson_item_def Let_def)
  then have "(1000 :: int) < ((1001000000 - m_touchTime sample_item) sdiv 1000000) mod 2 ^ 32"
    by (simp add: signed_divide_int_def)
  with overdue_items_dropped [of "sample_resender R_Filter" "cached_sample sample_item" "[(''1'', Some 0)]"
      "good_input 0\<lparr>in_now := (\<lambda>_. 1001000000)\<rparr>" "good_input 0"] cached_sample_ok [of sample_item]
  show ?thesis
    by (simp add: sample_resender_def split_beta cached_sample_def del: resender_run.simps)
qed

lemma round_from_copy:
  assumes "rs_pc rs = R_Copy" "cache_ok sh" "dataCache sh = Some m"
    "\<forall>k v. map_of m k = Some v \<longrightarrow> composed sh n v" "list_all (good_turns n) (i # inps)"
    "- 1 \<le> m_sockfd (sockClient sh)" "length inps = 2 * map_size m + 1"
  shows "case resender_run (i # inps) (rs, sh) of (rs', sh') \<Rightarrow>
     rs_pc rs' = R_Loop \<and> m_totalSend rs' = m_totalSend rs + map_size m \<and> rs_counter rs' = rs_counter rs + 1
     \<and> (\<exists>ord. visits ord m \<and> wire sh' = wire sh @ map (resent sh) (values_in ord m))
     \<and> items sh' = items sh \<and> dataCache sh' = dataCache sh"
proof -
  let ?ord = "visit_order i m"
  have wf: "cmap_wf m" using assms(2,3) by (simp add: cache_ok_def)
  note v = visit_order_visits [OF wf, of i]
  have len: "length ?ord = map_size m"
    using v wf_size [OF wf] by (simp add: visits_def keys_dom distinct_card [symmetric])
  have "\<forall>x\<in>set (values_in ?ord m). composed sh n x"
    using v assms(4) by (auto simp: values_in_def visits_def in_keys_iff)
  with resend_all [of "rgoto (R_Items (values_in ?ord m)) rs" "values_in ?ord m" sh n inps] assms len
  have "case resender_run inps (rgoto (R_Items (values_in ?ord m)) rs, sh) of (rs', sh') \<Rightarrow>
     rs_pc rs' = R_Loop \<and> m_totalSend rs' = m_totalSend rs + map_size m \<and> rs_counter rs' = rs_counter rs + 1
     \<and> wire sh' = wire sh @ map (resent sh) (values_in ?ord m) \<and> items sh' = items sh \<and> dataCache sh' = dataCache sh"
    by (simp add: values_in_def)
  with v show ?thesis using assms(1,3) by (auto simp: the_cache_def Let_def split: prod.splits)
qed

text \<open>
  C18: a round resends what is not overdue. When a round begins with a cache that is not empty,
  every cached item that is not overdue has been composed, the socket takes what it is given
  and nobody interferes, the round drops the overdue entries and sends each other one exactly
  once, in some order of the keys, byte for byte as composed up to a NUL; it counts them and
  leaves all items and the other entries as they are.
\<close>

theorem resend_round:
  assumes "rs_pc rs = R_Size" "cache_ok sh" "dataCache sh = Some m" "m \<noteq> []"
    and fresh: "fresh = {k. \<exists>v. map_of m k = Some v \<and> \<not> overdue i1 (m_ackTimeoutMS rs) sh v}"
    and comp: "\<forall>k \<in> fresh. composed sh n (the (map_of m k))"
    and "list_all (good_turns n) (i3 # inps)" "- 1 \<le> m_sockfd (sockClient sh)" "length inps = 2 * card fresh + 1"
  shows "case resender_run (i0 # i1 # i2 # i3 # inps) (rs, sh) of (rs', sh') \<Rightarrow>
     rs_pc rs' = R_Loop \<and> m_totalSend rs' = m_totalSend rs + card fresh \<and> rs_counter rs' = rs_counter rs + 1
     \<and> (\<exists>ord. distinct ord \<and> set ord = fresh
          \<and> wire sh' = wire sh @ map (\<lambda>k. c_str (m_djsonData (items sh ! the (the (map_of m k))))) ord)
     \<and> items sh' = items sh \<and> map_of (the_cache sh') = map_of m |` fresh"
proof -
  obtain m' where run: "resender_run [i1, i2] (rgoto R_Filter rs, sh) = (rgoto R_Copy rs, sh\<lparr>dataCache := Some m'\<rparr>)"
    and ok: "cache_ok (sh\<lparr>dataCache := Some m'\<rparr>)"
    and m': "map_of m' k = (case map_of m k of None \<Rightarrow> None | Some v \<Rightarrow> if overdue i1 (m_ackTimeoutMS rs) sh v then None else Some v)" for k
    using filter_and_erase [of "rgoto R_Filter rs" sh m i1 i2, unfolded rgoto_simps, OF refl assms(2,3)] by blast
  let ?sh = "sh\<lparr>dataCache := Some m'\<rparr>"
  have wf: "cmap_wf m'" using ok by (simp add: cache_ok_def)
  have restr: "map_of m' = map_of m |` fresh" by (auto simp: fun_eq_iff m' fresh restrict_map_def split: option.split)
  have dom: "set (keys m') = fresh" using fresh by (auto simp: in_keys_iff m' split: option.splits)
  then have size: "map_size m' = card fresh"
    using wf wf_size [OF wf] by (simp add: keys_dom)
  have "composed ?sh n v" if "map_of m' k = Some v" for k v
    using comp that by (auto simp: restr restrict_map_def composed_def split: if_splits)
  then have "case resender_run (i3 # inps) (rgoto R_Copy rs, ?sh) of (rs', sh') \<Rightarrow>
     rs_pc rs' = R_Loop \<and> m_totalSend rs' = m_totalSend rs + map_size m' \<and> rs_counter rs' = rs_counter rs + 1
     \<and> (\<exists>ord. visits ord m' \<and> wire sh' = wire sh @ map (resent ?sh) (values_in ord m'))
     \<and> items sh' = items sh \<and> dataCache sh' = Some m'"
    using round_from_copy [of "rgoto R_Copy rs" ?sh m' n i3 inps] ok assms(7-9) size by (simp del: resender_run.simps)
  moreover have "map (resent ?sh) (values_in ord m') = map (\<lambda>k. c_str (m_djsonData (items sh ! the (the (map_of m k))))) ord"
    if "set ord = fresh" for ord
    using that by (auto simp: values_in_def resent_def restr)
  moreover have "resender_run (i0 # i1 # i2 # i3 # inps) (rs, sh) = resender_run (i3 # inps) (rgoto R_Copy rs, ?sh)"
    using run assms(1,3,4) by (simp add: the_cache_def map_size_def del: resender_step.simps add: resender_step.simps [of i0])
  ultimately show ?thesis
    using dom size restr by (fastforce simp: visits_def the_cache_def simp del: resender_run.simps split: prod.splits)
qed

theorem resend_round_witness:
  "items (snd (resender_run (good_input 20 # good_input 20 # good_input 20 # good_input 20 # replicate 3 (good_input 20))
     (sample_resender R_Size, cached_sample (ComposeFullData sample_item)))) = [ComposeFullData sample_item]"
proof -
  let ?sh = "cached_sample (ComposeFullData sample_item)"
  have "length (m_djsonData (ComposeFullData sample_item)) \<le> 20" "m_djsonData (ComposeFullData sample_item) \<noteq> []"
    using sample_frame by (simp_all add: ComposeFullData_frame item_frame_def djson_payload_def)
  then have "composed ?sh 20 (Some 0)"
    by (simp add: composed_def cached_sample_def)
  moreover have "\<not> overdue (good_input 20) 1000 ?sh (Some 0)"
    by (simp add: overdue_def cached_sample_def good_input_def sample_item_def new_djson_item_with_def new_log_item_def
        make_djson_item_def ComposeFullData_def Let_def)
  then have "{k. \<exists>v. map_of [(''1'', Some 0)] k = Some v \<and> \<not> overdue (good_input 20) 1000 ?sh v} = {''1''}"
    by (auto split: if_splits)
  ultimately show ?thesis
    using resend_round [of "sample_resender R_Size" ?sh "[(''1'', Some 0)]" "{''1''}" "good_input 20" 20
      "good_input 20" "replicate 3 (good_input 20)" "good_input 20" "good_input 20"] cached_sample_ok [of "ComposeFullData sample_item"]
    by (simp add: sample_resender_def split_beta cached_sample_def good_input_good list_all_iff map_size_def
        unix_client_def INVALID_SOCKET_def del: resender_run.simps)
qed

end
