(* ===== verification/Data_Reader.thy ===== *)
theory Data_Reader
  imports Concurrent_Map Stream_Framing
begin

text \<open>
  \<open>src/src/outmdsd/DataReader.h\<close> and \<open>DataReader.cc\<close>: the thread that reads
  acknowledgements (\<open>tag\<close> or \<open>tag:status\<close>, one per line) from the socket and removes the
  acknowledged items from the shared cache. What the socket and the other threads do is an
  argument: one \<open>read_event\<close> per turn of the reading loop.
\<close>

section \<open>State\<close>

text \<open>
  The cache is \<open>None\<close> where the code's pointer is null. \<open>r_errors\<close> collects the texts
  logged at level \<open>Error\<close> for unsuccessful acknowledgements.
\<close>

record 'v reader =
  r_dataCache :: "'v cmap option"
  m_nTagsRead :: nat
  r_errors :: "string list"

definition reader_GetNumTagsRead :: "'v reader \<Rightarrow> nat" where
  "reader_GetNumTagsRead s = m_nTagsRead s"

declare reader_GetNumTagsRead_def [simp]

section \<open>Items\<close>

definition GetAckStatusMap :: "(string \<times> string) list" where
  "GetAckStatusMap =
     [(''0'', ''ACK_SUCCESS''),
      (''1'', ''ACK_FAILED''),
      (''2'', ''ACK_UNKNOWN_SCHEMA_ID''),
      (''3'', ''ACK_DECODE_ERROR''),
      (''4'', ''ACK_INVALID_SOURCE''),
      (''5'', ''ACK_DUPLICATE_SCHEMA_ID'')]"

definition GetAckStatusStr :: "string \<Rightarrow> string" where
  "GetAckStatusStr ackCode =
     (case map_of GetAckStatusMap ackCode of
        None \<Rightarrow> ''Unknown-ACK-CODE''
      | Some t \<Rightarrow> t)"

text \<open>\<open>if (m_dataCache) m_dataCache->Erase(tag)\<close>; a count other than one is only logged.\<close>

definition erase_tag :: "string \<Rightarrow> 'v reader \<Rightarrow> 'v reader" where
  "erase_tag tag s =
     (case r_dataCache s of
        None \<Rightarrow> s
      | Some c \<Rightarrow> s\<lparr>r_dataCache := Some (snd (map_erase tag c))\<rparr>)"

definition ProcessTag :: "string \<Rightarrow> 'v reader \<Rightarrow> 'v reader" where
  "ProcessTag tag s = (if tag = [] then s else erase_tag tag s)"

definition ProcessTagStatus :: "string \<Rightarrow> string \<Rightarrow> 'v reader \<Rightarrow> 'v reader" where
  "ProcessTagStatus tag ackStatus s =
     (if tag = [] then s
      else if ackStatus = [] then s
      else if ''0'' \<noteq> ackStatus
      then s\<lparr>r_errors := r_errors s @
             [''unexpected mdsd ack status: '' @ GetAckStatusStr ackStatus @ '', tag '' @ [CHR 0x27] @ tag @ [CHR 0x27]]\<rparr>
      else erase_tag tag s)"

definition ProcessItem :: "string \<Rightarrow> 'v reader \<Rightarrow> 'v reader" where
  "ProcessItem item s =
     (if item = [] then s
      else (let s' = s\<lparr>m_nTagsRead := m_nTagsRead s + 1\<rparr>
            in case find_char CHR '':'' item of
                 None \<Rightarrow> ProcessTag item s'
               | Some p \<Rightarrow> ProcessTagStatus (take p item) (drop (p + 1) item) s'))"

section \<open>Splitting the data into items\<close>

text \<open>
  \<open>std::istringstream\<close> as far as \<open>std::getline\<close> uses it: the unread characters and two
  state bits. \<open>getline\<close> on a stream that is not good only sets the fail bit and leaves its
  string argument alone; otherwise it reads up to the delimiter, setting the end-of-file
  bit if it meets the end first, and the fail bit if it extracted nothing.
\<close>

record istringstream =
  unread :: string
  eofbit :: bool
  failbit :: bool

definition getline :: "istringstream \<Rightarrow> string \<Rightarrow> istringstream \<times> string" where
  "getline iss item =
     (if eofbit iss \<or> failbit iss then (iss\<lparr>failbit := True\<rparr>, item)
      else case find_char newline (unread iss) of
             Some p \<Rightarrow> (iss\<lparr>unread := drop (Suc p) (unread iss)\<rparr>, take p (unread iss))
           | None \<Rightarrow> (iss\<lparr>unread := [], eofbit := True, failbit := (unread iss = [])\<rparr>, unread iss))"

text \<open>The loop \<open>while(std::getline(iss, item)) { if (!iss.eof()) ProcessItem(item); }\<close>.\<close>

function item_loop :: "istringstream \<Rightarrow> string \<Rightarrow> 'v reader \<Rightarrow> string \<times> 'v reader" where
  "item_loop iss item s =
     (let (iss', item') = getline iss item
      in if failbit iss' then (item', s)
         else item_loop iss' item' (if eofbit iss' then s else ProcessItem item' s))"
  by pat_completeness auto
termination
proof (relation "measure (\<lambda>(iss, item, s). length (unread iss))")
  fix iss iss' :: istringstream and item item' x and s :: "'v reader"
  assume "x = getline iss item" "(iss', item') = x" "\<not> failbit iss'"
  then show "((iss', item', if eofbit iss' then s else ProcessItem item' s), iss, item, s)
      \<in> measure (\<lambda>(iss, item, s). length (unread iss))"
    by (auto simp: getline_def split: if_splits option.splits dest: find_char_SomeD)
qed simp

declare item_loop.simps [simp del]

text \<open>The result is the unprocessed rest, with the state after the processed items.\<close>

definition ProcessData :: "string \<Rightarrow> 'v reader \<Rightarrow> string \<times> 'v reader" where
  "ProcessData str s =
     (if str = [] then ([], s)
      else case find_last_char newline str of
             None \<Rightarrow> (str, s)
           | Some dPos \<Rightarrow>
               (let (item, s') = item_loop \<lparr>unread = str, eofbit = False, failbit = False\<rparr> [] s
                in if item \<noteq> [] \<and> dPos = length str - 1 then ([], ProcessItem item s')
                   else (drop (dPos + 1) str, s')))"

section \<open>The reading loop\<close>

text \<open>
  One turn of the loop sees: the stop flag at the first interruption point, what
  \<open>SocketClient::Read\<close> returns (the number with the bytes put into the buffer) or throws,
  and the stop flag at the second interruption point.
\<close>

record read_event =
  stop_before :: bool
  read_result :: "(int \<times> string) result"
  stop_after :: bool

definition DoRead :: "read_event \<Rightarrow> string \<Rightarrow> 'v reader \<Rightarrow> (bool \<times> string \<times> 'v reader) result" where
  "DoRead ev partialData s =
     (if stop_before ev then Inl Reader_Interrupt_Exception
      else case read_result ev of
             Inl e \<Rightarrow> if is_socket_exception e then Inr (True, partialData, s) else Inl e
           | Inr (readRtn, buf) \<Rightarrow>
               if readRtn = -1 then Inr (False, partialData, s)
               else if 0 < readRtn
               then (if stop_after ev then Inl Reader_Interrupt_Exception
                     else let (partialData', s') = ProcessData (partialData @ c_str (take (nat readRtn) buf)) s
                          in Inr (True, partialData', s'))
               else Inr (True, partialData, s))"

text \<open>
  How the loop stands after the given turns. \<open>Splitting\<close> is a place inside \<open>ProcessData\<close>, before
  a call of \<open>getline\<close>; only \<open>Reader_Thread\<close>, where the other threads can come in between, stops there.
\<close>

datatype 'v read_run =
    Reading string "'v reader"
  | Splitting string nat istringstream string "'v reader"
  | Read_Returned "'v reader"
  | Read_Threw exn "'v reader"

fun read_loop :: "read_event list \<Rightarrow> string \<Rightarrow> 'v reader \<Rightarrow> 'v read_run" where
  "read_loop [] partialData s = Reading partialData s"
| "read_loop (ev # evs) partialData s =
     (case DoRead ev partialData s of
        Inr (True, partialData', s') \<Rightarrow> read_loop evs partialData' s'
      | Inr (False, partialData', s') \<Rightarrow> Read_Returned s'
      | Inl Reader_Interrupt_Exception \<Rightarrow> Read_Returned s
      | Inl e \<Rightarrow> if is_std_exception e then Read_Returned s else Read_Threw e s)"

definition reader_Run :: "read_event list \<Rightarrow> 'v reader \<Rightarrow> 'v read_run" where
  "reader_Run evs s = read_loop evs [] s"

section \<open>Newline framing\<close>

definition line_enc :: "string \<Rightarrow> string" where
  "line_enc l = l @ [newline]"

definition line_dec :: "string \<Rightarrow> (string \<times> string) option" where
  "line_dec s =
     (case find_char newline s of
        None \<Rightarrow> None
      | Some p \<Rightarrow> Some (take p s, drop (Suc p) s))"

lemma line_dec_None: "line_dec s = None \<longleftrightarrow> newline \<notin> set s"
  by (auto simp: line_dec_def simp flip: find_char_None split: option.splits)

lemma line_dec_SomeD: "line_dec s = Some (x, r) \<Longrightarrow> s = line_enc x @ r \<and> newline \<notin> set x"
  by (auto simp: line_dec_def line_enc_def split: option.splits dest: find_char_SomeD)

lemma line_dec_line: "newline \<notin> set x \<Longrightarrow> line_dec (x @ newline # r) = Some (x, r)"
  by (simp add: line_dec_def find_char_append)

interpretation line: framing line_dec line_enc "\<lambda>l. newline \<notin> set l"
proof unfold_locales
  show "line_dec (line_enc x) = Some (x, [])" if "newline \<notin> set x" for x
    using line_dec_line [OF that] by (simp add: line_enc_def)
  show "line_dec (s @ t) = Some (x, r @ t)" if "line_dec s = Some (x, r)" for s t x r
    using line_dec_SomeD [OF that] by (simp add: line_enc_def line_dec_line)
  show "length r < length s" if "line_dec s = Some (x, r)" for s x r
    using line_dec_SomeD [OF that] by (simp add: line_enc_def)
qed

lemma decode_lines_concat:
  "s = concat (map line_enc (fst (decode_all line_dec s))) @ snd (decode_all line_dec s)"
proof (induction "length s" arbitrary: s rule: less_induct)
  case less
  show ?case
  proof (cases "line_dec s")
    case None
    then show ?thesis by (simp add: line.decode_all_None)
  next
    case (Some a)
    then obtain x r where xr: "line_dec s = Some (x, r)" by (cases a) auto
    with less [OF line.dec_progress [OF xr]] line_dec_SomeD [OF xr] show ?thesis
      by (simp add: line.decode_all_Some)
  qed
qed

lemma decode_lines_rest: "newline \<notin> set (snd (decode_all line_dec s))"
  using line.decode_all_rest [of s] by (simp add: line_dec_None)

section \<open>\<open>ProcessData\<close> splits at newlines\<close>

lemma item_loop_lines:
  "item_loop \<lparr>unread = str, eofbit = False, failbit = False\<rparr> item s =
     (snd (decode_all line_dec str), fold ProcessItem (fst (decode_all line_dec str)) s)"
proof (induction "length str" arbitrary: str item s rule: less_induct)
  case less
  show ?case
  proof (cases "line_dec str")
    case None
    then have none: "find_char newline str = None" by (simp add: line_dec_None find_char_None)
    have "item_loop \<lparr>unread = str, eofbit = False, failbit = False\<rparr> item s = (str, s)"
      by (cases "str = []") (simp_all add: item_loop.simps getline_def none)
    with None show ?thesis by (simp add: line.decode_all_None)
  next
    case (Some a)
    then obtain x r where xr: "line_dec str = Some (x, r)" by (cases a) auto
    then obtain p where "find_char newline str = Some p" "x = take p str" "r = drop (Suc p) str"
      by (auto simp: line_dec_def split: option.splits)
    then have "item_loop \<lparr>unread = str, eofbit = False, failbit = False\<rparr> item s =
        item_loop \<lparr>unread = r, eofbit = False, failbit = False\<rparr> x (ProcessItem x s)"
      by (subst item_loop.simps) (simp add: getline_def)
    with less [OF line.dec_progress [OF xr]] xr show ?thesis
      by (simp add: line.decode_all_Some)
  qed
qed

lemma last_newline:
  assumes "newline \<in> set str"
  shows "find_last_char newline str = Some (length str - Suc (length (snd (decode_all line_dec str))))"
    and "length (snd (decode_all line_dec str)) < length str"
proof -
  let ?ls = "fst (decode_all line_dec str)" and ?r = "snd (decode_all line_dec str)"
  have "?ls \<noteq> []" using decode_lines_concat [of str] decode_lines_rest [of str] assms by auto
  then obtain ls' l where ls: "?ls = ls' @ [l]" by (metis rev_exhaust)
  have str: "str = (concat (map line_enc ls') @ l) @ newline # ?r"
    using decode_lines_concat [of str] by (simp add: ls line_enc_def)
  then have len: "length str = length (concat (map line_enc ls') @ l) + Suc (length ?r)"
    by (metis length_append length_Cons)
  have "find_last_char newline ((concat (map line_enc ls') @ l) @ newline # ?r)
      = Some (length (concat (map line_enc ls') @ l))"
    by (rule find_last_char_append) (rule decode_lines_rest)
  with str len show "find_last_char newline str = Some (length str - Suc (length ?r))"
    by (metis diff_add_inverse2)
  from len show "length ?r < length str" by simp
qed

text \<open>
  The reference semantics of \<open>ProcessData\<close>: process the complete lines in order, keep the
  rest. (The branch that processes a non-empty last item after the loop is never taken.)
\<close>

lemma ProcessData_lines:
  "ProcessData str s = (snd (decode_all line_dec str), fold ProcessItem (fst (decode_all line_dec str)) s)"
proof (cases "newline \<in> set str")
  case False
  then have "find_last_char newline str = None" "line_dec str = None"
    by (simp_all add: find_last_char_None line_dec_None)
  then show ?thesis by (simp add: ProcessData_def line.decode_all_None)
next
  case True
  let ?r = "snd (decode_all line_dec str)"
  have "str \<noteq> []" using True by auto
  moreover have "drop (length str - length ?r) str = ?r"
    using decode_lines_concat [of str] by (metis append_eq_conv_conj diff_add_inverse2 length_append)
  moreover have "length str - Suc (length ?r) \<noteq> length str - 1" if "?r \<noteq> []"
  proof -
    from that have "0 < length ?r" by simp
    with last_newline(2) [OF True] show ?thesis by arith
  qed
  ultimately show ?thesis
    using last_newline [OF True]
    by (cases "?r = []") (simp_all add: ProcessData_def item_loop_lines Suc_diff_Suc)
qed

section \<open>The loop over the connection\<close>

text \<open>
  A turn in which nobody stops the reader: \<open>Read\<close> returns bytes (none of them NUL), or no
  bytes (end of file, or a spurious wake-up), or throws a socket exception.
\<close>

definition quiet :: "read_event \<Rightarrow> bool" where
  "quiet ev \<longleftrightarrow> \<not> stop_before ev \<and> \<not> stop_after ev \<and>
     (case read_result ev of
        Inl e \<Rightarrow> is_socket_exception e
      | Inr (n, b) \<Rightarrow> n = int (length b) \<and> nul \<notin> set b)"

definition bytes_of :: "read_event \<Rightarrow> string" where
  "bytes_of ev = (case read_result ev of Inl e \<Rightarrow> [] | Inr (n, b) \<Rightarrow> b)"

lemma DoRead_quiet:
  assumes "quiet ev" and "newline \<notin> set p"
  shows "DoRead ev p s =
    Inr (True, snd (decode_all line_dec (p @ bytes_of ev)), fold ProcessItem (fst (decode_all line_dec (p @ bytes_of ev))) s)"
proof (cases "bytes_of ev = []")
  case True
  with assms show ?thesis
    by (auto simp: quiet_def bytes_of_def DoRead_def line.decode_all_None line_dec_None split: sum.splits)
next
  case False
  then obtain b where b: "read_result ev = Inr (int (length b), b)" "b \<noteq> []" "nul \<notin> set b" "bytes_of ev = b"
    using assms(1) by (auto simp: quiet_def bytes_of_def split: sum.splits)
  with assms(1) show ?thesis
    by (simp add: DoRead_def quiet_def c_str_id ProcessData_lines)
qed

lemma read_loop_quiet:
  "\<forall>ev \<in> set evs. quiet ev \<Longrightarrow> newline \<notin> set p \<Longrightarrow>
   read_loop evs p s =
     Reading (snd (decode_chunks line_dec (map bytes_of evs) p))
       (fold ProcessItem (fst (decode_chunks line_dec (map bytes_of evs) p)) s)"
proof (induction evs arbitrary: p s)
  case (Cons ev evs)
  then show ?case
    by (simp add: DoRead_quiet decode_lines_rest split_beta)
qed simp

lemma reader_Run_lines:
  assumes "\<forall>ev \<in> set evs. quiet ev"
  shows "reader_Run evs s =
    Reading (snd (decode_all line_dec (concat (map bytes_of evs))))
      (fold ProcessItem (fst (decode_all line_dec (concat (map bytes_of evs)))) s)"
  using read_loop_quiet [OF assms, of "[]" s] line.decode_chunks_concat [of "[]" "map bytes_of evs"]
  by (simp add: reader_Run_def line_dec_None)

section \<open>Acknowledgements\<close>

definition ack_line :: "string \<times> string \<Rightarrow> string" where
  "ack_line a = fst a @ CHR '':'' # snd a"

definition good_ack :: "string \<times> string \<Rightarrow> bool" where
  "good_ack a \<longleftrightarrow> fst a \<noteq> [] \<and> CHR '':'' \<notin> set (fst a) \<and> newline \<notin> set (fst a)
     \<and> snd a \<noteq> [] \<and> newline \<notin> set (snd a)"

lemma ProcessItem_ack:
  "good_ack (tag, st) \<Longrightarrow>
   ProcessItem (ack_line (tag, st)) s = ProcessTagStatus tag st (s\<lparr>m_nTagsRead := m_nTagsRead s + 1\<rparr>)"
  by (simp add: ProcessItem_def ack_line_def good_ack_def find_char_append Let_def)

lemma fold_acks:
  assumes "\<forall>a \<in> set acks. good_ack a" and "r_dataCache s = Some c"
  shows "\<exists>c'. r_dataCache (fold (\<lambda>a. ProcessItem (ack_line a)) acks s) = Some c'
    \<and> map_of c' = without {t. (t, ''0'') \<in> set acks} (map_of c)
    \<and> m_nTagsRead (fold (\<lambda>a. ProcessItem (ack_line a)) acks s) = m_nTagsRead s + length acks"
  using assms
proof (induction acks arbitrary: s c)
  case (Cons a acks)
  obtain tag st where a: "a = (tag, st)" by (cases a)
  let ?s = "ProcessItem (ack_line a) s"
  have good: "good_ack (tag, st)" using Cons.prems a by simp
  have "\<exists>c1. r_dataCache ?s = Some c1 \<and> map_of c1 = without (if st = ''0'' then {tag} else {}) (map_of c)
      \<and> m_nTagsRead ?s = m_nTagsRead s + 1"
    using good Cons.prems(2)
    by (auto simp: a ProcessItem_ack ProcessTagStatus_def erase_tag_def good_ack_def map_erase_def erase_key_def
        map_of_delete without_def)
  then obtain c1 where c1: "r_dataCache ?s = Some c1" "m_nTagsRead ?s = m_nTagsRead s + 1"
    "map_of c1 = without (if st = ''0'' then {tag} else {}) (map_of c)" by blast
  have "without {t. (t, ''0'') \<in> set acks} (map_of c1) = without {t. (t, ''0'') \<in> set (a # acks)} (map_of c)"
    by (auto simp: c1(3) a without_def)
  with Cons.IH [OF _ c1(1)] Cons.prems(1) c1(2) show ?case by auto
qed (simp add: without_def)

lemma reader_Run_acks:
  assumes "\<forall>ev \<in> set evs. quiet ev" and "\<forall>a \<in> set acks. good_ack a"
    and "concat (map bytes_of evs) = concat (map (\<lambda>a. line_enc (ack_line a)) acks)"
  shows "reader_Run evs s = Reading [] (fold (\<lambda>a. ProcessItem (ack_line a)) acks s)"
proof -
  have "decode_all line_dec (concat (map line_enc (map ack_line acks)) @ []) = (map ack_line acks, [])"
    using assms(2) by (intro line.decode_all_stream) (auto simp: good_ack_def ack_line_def line_dec_None)
  then show ?thesis
    using reader_Run_lines [OF assms(1), of s] assms(3) by (simp add: o_def fold_map)
qed

section \<open>Properties\<close>

text \<open>
  How the stream is cut does not matter. For any sequence of reads, including empty
  reads and socket exceptions, the reader has processed exactly the complete lines of the
  bytes received so far, in order and each once, and holds the incomplete last line: the
  result equals that of splitting the whole stream at once.
\<close>

theorem reader_chunking:
  assumes "\<forall>ev \<in> set evs. quiet ev"
  shows "reader_Run evs s =
    Reading (snd (decode_all line_dec (concat (map bytes_of evs))))
      (fold ProcessItem (fst (decode_all line_dec (concat (map bytes_of evs)))) s)"
  by (rule reader_Run_lines [OF assms])

theorem reader_chunking_witness:
  "reader_Run
     [\<lparr>stop_before = False, read_result = Inr (3, ''12:''), stop_after = False\<rparr>,
      \<lparr>stop_before = False, read_result = Inl (Socket_Exception 4 ''poll()''), stop_after = False\<rparr>,
      \<lparr>stop_before = False, read_result = Inr (3, ''0'' @ [newline] @ ''5''), stop_after = False\<rparr>]
     \<lparr>r_dataCache = Some [(''12'', True)], m_nTagsRead = 0, r_errors = []\<rparr>
   = Reading ''5'' (ProcessItem ''12:0'' \<lparr>r_dataCache = Some [(''12'', True)], m_nTagsRead = 0, r_errors = []\<rparr>)"
proof -
  have "decode_all line_dec (''12:0'' @ newline # ''5'') = ([''12:0''], ''5'')"
    using line.decode_all_stream [of "[''12:0'']" "''5''"] by (simp add: line_enc_def line_dec_None)
  then show ?thesis
    by (subst reader_chunking) (simp_all add: quiet_def bytes_of_def)
qed

text \<open>What one line removes: the entry of its tag, if it has no status or the status 0.\<close>

definition acks_tag :: "string \<Rightarrow> string \<Rightarrow> bool" where
  "acks_tag l k \<longleftrightarrow> k \<noteq> [] \<and> CHR '':'' \<notin> set k \<and> (l = k \<or> l = k @ '':0'')"

lemma map_erase_look: "k \<noteq> [] \<Longrightarrow> map_of (snd (map_erase k c)) = without {k} (map_of c)"
  by (auto simp: map_erase_def erase_key_def map_of_delete without_def)

lemma ProcessItem_line:
  assumes "r_dataCache s = Some c"
  shows "\<exists>c'. r_dataCache (ProcessItem l s) = Some c' \<and> map_of c' = without {k. acks_tag l k} (map_of c)
    \<and> m_nTagsRead (ProcessItem l s) = m_nTagsRead s + (if l = [] then 0 else 1)"
proof (cases "find_char CHR '':'' l")
  case None
  then have "CHR '':'' \<notin> set l" by (simp add: find_char_None)
  then have tags: "{k. acks_tag l k} = (if l = [] then {} else {l})" by (auto simp: acks_tag_def)
  show ?thesis
    unfolding tags using None assms
    by (cases "l = []") (simp_all add: ProcessItem_def ProcessTag_def erase_tag_def map_erase_look without_def Let_def)
next
  case (Some p)
  define tag st where "tag = take p l" and "st = drop (Suc p) l"
  have l: "l = tag @ CHR '':'' # st" "CHR '':'' \<notin> set tag" and p: "p = length tag"
    using find_char_SomeD [OF Some] by (simp_all add: tag_def st_def)
  have unique: "k = tag \<and> st = ''0''" if "l = k @ '':0''" "CHR '':'' \<notin> set k" for k
  proof -
    have "find_char CHR '':'' l = Some (length k)" unfolding that(1) by (rule find_char_append) (rule that(2))
    then have "length k = length tag" using Some p by simp
    moreover have "tag @ CHR '':'' # st = k @ CHR '':'' # ''0''" using l(1) that(1) by (rule trans [OF sym])
    ultimately show ?thesis by simp
  qed
  have tags: "{k. acks_tag l k} = (if tag \<noteq> [] \<and> st = ''0'' then {tag} else {})"
  proof (rule set_eqI)
    fix k
    have "CHR '':'' \<in> set l" using l(1) by simp
    then have "acks_tag l k \<longleftrightarrow> k \<noteq> [] \<and> CHR '':'' \<notin> set k \<and> l = k @ '':0''" by (auto simp: acks_tag_def)
    also have "\<dots> \<longleftrightarrow> k \<noteq> [] \<and> k = tag \<and> st = ''0''" using unique l by (metis append_Cons append_Nil)
    finally show "k \<in> {k. acks_tag l k} \<longleftrightarrow> k \<in> (if tag \<noteq> [] \<and> st = ''0'' then {tag} else {})" by auto
  qed
  let ?s = "s\<lparr>m_nTagsRead := m_nTagsRead s + 1\<rparr>"
  have "l \<noteq> []" using l by auto
  then have item: "ProcessItem l s = ProcessTagStatus tag st ?s"
    using Some by (simp add: ProcessItem_def Let_def p l(1))
  have none: "without {} (map_of c) = map_of c" by (simp add: without_def)
  show ?thesis
  proof (cases "tag \<noteq> [] \<and> st = ''0''")
    case True
    then have "ProcessItem l s = erase_tag tag ?s" unfolding item by (simp add: ProcessTagStatus_def)
    with True assms \<open>l \<noteq> []\<close> show ?thesis unfolding tags by (simp add: erase_tag_def map_erase_look)
  next
    case False
    then have "r_dataCache (ProcessItem l s) = Some c" "m_nTagsRead (ProcessItem l s) = m_nTagsRead s + 1"
      unfolding item using assms by (auto simp: ProcessTagStatus_def)
    with False \<open>l \<noteq> []\<close> show ?thesis unfolding tags by (simp only: if_False none) simp
  qed
qed

lemma fold_lines:
  assumes "r_dataCache s = Some c"
  shows "\<exists>c'. r_dataCache (fold ProcessItem ls s) = Some c' \<and> map_of c' = without {k. \<exists>l \<in> set ls. acks_tag l k} (map_of c)
    \<and> m_nTagsRead (fold ProcessItem ls s) = m_nTagsRead s + length (filter (\<lambda>l. l \<noteq> []) ls)"
  using assms
proof (induction ls arbitrary: s c)
  case (Cons l ls)
  obtain c1 where c1: "r_dataCache (ProcessItem l s) = Some c1" "map_of c1 = without {k. acks_tag l k} (map_of c)"
    "m_nTagsRead (ProcessItem l s) = m_nTagsRead s + (if l = [] then 0 else 1)"
    using ProcessItem_line [OF Cons.prems] by blast
  have "without {k. \<exists>l \<in> set ls. acks_tag l k} (map_of c1) = without {k. \<exists>l \<in> set (l # ls). acks_tag l k} (map_of c)"
    by (auto simp: c1(2) without_def)
  with Cons.IH [OF c1(1)] c1(3) show ?case by auto
qed (simp add: without_def)

text \<open>
  C13: exactly the acknowledged items leave the cache. Whatever lines the reads make up, however
  they are cut, with an incomplete line kept at the end: an entry of the cache is removed if
  and only if one of the complete lines is its tag, alone or followed by the status 0; every
  other item, also one acknowledged with an error status, stays to be resent, and each line
  that is not empty has been counted.
\<close>

theorem acked_items_erased:
  assumes "\<forall>ev \<in> set evs. quiet ev" "r_dataCache s = Some c"
    and "concat (map bytes_of evs) = concat (map (\<lambda>l. l @ [newline]) ls) @ rest"
    and "\<forall>l \<in> set ls. newline \<notin> set l" "newline \<notin> set rest"
  shows "\<exists>s' c'. reader_Run evs s = Reading rest s' \<and> r_dataCache s' = Some c'
    \<and> (\<forall>k. map_of c' k =
         (if k \<noteq> [] \<and> CHR '':'' \<notin> set k \<and> (k \<in> set ls \<or> k @ '':0'' \<in> set ls) then None else map_of c k))
    \<and> m_nTagsRead s' = m_nTagsRead s + length (filter (\<lambda>l. l \<noteq> []) ls)"
proof -
  have "concat (map bytes_of evs) = concat (map line_enc ls) @ rest"
    using assms(3) by (simp add: line_enc_def [abs_def])
  then have "decode_all line_dec (concat (map bytes_of evs)) = (ls, rest)"
    using line.decode_all_stream [of ls rest] assms(4,5) by (simp add: line_dec_None)
  then have "reader_Run evs s = Reading rest (fold ProcessItem ls s)"
    using reader_Run_lines [OF assms(1)] by simp
  with fold_lines [OF assms(2), of ls] show ?thesis by (auto simp: without_def acks_tag_def)
qed

theorem acked_items_erased_witness:
  "\<exists>s' c'. reader_Run
      [\<lparr>stop_before = False, read_result = Inr (2, ''5:''), stop_after = False\<rparr>,
       \<lparr>stop_before = False, read_result = Inr (9, ''0'' @ [newline] @ ''6:1'' @ [newline] @ ''7'' @ [newline] @ ''8''), stop_after = False\<rparr>]
      \<lparr>r_dataCache = Some [(''5'', True), (''6'', False), (''7'', True)], m_nTagsRead = 0, r_errors = []\<rparr> = Reading ''8'' s'
    \<and> r_dataCache s' = Some c' \<and> map_of c' ''5'' = None \<and> map_of c' ''6'' = Some False \<and> map_of c' ''7'' = None \<and> m_nTagsRead s' = 3"
  using acked_items_erased
    [of "[\<lparr>stop_before = False, read_result = Inr (2, ''5:''), stop_after = False\<rparr>,
       \<lparr>stop_before = False, read_result = Inr (9, ''0'' @ [newline] @ ''6:1'' @ [newline] @ ''7'' @ [newline] @ ''8''), stop_after = False\<rparr>]"
      "\<lparr>r_dataCache = Some [(''5'', True), (''6'', False), (''7'', True)], m_nTagsRead = 0, r_errors = []\<rparr>" _
      "[''5:0'', ''6:1'', ''7'']" "''8''"]
  by (fastforce simp: quiet_def bytes_of_def)

text \<open>
  A partial acknowledgement survives the loss of its connection. The reader keeps the
  incomplete line when the connection ends (a read of 0 bytes) and prepends it to the
  first bytes of the next connection: here the old connection broke off after \<open>1\<close>, the
  server then acknowledged item 2 on the new one, and item 12, which nobody acknowledged,
  is removed from the cache while item 2 stays.
\<close>

theorem stale_partial_erases_wrong_item:
  "\<exists>s'. reader_Run
      [\<lparr>stop_before = False, read_result = Inr (1, ''1''), stop_after = False\<rparr>,
       \<lparr>stop_before = False, read_result = Inr (0, []), stop_after = False\<rparr>,
       \<lparr>stop_before = False, read_result = Inr (4, ''2:0'' @ [newline]), stop_after = False\<rparr>]
      \<lparr>r_dataCache = Some [(''2'', v), (''12'', w)], m_nTagsRead = 0, r_errors = []\<rparr> = Reading [] s'
    \<and> r_dataCache s' = Some [(''2'', v)]"
proof -
  have "decode_all line_dec (''12:0'' @ newline # []) = ([''12:0''], [])"
    using line.decode_all_stream [of "[''12:0'']" "[]"] by (simp add: line_enc_def line_dec_None)
  then show ?thesis
    by (subst reader_Run_lines)
      (simp_all add: quiet_def bytes_of_def ProcessItem_def ProcessTagStatus_def erase_tag_def
        map_erase_def erase_key_def)
qed

text \<open>
  When the reader stops. A turn ends the reading loop exactly when the stop flag is seen
  at an interruption point, or \<open>Read\<close> reports a stopped client, or \<open>Read\<close> throws anything
  but a socket exception; a lost connection never ends it.
\<close>

theorem reader_turn_ends_iff:
  "(\<forall>p' s'. DoRead ev p s \<noteq> Inr (True, p', s')) \<longleftrightarrow>
     stop_before ev
     \<or> (\<exists>e. read_result ev = Inl e \<and> \<not> is_socket_exception e)
     \<or> (\<exists>b. read_result ev = Inr (-1, b))
     \<or> (\<exists>n b. read_result ev = Inr (n, b) \<and> 0 < n \<and> stop_after ev)"
proof (cases "read_result ev")
  case (Inl e)
  then show ?thesis by (auto simp: DoRead_def)
next
  case (Inr r)
  obtain n b where r: "r = (n, b)" by (cases r)
  obtain p' s' where "ProcessData (p @ c_str (take (nat n) b)) s = (p', s')" by fastforce
  with Inr r show ?thesis by (auto simp: DoRead_def)
qed

end
