(* ===== verification/Reader_Thread.thy ===== *)
theory Reader_Thread
  imports Data_Resender Data_Reader
begin

text \<open>
  The reading thread over the shared state, as both loggers start it: \<open>DataReader::Run\<close> with
  its calls of \<open>SocketClient::Read\<close>. A step is a call of \<open>Read\<close>, or the handling of one
  acknowledgement; the other threads can come in between.
\<close>

section \<open>Steps\<close>

definition new_reader :: "item_ptr reader" where
  "new_reader = \<lparr>r_dataCache = None, m_nTagsRead = 0, r_errors = []\<rparr>"

fun the_reader :: "'v read_run \<Rightarrow> 'v reader" where
  "the_reader (Reading p s) = s"
| "the_reader (Splitting str d iss item s) = s"
| "the_reader (Read_Returned s) = s"
| "the_reader (Read_Threw e s) = s"

text \<open>\<open>ProcessData\<close> up to its loop; an iteration of the loop, or what follows it.\<close>

definition begin_ProcessData :: "string \<Rightarrow> 'v reader \<Rightarrow> 'v read_run" where
  "begin_ProcessData str s =
     (if str = [] then Reading [] s
      else case find_last_char newline str of
             None \<Rightarrow> Reading str s
           | Some dPos \<Rightarrow> Splitting str dPos \<lparr>unread = str, eofbit = False, failbit = False\<rparr> [] s)"

definition item_step :: "string \<Rightarrow> nat \<Rightarrow> istringstream \<Rightarrow> string \<Rightarrow> 'v reader \<Rightarrow> 'v read_run" where
  "item_step str dPos iss item s =
     (let (iss', item') = getline iss item
      in if failbit iss'
         then (if item' \<noteq> [] \<and> dPos = length str - 1 then Reading [] (ProcessItem item' s)
               else Reading (drop (dPos + 1) str) s)
         else Splitting str dPos iss' item' (if eofbit iss' then s else ProcessItem item' s))"

text \<open>\<open>DoRead\<close> up to \<open>ProcessData\<close>, with the handlers of \<open>Run\<close>.\<close>

definition begin_DoRead :: "read_event \<Rightarrow> string \<Rightarrow> 'v reader \<Rightarrow> 'v read_run" where
  "begin_DoRead ev partialData s =
     (if stop_before ev then Read_Returned s
      else case read_result ev of
             Inl e \<Rightarrow> if is_socket_exception e then Reading partialData s
                      else if e = Reader_Interrupt_Exception \<or> is_std_exception e then Read_Returned s
                      else Read_Threw e s
           | Inr (readRtn, buf) \<Rightarrow>
               if readRtn = -1 then Read_Returned s
               else if 0 < readRtn
               then (if stop_after ev then Read_Returned s
                     else begin_ProcessData (partialData @ c_str (take (nat readRtn) buf)) s)
               else Reading partialData s)"

text \<open>
  What \<open>Read\<close> returned is given by the answers of \<open>poll\<close> and \<open>read\<close>; it is not called (and the
  result filled in here not looked at) when the stop flag is seen first. The client is as
  \<open>Read\<close> leaves it.
\<close>

definition as_read_result :: "string option result \<Rightarrow> (int \<times> string) result" where
  "as_read_result res =
     (case res of
        Inl e \<Rightarrow> Inl e
      | Inr None \<Rightarrow> Inr (-1, [])
      | Inr (Some s) \<Rightarrow> Inr (int (length s), s))"

definition reader_Read :: "bool \<Rightarrow> poll_res list \<Rightarrow> read_sys list \<Rightarrow> socket_client \<Rightarrow> string option result option \<times> socket_client" where
  "reader_Read stop1 polls reads c =
     (if stop1 then (Some (Inr None), c)
      else Read False 511 \<lparr>re_entry = c, re_woken = c, re_after = c, re_polls = polls, re_reads = reads\<rparr>)"

fun reader_step ::
  "bool \<Rightarrow> bool \<Rightarrow> poll_res list \<Rightarrow> read_sys list \<Rightarrow> item_ptr read_run \<times> shared \<Rightarrow> item_ptr read_run \<times> shared"
where
  "reader_step stop1 stop2 polls reads (Reading partialData s, sh) =
     (case reader_Read stop1 polls reads (sockClient sh) of
        (None, c') \<Rightarrow> (Reading partialData s, sh)
      | (Some res, c') \<Rightarrow>
          (begin_DoRead \<lparr>stop_before = stop1, read_result = as_read_result res, stop_after = stop2\<rparr> partialData
             (s\<lparr>r_dataCache := dataCache sh\<rparr>), sh\<lparr>sockClient := c'\<rparr>))"
| "reader_step stop1 stop2 polls reads (Splitting str dPos iss item s, sh) =
     (let run' = item_step str dPos iss item (s\<lparr>r_dataCache := dataCache sh\<rparr>)
      in (run', sh\<lparr>dataCache := r_dataCache (the_reader run')\<rparr>))"
| "reader_step stop1 stop2 polls reads (Read_Returned s, sh) = (Read_Returned s, sh)"
| "reader_step stop1 stop2 polls reads (Read_Threw e s, sh) = (Read_Threw e s, sh)"

section \<open>Undisturbed, the steps are a turn of the loop\<close>

definition reader_turn ::
  "bool \<Rightarrow> bool \<Rightarrow> poll_res list \<Rightarrow> read_sys list \<Rightarrow> string \<Rightarrow> item_ptr reader \<Rightarrow> shared \<Rightarrow> item_ptr read_run \<times> shared"
where
  "reader_turn stop1 stop2 polls reads partialData s sh =
     (case reader_Read stop1 polls reads (sockClient sh) of
        (None, c') \<Rightarrow> (Reading partialData s, sh)
      | (Some res, c') \<Rightarrow>
          (let ev = \<lparr>stop_before = stop1, read_result = as_read_result res, stop_after = stop2\<rparr>;
               run' = read_loop [ev] partialData (s\<lparr>r_dataCache := dataCache sh\<rparr>)
           in (run', sh\<lparr>dataCache := r_dataCache (the_reader run'), sockClient := c'\<rparr>)))"

text \<open>The steps left until \<open>ProcessData\<close> returns, and taking them.\<close>

fun split_left :: "'v read_run \<Rightarrow> nat" where
  "split_left (Splitting str dPos iss item s) = (if eofbit iss \<or> failbit iss then 1 else length (unread iss) + 2)"
| "split_left _ = 0"

lemma item_step_left: "split_left (item_step str dPos iss item s) < split_left (Splitting str dPos iss item s')"
  by (auto simp: item_step_def getline_def split: option.split dest!: find_char_SomeD)

function finish_items :: "item_ptr read_run \<times> shared \<Rightarrow> item_ptr read_run \<times> shared" where
  "finish_items (run, sh) =
     (if split_left run = 0 then (run, sh) else finish_items (reader_step False False [] [] (run, sh)))"
  by pat_completeness auto
termination
proof (relation "measure (\<lambda>(run, sh). split_left run)")
  fix run :: "item_ptr read_run" and sh
  assume "split_left run \<noteq> 0"
  then show "(reader_step False False [] [] (run, sh), run, sh) \<in> measure (\<lambda>(run, sh). split_left run)"
    using item_step_left by (cases run) (simp_all add: Let_def del: split_left.simps(1))
qed simp

declare finish_items.simps [simp del]

lemma finish_items_done: "split_left run = 0 \<Longrightarrow> finish_items (run, sh) = (run, sh)"
  by (simp add: finish_items.simps)

lemma finish_Splitting:
  "finish_items (Splitting str dPos iss item s, sh) = finish_items (reader_step False False [] [] (Splitting str dPos iss item s, sh))"
  by (subst finish_items.simps) simp

lemma finish_items_loop:
  "finish_items (Splitting str dPos iss item s, sh) =
     (let (item', s') = item_loop iss item (s\<lparr>r_dataCache := dataCache sh\<rparr>);
          run = (if item' \<noteq> [] \<and> dPos = length str - 1 then Reading [] (ProcessItem item' s')
                 else Reading (drop (dPos + 1) str) s')
      in (run, sh\<lparr>dataCache := r_dataCache (the_reader run)\<rparr>))"
proof (induction "split_left (Splitting str dPos iss item s)" arbitrary: iss item s sh rule: less_induct)
  case less
  let ?s = "s\<lparr>r_dataCache := dataCache sh\<rparr>"
  obtain iss' item' where g: "getline iss item = (iss', item')" by fastforce
  show ?case
  proof (cases "failbit iss'")
    case True
    with g show ?thesis
      by (simp add: finish_Splitting item_step_def item_loop.simps [of iss item] finish_items_done Let_def)
  next
    case False
    let ?s' = "if eofbit iss' then ?s else ProcessItem item' ?s"
    have "split_left (Splitting str dPos iss' item' ?s') < split_left (Splitting str dPos iss item s)"
      using item_step_left [of str dPos iss item ?s s] g False by (simp add: item_step_def)
    from less.hyps [OF this, of "sh\<lparr>dataCache := r_dataCache ?s'\<rparr>"] g False show ?thesis
      by (simp add: finish_Splitting item_step_def item_loop.simps [of iss item] Let_def)
  qed
qed

lemma finish_ProcessData:
  "finish_items (begin_ProcessData str (s\<lparr>r_dataCache := dataCache sh\<rparr>), sh) =
     (let (partialData, s') = ProcessData str (s\<lparr>r_dataCache := dataCache sh\<rparr>)
      in (Reading partialData s', sh\<lparr>dataCache := r_dataCache s'\<rparr>))"
  by (auto simp: begin_ProcessData_def ProcessData_def finish_items_done finish_items_loop Let_def
      split: option.split prod.split)

lemma reader_steps_turn:
  "finish_items (reader_step stop1 stop2 polls reads (Reading partialData s, sh)) =
   reader_turn stop1 stop2 polls reads partialData s sh"
proof (cases "reader_Read stop1 polls reads (sockClient sh)")
  case (Pair ro c')
  show ?thesis
  proof (cases ro)
    case None
    with Pair show ?thesis by (simp add: reader_turn_def finish_items_done)
  next
    case (Some res)
    let ?s = "s\<lparr>r_dataCache := dataCache sh\<rparr>" and ?sh = "sh\<lparr>sockClient := c'\<rparr>"
    let ?ev = "\<lparr>stop_before = stop1, read_result = as_read_result res, stop_after = stop2\<rparr>"
    have "finish_items (begin_DoRead ?ev partialData ?s, ?sh) =
        (let run' = read_loop [?ev] partialData ?s in (run', ?sh\<lparr>dataCache := r_dataCache (the_reader run')\<rparr>))"
      using finish_ProcessData [of _ ?sh s]
      by (cases "as_read_result res") (auto simp: begin_DoRead_def DoRead_def finish_items_done Let_def split: exn.split prod.split)
    with Pair Some show ?thesis by (simp add: reader_turn_def Let_def del: read_loop.simps)
  qed
qed

text \<open>
  Nothing is lost by cutting a turn into steps: with no other thread in between, a call of
  \<open>Read\<close> and the handling of what it returned are a turn of the reading loop.
\<close>

lemma steps_are_turn:
  "finish_items (reader_step stop1 stop2 polls reads (Reading partialData s, sh)) =
   reader_turn stop1 stop2 polls reads partialData s sh"
  by (rule reader_steps_turn)

text \<open>So it is as long as no thread but this one moves: the steps are steps of the thread.\<close>

lemma finish_items_steps: "\<exists>n. finish_items st = (reader_step False False [] [] ^^ n) st"
proof (induction st rule: finish_items.induct)
  case (1 run sh)
  show ?case
  proof (cases "split_left run = 0")
    case True
    then show ?thesis by (intro exI [of _ 0]) (simp add: finish_items.simps)
  next
    case False
    from "1" [OF this] obtain n where
      "finish_items (reader_step False False [] [] (run, sh)) = (reader_step False False [] [] ^^ n) (reader_step False False [] [] (run, sh))"
      by blast
    with False show ?thesis
      by (intro exI [of _ "Suc n"]) (subst finish_items.simps, simp add: funpow_swap1 del: reader_step.simps)
  qed
qed

section \<open>The reader only removes from the cache\<close>

definition cache_sub :: "'v cmap option \<Rightarrow> 'v cmap option \<Rightarrow> bool" where
  "cache_sub c c' \<longleftrightarrow>
     (case c of
        None \<Rightarrow> c' = None
      | Some m \<Rightarrow> (\<exists>m'. c' = Some m' \<and> (cmap_wf m \<longrightarrow> cmap_wf m')
           \<and> (\<forall>k. map_of m' k \<noteq> None \<longrightarrow> map_of m' k = map_of m k)))"

lemma cache_sub_refl: "cache_sub c c"
  by (simp add: cache_sub_def split: option.split)

lemma cache_sub_trans:
  assumes "cache_sub a b" "cache_sub b c"
  shows "cache_sub a c"
proof (cases a)
  case (Some m)
  with assms obtain m1 m2 where "b = Some m1" "c = Some m2"
    and "cmap_wf m \<longrightarrow> cmap_wf m1" "cmap_wf m1 \<longrightarrow> cmap_wf m2"
    and "\<forall>k. map_of m1 k \<noteq> None \<longrightarrow> map_of m1 k = map_of m k"
    and "\<forall>k. map_of m2 k \<noteq> None \<longrightarrow> map_of m2 k = map_of m1 k"
    by (fastforce simp: cache_sub_def)
  with Some show ?thesis by (simp add: cache_sub_def)
qed (use assms in \<open>simp add: cache_sub_def\<close>)

lemma map_erase_sub: "cache_sub (Some m) (Some (snd (map_erase k m)))"
  by (auto simp: cache_sub_def map_erase_def erase_key_def wf_delete map_of_delete)

lemma erase_tag_sub: "cache_sub (r_dataCache s) (r_dataCache (erase_tag t s))"
  by (cases "r_dataCache s") (simp_all add: erase_tag_def map_erase_sub cache_sub_refl)

lemma ProcessItem_sub: "cache_sub (r_dataCache s) (r_dataCache (ProcessItem x s))"
  using erase_tag_sub [of "s\<lparr>m_nTagsRead := m_nTagsRead s + 1\<rparr>"]
  by (simp add: ProcessItem_def ProcessTag_def ProcessTagStatus_def cache_sub_refl Let_def split: option.split)

lemma item_step_sub: "cache_sub (r_dataCache s) (r_dataCache (the_reader (item_step str dPos iss item s)))"
  by (simp add: item_step_def cache_sub_refl ProcessItem_sub Let_def split: prod.split)

lemma begin_DoRead_same: "the_reader (begin_DoRead ev p s) = s"
  by (auto simp: begin_DoRead_def begin_ProcessData_def split: sum.split option.split)

lemma cache_ok_sub:
  assumes "cache_ok sh" "cache_sub (dataCache sh) c"
  shows "cache_ok (sh\<lparr>dataCache := c\<rparr>)"
proof (cases "dataCache sh")
  case None
  with assms(2) show ?thesis by (simp add: cache_sub_def cache_ok_none)
next
  case (Some m)
  with assms(2) obtain m' where m': "c = Some m'" "cmap_wf m \<longrightarrow> cmap_wf m'"
    "\<forall>k. map_of m' k \<noteq> None \<longrightarrow> map_of m' k = map_of m k"
    by (auto simp: cache_sub_def)
  have "map_of m k = Some v" if "map_of m' k = Some v" for k v
    using m'(3) that by (metis option.distinct(1))
  with assms(1) Some m' show ?thesis by (simp add: cache_ok_def)
qed

lemma shared_ok_client: "shared_ok (sh\<lparr>sockClient := c\<rparr>) = shared_ok sh"
  by (simp add: shared_ok_def cache_ok_def split: option.split)

lemma same_items_client: "same_items sh (sh\<lparr>sockClient := c\<rparr>)"
  by (simp add: same_items_def)

lemma same_items_cache:
  "cache_sub (dataCache sh) c \<Longrightarrow> same_items sh (sh\<lparr>dataCache := c, sockClient := cl\<rparr>)"
  by (cases "dataCache sh") (auto simp: same_items_def cache_sub_def tag_list_def on_record_def)

lemma reader_step_frame:
  assumes "reader_step stop1 stop2 polls reads (run, sh) = (run', sh')"
  shows "cache_sub (dataCache sh) (dataCache sh')"
    and "items sh' = items sh" "wire sh' = wire sh" "schema_ids sh' = schema_ids sh"
proof -
  have "cache_sub (dataCache sh) (dataCache sh') \<and> items sh' = items sh \<and> wire sh' = wire sh \<and> schema_ids sh' = schema_ids sh"
  proof (cases run)
    case (Splitting str dPos iss item s)
    with assms item_step_sub [of "s\<lparr>r_dataCache := dataCache sh\<rparr>" str dPos iss item] show ?thesis
      by (auto simp: Let_def)
  qed (use assms in \<open>auto simp: cache_sub_refl split: option.splits prod.splits\<close>)
  then show "cache_sub (dataCache sh) (dataCache sh')" "items sh' = items sh" "wire sh' = wire sh" "schema_ids sh' = schema_ids sh"
    by simp_all
qed

lemma reader_step_ok:
  assumes "reader_step stop1 stop2 polls reads (run, sh) = (run', sh')" "shared_ok sh"
  shows "shared_ok sh'" "same_items sh sh'"
proof -
  note frame = reader_step_frame [OF assms(1)]
  have "sh' = sh\<lparr>dataCache := dataCache sh', sockClient := sockClient sh'\<rparr>" using frame by simp
  moreover have "shared_ok (sh\<lparr>dataCache := dataCache sh'\<rparr>)"
    using assms(2) cache_ok_sub [OF _ frame(1)] by (simp add: shared_ok_def)
  ultimately show "shared_ok sh'" "same_items sh sh'"
    using same_items_cache [OF frame(1)] shared_ok_client by metis+
qed

lemma cache_sub_dom: "cache_sub (dataCache sh) (dataCache sh') \<Longrightarrow> dom (map_of (the_cache sh')) \<subseteq> dom (map_of (the_cache sh))"
proof (cases "dataCache sh")
  case (Some m)
  assume "cache_sub (dataCache sh) (dataCache sh')"
  with Some obtain m' where "dataCache sh' = Some m'" "\<forall>k. map_of m' k \<noteq> None \<longrightarrow> map_of m' k = map_of m k"
    by (auto simp: cache_sub_def)
  with Some show ?thesis by (auto simp: the_cache_def)
qed (simp add: cache_sub_def the_cache_def)

text \<open>An acknowledgement removes no other key than its tag, and that only with status 0 or without one.\<close>

lemma erase_tag_removes:
  "r_dataCache s = Some m \<Longrightarrow> r_dataCache (erase_tag t s) = Some m' \<Longrightarrow> map_of m k \<noteq> None \<Longrightarrow> map_of m' k = None \<Longrightarrow> t = k"
  by (auto simp: erase_tag_def map_erase_def erase_key_def map_of_delete split: if_splits)

lemma ProcessItem_removes:
  assumes "r_dataCache s = Some m" "r_dataCache (ProcessItem x s) = Some m'" "map_of m k \<noteq> None" "map_of m' k = None"
  shows "x = k \<or> x = k @ '':0''"
proof -
  let ?s = "s\<lparr>m_nTagsRead := m_nTagsRead s + 1\<rparr>"
  have s: "r_dataCache ?s = Some m" using assms(1) by simp
  have same: "m' = m \<Longrightarrow> False" using assms(3,4) by simp
  show ?thesis
  proof (cases "find_char CHR '':'' x")
    case None
    then show ?thesis
      using assms(1,2) same erase_tag_removes [OF s _ assms(3,4), of x]
      by (auto simp: ProcessItem_def ProcessTag_def Let_def split: if_splits)
  next
    case (Some p)
    have "r_dataCache (ProcessTagStatus (take p x) (drop (p + 1) x) ?s) = Some m'" "x \<noteq> []"
      using assms(1,2) same Some by (auto simp: ProcessItem_def Let_def split: if_splits)
    then have "drop (p + 1) x = ''0''" "r_dataCache (erase_tag (take p x) ?s) = Some m'"
      using s same by (auto simp: ProcessTagStatus_def split: if_splits)
    moreover from this(2) have "take p x = k" by (rule erase_tag_removes [OF s _ assms(3,4)])
    moreover have "x = take p x @ CHR '':'' # drop (p + 1) x" using find_char_SomeD [OF Some] by (simp add: id_take_nth_drop)
    ultimately show ?thesis by (metis append_Cons)
  qed
qed

lemma reader_step_removes:
  assumes "reader_step stop1 stop2 polls reads (run, sh) = (run', sh')"
    "map_of (the_cache sh) k \<noteq> None" "map_of (the_cache sh') k = None"
  obtains str dPos iss item s where "run = Splitting str dPos iss item s"
    "snd (getline iss item) = k \<or> snd (getline iss item) = k @ '':0''"
proof (cases run)
  case (Splitting str dPos iss item s)
  let ?s = "s\<lparr>r_dataCache := dataCache sh\<rparr>"
  obtain m where m: "dataCache sh = Some m" using assms(2) by (auto simp: the_cache_def split: option.splits)
  have "dataCache sh' = r_dataCache (the_reader (item_step str dPos iss item ?s))"
    using assms(1) Splitting by (auto simp: Let_def)
  moreover obtain m' where m': "dataCache sh' = Some m'"
    using reader_step_frame(1) [OF assms(1)] m by (auto simp: cache_sub_def)
  moreover have "map_of m k \<noteq> None" "map_of m' k = None" using m m' assms(2,3) by (simp_all add: the_cache_def)
  ultimately have "r_dataCache (ProcessItem (snd (getline iss item)) ?s) = Some m'"
    using m by (auto simp: item_step_def Let_def split: prod.splits if_splits)
  with \<open>map_of m k \<noteq> None\<close> \<open>map_of m' k = None\<close> m show thesis
    using that [OF Splitting] ProcessItem_removes [of ?s m "snd (getline iss item)" m' k] by simp
qed (use assms in \<open>auto simp: the_cache_def split: option.splits prod.splits\<close>)

end
