(* ===== verification/Buffered_Logger.thy ===== *)
theory Buffered_Logger
  imports Reader_Thread
begin

text \<open>
  \<open>src/src/outmdsd/BufferedLogger.h\<close> and \<open>BufferedLogger.cc\<close>: the logger object and the
  step relation of the whole: the callers of its functions, the sender, the resender and
  the reader interleave freely.
\<close>

section \<open>The object\<close>

record logger =
  lg_shared :: shared
  m_incomingQueue :: "item_ptr cqueue"
  m_dataSender :: data_sender
  m_sockReader :: "item_ptr read_run"
  m_stopRead :: bool
  m_dataResender :: "data_resender option"
  m_started :: bool
  m_destructing :: nat
  s_counter :: counter

definition new_buffered_logger ::
  "string \<Rightarrow> 32 word \<Rightarrow> 32 word \<Rightarrow> 32 word \<Rightarrow> nat \<Rightarrow> counter \<Rightarrow> idmgr \<Rightarrow> logger result"
where
  "new_buffered_logger socketFile ackTimeoutMS resendIntervalMS connRetryTimeoutMS bufferLimit c ids =
     (case new_unix_client socketFile connRetryTimeoutMS of
        Inl e \<Rightarrow> Inl e
      | Inr client \<Rightarrow>
        (case (if ackTimeoutMS \<noteq> 0
               then case new_data_resender ackTimeoutMS resendIntervalMS of
                      Inl e \<Rightarrow> Inl e | Inr r \<Rightarrow> Inr (Some r)
               else Inr None) of
           Inl e \<Rightarrow> Inl e
         | Inr resender \<Rightarrow>
             Inr \<lparr>lg_shared = \<lparr>items = [], schema_ids = ids,
                                dataCache = (if ackTimeoutMS \<noteq> 0 then Some [] else None),
                                sockClient = client, wire = []\<rparr>,
                  m_incomingQueue = new_queue bufferLimit, m_dataSender = new_data_sender,
                  m_sockReader = Reading [] new_reader, m_stopRead = False, m_dataResender = resender,
                  m_started = False, m_destructing = 0, s_counter = c\<rparr>))"

text \<open>
  \<open>AddData\<close>: a null item is refused; the first call starts the worker threads.
\<close>

definition bl_AddData :: "item_ptr \<Rightarrow> logger \<Rightarrow> unit result \<times> logger" where
  "bl_AddData item w =
     (if item = None then (Inl (Invalid_Argument ''AddData(): unexpected NULL in input parameter.''), w)
      else (Inr (), w\<lparr>m_started := True, m_incomingQueue := push item (m_incomingQueue w)\<rparr>))"

text \<open>
  \<open>WaitUntilAllSend\<close>: it stops the queue once empty, then waits for the sender's future. If
  no item was ever added there is no future; waiting on an invalid one is undefined, and
  libstdc++ throws \<open>future_error\<close>. The second part is what it returns when its time is up
  or the sender has ended.
\<close>

definition WaitUntilAllSend_begin :: "logger \<Rightarrow> unit result \<times> logger" where
  "WaitUntilAllSend_begin w =
     (if m_started w then Inr () else Inl Future_Error,
      w\<lparr>m_incomingQueue := stop_once_empty (m_incomingQueue w)\<rparr>)"

definition WaitUntilAllSend_end :: "logger \<Rightarrow> bool" where
  "WaitUntilAllSend_end w = is_done (s_pc (m_dataSender w))"

text \<open>\<open>DataReader::Stop\<close>; the flag is kept with the logger. Then the destructor, one call per step.\<close>

definition reader_Stop :: "logger \<Rightarrow> logger" where
  "reader_Stop w = w\<lparr>m_stopRead := True\<rparr>"

definition destructor_step :: "logger \<Rightarrow> logger" where
  "destructor_step w =
     (let w' = w\<lparr>m_destructing := m_destructing w + 1\<rparr>
      in if m_destructing w = 0
         then w'\<lparr>lg_shared := (lg_shared w)\<lparr>sockClient := client_Stop (sockClient (lg_shared w))\<rparr>\<rparr>
         else if m_destructing w = 1 then w'\<lparr>m_incomingQueue := stop_once_empty (m_incomingQueue w)\<rparr>
         else if m_destructing w = 2 then w'\<lparr>m_dataSender := sender_Stop (m_dataSender w)\<rparr>
         else if m_destructing w = 3 then w'\<lparr>m_dataResender := map_option resender_Stop (m_dataResender w)\<rparr>
         else if m_destructing w = 4 then reader_Stop w'
         else w)"

declare reader_Stop_def [simp]

definition bl_GetNumTagsRead :: "logger \<Rightarrow> nat" where
  "bl_GetNumTagsRead w = reader_GetNumTagsRead (the_reader (m_sockReader w))"

definition bl_GetTotalResend :: "logger \<Rightarrow> nat" where
  "bl_GetTotalResend w = (case m_dataResender w of None \<Rightarrow> 0 | Some r \<Rightarrow> GetTotalSendTimes r)"

definition bl_GetTotalSend :: "logger \<Rightarrow> nat" where
  "bl_GetTotalSend w = GetNumSend (m_dataSender w) + bl_GetTotalResend w"

definition bl_GetTotalSendSuccess :: "logger \<Rightarrow> nat" where
  "bl_GetTotalSendSuccess w = GetNumSuccess (m_dataSender w)"

definition bl_GetNumItemsInCache :: "logger \<Rightarrow> nat" where
  "bl_GetNumItemsInCache w = (case dataCache (lg_shared w) of None \<Rightarrow> 0 | Some m \<Rightarrow> map_size m)"

section \<open>Steps of the threads\<close>

text \<open>A caller makes an item, of any source, schema text and fields, and adds it.\<close>

definition caller_adds :: "int \<Rightarrow> string \<Rightarrow> string \<Rightarrow> item_info list \<Rightarrow> logger \<Rightarrow> logger" where
  "caller_adds now source schemaAndData svlist w =
     (let (item, c') = new_djson_item_with now source schemaAndData (s_counter w);
          (p, sh') = alloc_item (item\<lparr>m_svlist := svlist\<rparr>) (lg_shared w)
      in snd (bl_AddData p (w\<lparr>lg_shared := sh', s_counter := c'\<rparr>)))"

definition sender_thread :: "thread_input \<Rightarrow> logger \<Rightarrow> logger" where
  "sender_thread inp w =
     (let (ds, q, sh) = sender_step inp (m_dataSender w, m_incomingQueue w, lg_shared w)
      in w\<lparr>m_dataSender := ds, m_incomingQueue := q, lg_shared := sh\<rparr>)"

definition resender_thread :: "thread_input \<Rightarrow> logger \<Rightarrow> logger" where
  "resender_thread inp w =
     (case m_dataResender w of
        None \<Rightarrow> w
      | Some r \<Rightarrow> (let (r', sh) = resender_step inp (r, lg_shared w)
                   in w\<lparr>m_dataResender := Some r', lg_shared := sh\<rparr>))"

definition reader_thread :: "bool \<Rightarrow> bool \<Rightarrow> poll_res list \<Rightarrow> read_sys list \<Rightarrow> logger \<Rightarrow> logger" where
  "reader_thread stop1 stop2 polls reads w =
     (let (run, sh) = reader_step stop1 stop2 polls reads (m_sockReader w, lg_shared w)
      in w\<lparr>m_sockReader := run, lg_shared := sh\<rparr>)"

text \<open>A flag seen set is set.\<close>

definition honest :: "thread_input \<Rightarrow> logger \<Rightarrow> bool" where
  "honest inp w \<longleftrightarrow> (\<forall>r \<in> set (in_sends inp). sr_stop r \<longrightarrow> m_stopClient (sockClient (lg_shared w)))"

inductive lstep :: "logger \<Rightarrow> logger \<Rightarrow> bool" where
  add: "m_destructing w = 0 \<Longrightarrow> lstep w (caller_adds now source sad svlist w)"
| other_item: "lstep w (w\<lparr>s_counter := s_counter w + 1\<rparr>)"
| wait_all: "m_destructing w = 0 \<Longrightarrow> lstep w (snd (WaitUntilAllSend_begin w))"
| sender: "m_started w \<Longrightarrow> honest inp w \<Longrightarrow> lstep w (sender_thread inp w)"
| resender: "m_started w \<Longrightarrow> honest inp w \<Longrightarrow> lstep w (resender_thread inp w)"
| reader: "m_started w \<Longrightarrow> (stop1 \<longrightarrow> m_stopRead w) \<Longrightarrow> (stop2 \<longrightarrow> m_stopRead w)
    \<Longrightarrow> lstep w (reader_thread stop1 stop2 polls reads w)"
| destructor: "lstep w (destructor_step w)"

text \<open>States a constructed logger can be in.\<close>

inductive reachable :: "logger \<Rightarrow> bool" where
  init: "new_buffered_logger socketFile ackMS resendMS connMS limit c ids = Inr w \<Longrightarrow> reachable w"
| step: "reachable w \<Longrightarrow> lstep w w' \<Longrightarrow> reachable w'"

section \<open>The invariant of the logger\<close>

text \<open>
  Items are numbered in the order of \<open>AddData\<close>. The queue holds the items from some number
  on, all of them to the last; as long as the sender has not been stopped, and without a
  limit, each earlier one has been handed to \<open>Send\<close> or is in the sender's hands.
\<close>

definition logger_ok :: "logger \<Rightarrow> bool" where
  "logger_ok w \<longleftrightarrow>
     sender_ok (m_dataSender w) (m_incomingQueue w) (lg_shared w)
     \<and> (\<forall>r. m_dataResender w = Some r \<longrightarrow> rs_pc_ok (lg_shared w) (rs_pc r))
     \<and> within_limit (m_incomingQueue w)
     \<and> (\<exists>k \<le> length (items (lg_shared w)).
          data_queue (m_incomingQueue w) = map Some [k..<length (items (lg_shared w))])
     \<and> (m_maxSize (m_incomingQueue w) = 0
        \<and> (\<not> is_done (s_pc (m_dataSender w)) \<or> s_pc (m_dataSender w) = S_Done Queue_Aborted) \<longrightarrow>
          m_numSend (m_dataSender w) + unsent (s_pc (m_dataSender w)) + length (data_queue (m_incomingQueue w))
          = length (items (lg_shared w)))"

lemma logger_ok_init:
  assumes "new_buffered_logger socketFile ackMS resendMS connMS limit c ids = Inr w"
  shows "logger_ok w"
proof -
  have "rs_pc r = R_Loop" if "m_dataResender w = Some r" for r
    using assms that
    by (auto simp: new_buffered_logger_def new_data_resender_def split: sum.splits if_splits)
  moreover obtain cl where "lg_shared w = \<lparr>items = [], schema_ids = ids,
      dataCache = (if ackMS \<noteq> 0 then Some [] else None), sockClient = cl, wire = []\<rparr>"
    "m_incomingQueue w = new_queue limit" "m_dataSender w = new_data_sender"
    using assms by (auto simp: new_buffered_logger_def split: sum.splits)
  ultimately show ?thesis
    by (simp add: logger_ok_def sender_ok_def shared_ok_def cache_ok_def wire_ok_def queue_live_def
        new_queue_def new_data_sender_def within_limit_def)
qed

lemma pc_ok_alloc: "pc_ok sh pc \<Longrightarrow> pc_ok (snd (alloc_item item sh)) pc"
  using alloc_record [of sh _ item] by (cases pc) (auto simp: alloc_item_def)

lemma rs_pc_ok_alloc: "rs_pc_ok sh pc \<Longrightarrow> rs_pc_ok (snd (alloc_item item sh)) pc"
  using alloc_record [of sh _ item] by (cases pc) (auto simp: alloc_item_def all_live_def)

lemma push_range:
  assumes "data_queue q = map Some [k..<n]" "k \<le> n" "within_limit q"
  shows "\<exists>k' \<le> Suc n. data_queue (push (Some n) q) = map Some [k'..<Suc n]"
    and "m_maxSize q = 0 \<Longrightarrow> length (data_queue (push (Some n) q)) = Suc (length (data_queue q))"
proof -
  show "\<exists>k' \<le> Suc n. data_queue (push (Some n) q) = map Some [k'..<Suc n]"
  proof (cases "is_full q")
    case True
    then have "k < n" using assms by (auto simp: is_full_def)
    then have "data_queue (push (Some n) q) = map Some [Suc k..<Suc n]"
      using assms(1) True by (simp add: push_def Let_def upt_rec [of k])
    with \<open>k < n\<close> show ?thesis by (intro exI [of _ "Suc k"]) simp
  next
    case False
    then have "data_queue (push (Some n) q) = map Some [k..<Suc n]"
      using assms by (simp add: push_def Let_def)
    with assms(2) show ?thesis by (intro exI [of _ k]) simp
  qed
  show "length (data_queue (push (Some n) q)) = Suc (length (data_queue q))" if "m_maxSize q = 0"
    using that by (simp add: push_def Let_def is_full_def)
qed

lemma logger_ok_add:
  assumes "logger_ok w"
  shows "logger_ok (caller_adds now source sad svlist w)"
proof -
  let ?sh = "lg_shared w" and ?q = "m_incomingQueue w" and ?n = "length (items (lg_shared w))"
  obtain item c' where i: "new_djson_item_with now source sad (s_counter w) = (item, c')" by fastforce
  define sh' where "sh' = snd (alloc_item (item\<lparr>m_svlist := svlist\<rparr>) ?sh)"
  have w': "caller_adds now source sad svlist w =
      w\<lparr>lg_shared := sh', s_counter := c', m_started := True, m_incomingQueue := push (Some ?n) ?q\<rparr>"
    by (simp add: caller_adds_def i bl_AddData_def sh'_def alloc_item_def)
  have len: "length (items sh') = Suc ?n" by (simp add: sh'_def alloc_item_def)
  obtain k where k: "k \<le> ?n" "data_queue ?q = map Some [k..<?n]" and lim: "within_limit ?q"
    using assms by (auto simp: logger_ok_def)
  note range = push_range [OF k(2,1) lim]
  have live: "queue_live (push (Some ?n) ?q) sh'"
    using range(1) by (auto simp: queue_live_def len)
  have "sender_ok (m_dataSender w) (push (Some ?n) ?q) sh'"
    using assms live pc_ok_alloc shared_ok_alloc by (simp add: logger_ok_def sender_ok_def sh'_def)
  moreover have "within_limit (push (Some ?n) ?q)" "m_maxSize (push (Some ?n) ?q) = m_maxSize ?q"
    using lim by (auto intro: within_limit_intros simp: queue_simps)
  moreover have "\<forall>r. m_dataResender w = Some r \<longrightarrow> rs_pc_ok sh' (rs_pc r)"
    using assms rs_pc_ok_alloc by (simp add: logger_ok_def sh'_def)
  ultimately show ?thesis
    using assms range len by (simp add: logger_ok_def w')
qed

lemma logger_ok_sender:
  assumes "logger_ok w"
  shows "logger_ok (sender_thread inp w)"
proof -
  let ?ds = "m_dataSender w" and ?q = "m_incomingQueue w" and ?sh = "lg_shared w"
  obtain ds' q' sh' where st: "sender_step inp (?ds, ?q, ?sh) = (ds', q', sh')" by (metis prod_cases3)
  have ok: "sender_ok ?ds ?q ?sh" using assms by (simp add: logger_ok_def)
  have spec: "sender_step_spec (?ds, ?q, ?sh) (ds', q', sh')"
    using sender_step_ok [OF ok, of inp] st by simp
  then obtain n where n: "data_queue q' = drop n (data_queue ?q)"
    "\<not> is_done (s_pc ds') \<or> s_pc ds' = S_Done Queue_Aborted \<longrightarrow>
       m_numSend ds' + unsent (s_pc ds') = m_numSend ?ds + unsent (s_pc ?ds) + n"
    "n \<le> length (data_queue ?q)" "is_done (s_pc ?ds) \<longrightarrow> s_pc ds' = s_pc ?ds"
    and s: "sender_ok ds' q' sh'" "same_items ?sh sh'" "m_maxSize q' = m_maxSize ?q"
    by (auto simp: sender_step_spec_def)
  obtain k where k: "k \<le> length (items ?sh)" "data_queue ?q = map Some [k..<length (items ?sh)]"
    using assms by (auto simp: logger_ok_def)
  have len: "length (items sh') = length (items ?sh)" using s(2) by (simp add: same_items_def)
  have "\<exists>k' \<le> length (items ?sh). data_queue q' = map Some [k'..<length (items ?sh)]"
    using k n(1) by (intro exI [of _ "min (length (items ?sh)) (k + n)"]) (auto simp: drop_map min_def)
  moreover have "within_limit q'"
    using assms s(3) n(1) by (auto simp: logger_ok_def within_limit_def)
  moreover have "\<forall>r. m_dataResender w = Some r \<longrightarrow> rs_pc_ok sh' (rs_pc r)"
    using assms rs_pc_ok_same [OF _ s(2)] by (simp add: logger_ok_def)
  moreover have "m_numSend ds' + unsent (s_pc ds') + length (data_queue q') = length (items ?sh)"
    if "m_maxSize q' = 0 \<and> (\<not> is_done (s_pc ds') \<or> s_pc ds' = S_Done Queue_Aborted)"
    using assms that n s(3) by (auto simp: logger_ok_def)
  ultimately show ?thesis
    using s(1) st len by (simp add: logger_ok_def sender_thread_def)
qed

text \<open>A change of the cache or the client alone.\<close>

lemma logger_ok_shared:
  assumes "logger_ok w" "shared_ok sh" "same_items (lg_shared w) sh"
  shows "logger_ok (w\<lparr>lg_shared := sh\<rparr>)"
  using assms pc_ok_same [OF _ assms(3)] rs_pc_ok_same [OF _ assms(3)] queue_live_same [OF _ assms(3)]
  by (simp add: logger_ok_def sender_ok_def same_items_def)

lemma logger_ok_resender:
  assumes "logger_ok w"
  shows "logger_ok (resender_thread inp w)"
proof (cases "m_dataResender w")
  case (Some r)
  let ?sh = "lg_shared w"
  obtain r' sh' where st: "resender_step inp (r, ?sh) = (r', sh')" by fastforce
  have "shared_ok ?sh" "rs_pc_ok ?sh (rs_pc r)"
    using assms Some by (simp_all add: logger_ok_def sender_ok_def)
  from resender_step_ok [OF this, of inp] st
  have spec: "shared_ok sh'" "rs_pc_ok sh' (rs_pc r')" "same_items ?sh sh'"
    by (simp_all add: resender_step_spec_def)
  have "logger_ok (w\<lparr>lg_shared := sh'\<rparr>)" by (rule logger_ok_shared [OF assms spec(1,3)])
  with spec(2) Some st show ?thesis by (simp add: resender_thread_def logger_ok_def)
qed (use assms in \<open>simp add: resender_thread_def\<close>)

lemma logger_ok_reader:
  assumes "logger_ok w"
  shows "logger_ok (reader_thread stop1 stop2 polls reads w)"
proof -
  obtain run sh where t: "reader_step stop1 stop2 polls reads (m_sockReader w, lg_shared w) = (run, sh)" by fastforce
  have "shared_ok (lg_shared w)" using assms by (simp add: logger_ok_def sender_ok_def)
  then have "logger_ok (w\<lparr>lg_shared := sh\<rparr>)" by (intro logger_ok_shared [OF assms] reader_step_ok [OF t])
  then show ?thesis by (simp add: reader_thread_def t logger_ok_def)
qed

lemma logger_ok_stop_once_empty:
  "logger_ok w \<Longrightarrow> logger_ok (w\<lparr>m_incomingQueue := stop_once_empty (m_incomingQueue w)\<rparr>)"
  by (simp add: logger_ok_def sender_ok_def queue_live_def stop_once_empty_def within_limit_def)

lemma logger_ok_destructor: "logger_ok w \<Longrightarrow> logger_ok (destructor_step w)"
proof -
  assume ok: "logger_ok w"
  have "logger_ok (w\<lparr>lg_shared := (lg_shared w)\<lparr>sockClient := c\<rparr>\<rparr>)" for c
    by (rule logger_ok_shared [OF ok]) (use ok in \<open>simp_all add: shared_ok_client same_items_client logger_ok_def sender_ok_def\<close>)
  moreover have "\<forall>r. map_option resender_Stop (m_dataResender w) = Some r \<longrightarrow> rs_pc_ok (lg_shared w) (rs_pc r)"
    using ok by (auto simp: logger_ok_def resender_Stop_def)
  ultimately show ?thesis
    using ok logger_ok_stop_once_empty [OF ok]
    by (simp add: destructor_step_def Let_def logger_ok_def sender_ok_def sender_Stop_def)
qed

lemma logger_ok_step: "lstep w w' \<Longrightarrow> logger_ok w \<Longrightarrow> logger_ok w'"
proof (induction rule: lstep.induct)
  case (other_item w)
  then show ?case by (simp add: logger_ok_def)
next
  case (wait_all w)
  from logger_ok_stop_once_empty [OF wait_all(2)] show ?case by (simp add: WaitUntilAllSend_begin_def)
qed (simp_all add: logger_ok_add logger_ok_sender logger_ok_resender logger_ok_reader logger_ok_destructor)

lemma reachable_ok: "reachable w \<Longrightarrow> logger_ok w"
  by (induction rule: reachable.induct) (auto intro: logger_ok_init logger_ok_step)

section \<open>Runs\<close>

definition sample_logger :: "32 word \<Rightarrow> nat \<Rightarrow> logger" where
  "sample_logger ackMS limit =
     (case new_buffered_logger ''/s'' ackMS 10 1000 limit 0 [] of Inr w \<Rightarrow> w)"

lemma sample_logger_new: "new_buffered_logger ''/s'' ackMS 10 1000 limit 0 [] = Inr (sample_logger ackMS limit)"
  by (simp add: sample_logger_def new_buffered_logger_def new_unix_client_def UnixSockAddr_def
      sun_path_size_def new_data_resender_def)

lemma sample_logger_reachable: "reachable (sample_logger ackMS limit)"
  by (rule reachable.init [OF sample_logger_new])


text \<open>Steps as data, so that a run is evaluated.\<close>

datatype action =
    A_Add string string
  | A_Sender thread_input
  | A_Resender thread_input
  | A_Reader "poll_res list" "read_sys list"
  | A_Wait_All

fun act :: "action \<Rightarrow> logger \<Rightarrow> logger" where
  "act (A_Add source sad) w = caller_adds 0 source sad [] w"
| "act (A_Sender inp) w = sender_thread inp w"
| "act (A_Resender inp) w = resender_thread inp w"
| "act (A_Reader polls reads) w = reader_thread False False polls reads w"
| "act A_Wait_All w = snd (WaitUntilAllSend_begin w)"

fun act_ok :: "action \<Rightarrow> bool" where
  "act_ok (A_Sender inp) = list_all (\<lambda>r. \<not> sr_stop r) (in_sends inp)"
| "act_ok (A_Resender inp) = list_all (\<lambda>r. \<not> sr_stop r) (in_sends inp)"
| "act_ok _ = True"

lemma act_frame:
  "m_destructing (act a w) = m_destructing w" "m_started w \<Longrightarrow> m_started (act a w)"
  by (cases a; auto simp: caller_adds_def bl_AddData_def sender_thread_def resender_thread_def reader_thread_def
      WaitUntilAllSend_begin_def Let_def split: prod.split option.split)+

lemma act_reachable:
  assumes "reachable w" "m_destructing w = 0" "act_ok a" "m_started w \<or> (\<exists>s d. a = A_Add s d)"
  shows "reachable (act a w)"
proof -
  have "lstep w (act a w)"
    using assms(2-4)
    by (cases a) (auto simp: honest_def list_all_iff intro: lstep.intros)
  with assms(1) show ?thesis by (rule reachable.step)
qed

lemma acts_reachable:
  "reachable w \<Longrightarrow> m_destructing w = 0 \<Longrightarrow> list_all act_ok as \<Longrightarrow> m_started w \<Longrightarrow> reachable (fold act as w)"
  by (induction as arbitrary: w) (simp_all add: act_reachable act_frame)

lemma add_started: "m_started (act (A_Add s d) w)"
  by (simp add: caller_adds_def bl_AddData_def alloc_item_def split: prod.split)

lemma run_reachable:
  assumes "reachable w" "m_destructing w = 0" "list_all act_ok as"
  shows "reachable (fold act (A_Add s d # as) w)"
  using act_reachable [OF assms(1,2), of "A_Add s d"] acts_reachable [OF _ _ assms(3)] assms(2)
  by (simp add: act_frame add_started del: act.simps)

text \<open>
  A run: two items are added; the sender puts the first into the cache; the resender
  wakes up, sends it from there, and the server acknowledges it.
\<close>

lemma sample_logger_destructing: "m_destructing (sample_logger ackMS limit) = 0"
  by (simp add: sample_logger_def new_buffered_logger_def new_unix_client_def UnixSockAddr_def
      sun_path_size_def new_data_resender_def)

definition race_rest :: "action list" where
  "race_rest =
     A_Add ''s'' ''E'' #
     replicate 4 (A_Sender (good_input 20)) @
     replicate 8 (A_Resender (good_input 20)) @
     A_Reader [Poll_Ok POLLIN 0] [Read_Ok (''1:0'' @ [newline])] # A_Reader [] [] #
     A_Sender (good_input 20) # A_Wait_All # []"

definition race_state :: "nat \<Rightarrow> logger" where
  "race_state n = fold act (A_Add ''s'' ''D'' # take n race_rest) (sample_logger 1000 0)"

lemma race_reachable: "reachable (race_state n)"
proof -
  have "list_all act_ok race_rest"
    by (simp add: race_rest_def list_all_iff) (simp add: good_input_def accepting_def)
  then have "list_all act_ok (take n race_rest)"
    by (auto simp: list_all_iff dest: in_set_takeD)
  then show ?thesis
    unfolding race_state_def by (rule run_reachable [OF sample_logger_reachable sample_logger_destructing])
qed

lemma race_step: "n < length race_rest \<Longrightarrow> race_state (Suc n) = act (race_rest ! n) (race_state n)"
  by (simp add: race_state_def take_Suc_conv_app_nth)

section \<open>Properties\<close>

text \<open>
  Constructing a logger fails exactly for a socket path that is empty or longer than 108
  bytes, a connection timeout of 0, or a cache (a non-zero acknowledgement timeout) with a
  resend interval of 0; the exception is \<open>invalid_argument\<close> each time.
\<close>

theorem buffered_logger_errors:
  "(\<exists>e. new_buffered_logger f ackMS resendMS connMS limit c ids = Inl e) \<longleftrightarrow>
     f = [] \<or> 108 < length f \<or> connMS = 0 \<or> ackMS \<noteq> 0 \<and> resendMS = 0"
  by (auto simp: new_buffered_logger_def new_unix_client_def UnixSockAddr_def new_data_resender_def sun_path_size_def)

text \<open>
  C5: in every reachable state of the logger, whatever the interleaving of its callers and
  threads: the sender never dereferences a null pointer; every cached entry is a live item
  under that item's own tag, so an acknowledgement removes the item it names; and at most
  as many sends have succeeded as were tried.
\<close>

theorem logger_safe:
  assumes "reachable w"
  shows "s_pc (m_dataSender w) \<noteq> S_Null_Deref
    \<and> (\<forall>m k v. dataCache (lg_shared w) = Some m \<and> map_of m k = Some v \<longrightarrow>
         (\<exists>p. v = Some p \<and> p < length (items (lg_shared w)) \<and> GetTag (items (lg_shared w) ! p) = k))
    \<and> bl_GetTotalSendSuccess w \<le> m_numSend (m_dataSender w)"
proof -
  have ok: "sender_ok (m_dataSender w) (m_incomingQueue w) (lg_shared w)"
    using reachable_ok [OF assms] by (simp add: logger_ok_def)
  then have "s_pc (m_dataSender w) \<noteq> S_Null_Deref" by (auto simp: sender_ok_def)
  with ok show ?thesis
    using cache_okD [of "lg_shared w"]
    by (simp add: sender_ok_def shared_ok_def bl_GetTotalSendSuccess_def ptr_GetTag_def)
qed

theorem logger_safe_witness: "s_pc (m_dataSender (sample_logger 1000 0)) \<noteq> S_Null_Deref"
  using logger_safe [OF sample_logger_reachable] by blast

text \<open>
  C21: nothing but messages goes out. In every reachable state, whatever a call of \<open>Send\<close> put
  on the wire, for the sender or the resender, is the composed message of one of the added
  items up to its first NUL, or, after a failed or stopped call, a prefix of it.
\<close>

theorem wire_carries_messages:
  assumes "reachable w" "x \<in> set (wire (lg_shared w))"
  shows "\<exists>item \<in> set (items (lg_shared w)). m_djsonData item \<noteq> [] \<and> prefix x (c_str (m_djsonData item))"
  using reachable_ok [OF assms(1)] assms(2)
  by (auto simp: logger_ok_def sender_ok_def shared_ok_def wire_ok_def on_record_def)

theorem wire_carries_messages_witness:
  "\<exists>item \<in> set (items (lg_shared (race_state 13))). prefix (item_frame sample_item) (c_str (m_djsonData item))"
proof -
  have "item_frame sample_item \<in> set (wire (lg_shared (race_state 13)))" by code_simp
  from wire_carries_messages [OF race_reachable this] show ?thesis by blast
qed

text \<open>
  The queue holds the newest items. In every reachable state the incoming queue holds, in
  the order of \<open>AddData\<close>, all items from some number on; with a limit, never more than
  that many.
\<close>

theorem queue_holds_newest:
  assumes "reachable w"
  shows "\<exists>k \<le> length (items (lg_shared w)).
      data_queue (m_incomingQueue w) = map Some [k..<length (items (lg_shared w))]
    \<and> (m_maxSize (m_incomingQueue w) = 0 \<or> queue_size (m_incomingQueue w) \<le> m_maxSize (m_incomingQueue w))"
  using reachable_ok [OF assms] by (auto simp: logger_ok_def within_limit_def queue_size_def)

theorem queue_holds_newest_witness:
  "\<exists>k \<le> length (items (lg_shared (race_state 1))).
     data_queue (m_incomingQueue (race_state 1)) = map Some [k..<length (items (lg_shared (race_state 1)))]"
  using queue_holds_newest [OF race_reachable [of 1]] by blast

text \<open>
  C10: nothing is lost before it is tried. Without a limit, as long as the sender runs or if
  it ended because the queue was exhausted, every added item is still queued, in the
  sender's hands, or has been handed to \<open>Send\<close>, and counted exactly once.
\<close>

theorem nothing_lost:
  assumes "reachable w" "m_maxSize (m_incomingQueue w) = 0"
    "\<not> is_done (s_pc (m_dataSender w)) \<or> s_pc (m_dataSender w) = S_Done Queue_Aborted"
  shows "m_numSend (m_dataSender w) + unsent (s_pc (m_dataSender w)) + queue_size (m_incomingQueue w)
    = length (items (lg_shared w))"
  using reachable_ok [OF assms(1)] assms(2,3) by (simp add: logger_ok_def queue_size_def)

theorem nothing_lost_witness:
  "m_numSend (m_dataSender (race_state 5)) + unsent (s_pc (m_dataSender (race_state 5))) + queue_size (m_incomingQueue (race_state 5)) = 2"
proof -
  have "m_maxSize (m_incomingQueue (race_state 5)) = 0" "\<not> is_done (s_pc (m_dataSender (race_state 5)))"
    "length (items (lg_shared (race_state 5))) = 2"
    by code_simp+
  with nothing_lost [OF race_reachable [of 5]] show ?thesis by simp
qed

text \<open>
  Only the filter makes the list of keys that the resender erases. An earlier step of it looked at
  the cache and found each of them overdue.
\<close>

definition found_overdue :: "string \<Rightarrow> logger \<Rightarrow> bool" where
  "found_overdue k w \<longleftrightarrow> (\<exists>w0 inp r p. reachable w0 \<and> lstep w0 (resender_thread inp w0) \<and> lstep\<^sup>*\<^sup>* (resender_thread inp w0) w
     \<and> m_dataResender w0 = Some r \<and> rs_pc r = R_Filter \<and> map_of (the_cache (lg_shared w0)) k = Some (Some p)
     \<and> overdue inp (m_ackTimeoutMS r) (lg_shared w0) (Some p))"

lemma found_overdue_step: "found_overdue k w \<Longrightarrow> lstep w w' \<Longrightarrow> found_overdue k w'"
  unfolding found_overdue_def by (meson rtranclp.rtrancl_into_rtrancl)

lemma erase_from_filter:
  assumes "resender_step inp (r, sh) = (r', sh')" "rs_pc r' = R_Erase ks"
  shows "rs_pc r = R_Filter"
  using assms by (auto simp: Let_def end_round_def rgoto_def split: resender_pc.splits list.splits option.splits sum.splits prod.splits if_splits)

lemma filter_finds:
  assumes "reachable w" "lstep w (resender_thread inp w)" "m_dataResender w = Some r" "rs_pc r = R_Filter"
    "resender_step inp (r, lg_shared w) = (r', sh')" "rs_pc r' = R_Erase ks" "k \<in> set ks"
  shows "found_overdue k (resender_thread inp w)"
proof -
  let ?sh = "lg_shared w"
  have ok: "cache_ok ?sh" using reachable_ok [OF assms(1)] by (simp add: logger_ok_def sender_ok_def shared_ok_def)
  have wf: "cmap_wf (the_cache ?sh)" using ok by (cases "dataCache ?sh") (simp_all add: cache_ok_def the_cache_def cmap_wf_def keys_def)
  have "k \<in> set (filter_each (CheckItemAge inp (m_ackTimeoutMS r) ?sh) (visit_order inp (the_cache ?sh)) (the_cache ?sh))"
    using assms(4-7) by (auto simp: Let_def rgoto_def)
  then obtain v where v: "map_of (the_cache ?sh) k = Some v" "overdue inp (m_ackTimeoutMS r) ?sh v"
    using visit_order_visits [OF wf, of inp] by (auto simp: filter_each_set CheckItemAge_overdue)
  then obtain p where "v = Some p" by (auto simp: overdue_def)
  with v assms(1-4) show ?thesis unfolding found_overdue_def by blast
qed

lemma erased_found_overdue:
  "reachable w \<Longrightarrow> m_dataResender w = Some r \<Longrightarrow> rs_pc r = R_Erase ks \<Longrightarrow> k \<in> set ks \<Longrightarrow> found_overdue k w"
proof (induction arbitrary: r rule: reachable.induct)
  case (init f ackMS resendMS connMS limit c ids w)
  then show ?case by (auto simp: new_buffered_logger_def new_data_resender_def split: sum.splits if_splits)
next
  case (step w w')
  have stays: "found_overdue k w'" if "m_dataResender w = Some r1" "rs_pc r1 = rs_pc r" for r1
    using step.IH [OF that(1)] that(2) step.prems(2,3) found_overdue_step [OF _ step.hyps(2)] by simp
  from step.hyps(2) show ?case
  proof (cases rule: lstep.cases)
    case (resender inp)
    show ?thesis
    proof (cases "m_dataResender w")
      case None
      with resender step.prems(1) show ?thesis by (simp add: resender_thread_def)
    next
      case (Some r0)
      obtain r' sh' where st: "resender_step inp (r0, lg_shared w) = (r', sh')" by fastforce
      then have "r' = r" using resender(1) Some step.prems(1) by (simp add: resender_thread_def del: resender_step.simps)
      with st step.prems(2) have "rs_pc r0 = R_Filter" using erase_from_filter by blast
      from filter_finds [OF step.hyps(1) _ Some this st] \<open>r' = r\<close> step.prems step.hyps(2) resender(1) show ?thesis by simp
    qed
  next
    case (add now source sad svlist)
    with step.prems(1) show ?thesis
      by (intro stays [of r]) (simp_all add: caller_adds_def alloc_item_def bl_AddData_def split: prod.splits)
  next
    case (destructor)
    with step.prems(1) obtain r1 where "m_dataResender w = Some r1" "rs_pc r1 = rs_pc r"
      by (auto simp: destructor_step_def Let_def resender_Stop_def split: if_splits)
    then show ?thesis by (rule stays)
  next
    case (sender inp)
    with step.prems(1) show ?thesis by (intro stays [of r]) (simp_all add: sender_thread_def split_beta del: sender_step.simps)
  next
    case (reader stop1 stop2 polls reads)
    with step.prems(1) show ?thesis by (intro stays [of r]) (simp_all add: reader_thread_def split_beta del: reader_step.simps)
  next
    case other_item
    with step.prems(1) show ?thesis by (intro stays [of r]) simp_all
  next
    case wait_all
    with step.prems(1) show ?thesis by (intro stays [of r]) (simp_all add: WaitUntilAllSend_begin_def)
  qed
qed

text \<open>
  C23: how an item leaves the cache. A step after which a key is gone is a step of the reader that
  takes an acknowledgement of this key out of the data, a line that is the tag or the tag with
  status 0; or it is the resender's erase, and an earlier step of the resender, its filter, found
  the item under this key in the cache with an age above the timeout.
\<close>

theorem cache_removals:
  assumes "reachable w" "lstep w w'" "map_of (the_cache (lg_shared w)) k \<noteq> None"
    "map_of (the_cache (lg_shared w')) k = None"
  shows "(\<exists>stop1 stop2 polls reads str dPos iss item s. w' = reader_thread stop1 stop2 polls reads w
        \<and> m_sockReader w = Splitting str dPos iss item s
        \<and> (snd (getline iss item) = k \<or> snd (getline iss item) = k @ '':0''))
    \<or> (\<exists>r ks inp. m_dataResender w = Some r \<and> rs_pc r = R_Erase ks \<and> w' = resender_thread inp w
        \<and> (\<exists>w0 inp0 r0 p. reachable w0 \<and> lstep w0 (resender_thread inp0 w0) \<and> lstep\<^sup>*\<^sup>* (resender_thread inp0 w0) w
             \<and> m_dataResender w0 = Some r0 \<and> rs_pc r0 = R_Filter \<and> map_of (the_cache (lg_shared w0)) k = Some (Some p)
             \<and> uint (m_ackTimeoutMS r0) < ((in_now inp0 p - m_touchTime (items (lg_shared w0) ! p)) sdiv 1000000) mod 2 ^ 32))"
  using assms(2)
proof (cases rule: lstep.cases)
  case (add now source sad svlist)
  then show ?thesis
    using assms(3,4)
    by (simp add: caller_adds_def alloc_item_def bl_AddData_def the_cache_def split: prod.splits)
next
  case (sender inp)
  have "keeps_keys (lg_shared w) (lg_shared w')"
    using sender_step_keeps [of "lg_shared w" inp "m_dataSender w" "m_incomingQueue w"] sender
    by (simp add: sender_thread_def split_beta)
  then have False using assms(3,4) unfolding keeps_keys_def by blast
  then show ?thesis ..
next
  case (resender inp)
  show ?thesis
  proof (cases "m_dataResender w")
    case (Some r)
    have ok: "shared_ok (lg_shared w)" "rs_pc_ok (lg_shared w) (rs_pc r)"
      using reachable_ok [OF assms(1)] Some by (simp_all add: logger_ok_def sender_ok_def)
    have w': "lg_shared w' = snd (resender_step inp (r, lg_shared w))"
      using resender Some by (simp add: resender_thread_def split_beta del: resender_step.simps)
    have "case rs_pc r of R_Erase ks \<Rightarrow> shrinks ks (lg_shared w) (lg_shared w')
        | _ \<Rightarrow> dataCache (lg_shared w') = dataCache (lg_shared w)"
      using resender_step_ok [OF ok, of inp] unfolding w' resender_step_spec_def split_beta by blast
    then obtain ks where "rs_pc r = R_Erase ks" "shrinks ks (lg_shared w) (lg_shared w')"
      using assms(3,4) by (cases "rs_pc r") (auto simp: the_cache_def)
    then have "rs_pc r = R_Erase ks" "k \<in> set ks"
      using assms(3,4) by (auto simp: shrinks_def without_def split: if_splits)
    with erased_found_overdue [OF assms(1) Some] have "found_overdue k w" by blast
    with resender(1) Some \<open>rs_pc r = R_Erase ks\<close> show ?thesis unfolding found_overdue_def overdue_def by auto
  qed (use resender assms in \<open>simp add: resender_thread_def\<close>)
next
  case (reader stop1 stop2 polls reads)
  then have "reader_step stop1 stop2 polls reads (m_sockReader w, lg_shared w) = (m_sockReader w', lg_shared w')"
    by (simp add: reader_thread_def split_beta)
  then obtain str dPos iss item s where "m_sockReader w = Splitting str dPos iss item s"
    "snd (getline iss item) = k \<or> snd (getline iss item) = k @ '':0''"
    by (rule reader_step_removes [OF _ assms(3,4)])
  with reader(1) show ?thesis by blast
next
  case destructor
  then show ?thesis
    using assms(3,4) by (simp add: destructor_step_def Let_def the_cache_def split: if_splits)
qed (use assms in \<open>auto simp: WaitUntilAllSend_begin_def\<close>)

theorem cache_removals_witness:
  "\<exists>stop1 stop2 polls reads. race_state 15 = reader_thread stop1 stop2 polls reads (race_state 14)"
proof -
  have "race_rest ! 14 = A_Reader [] []" "length race_rest = 17"
    by (simp_all add: race_rest_def nth_append)
  then have "race_state 15 = act (A_Reader [] []) (race_state 14)"
    using race_step [of 14] by simp
  moreover have "m_started (race_state 14)" by code_simp
  ultimately have "lstep (race_state 14) (race_state 15)" by (simp add: lstep.reader)
  moreover have "map_of (the_cache (lg_shared (race_state 14))) ''1'' \<noteq> None" by code_simp
  moreover have "map_of (the_cache (lg_shared (race_state 15))) ''1'' = None" by code_simp
  moreover have "map_option rs_pc (m_dataResender (race_state 14)) = Some (R_Items [])" by code_simp
  then have "\<not> (\<exists>r ks. m_dataResender (race_state 14) = Some r \<and> rs_pc r = R_Erase ks)" by auto
  ultimately show ?thesis using cache_removals [OF race_reachable, of 14 "race_state 15" "''1''"] by blast
qed

text \<open>
  The sender can be lost. Between its \<open>Add\<close> and its first \<open>Get\<close> the resender may send the
  item from the cache and the reader may process the acknowledgement; \<open>Get\<close> then throws
  \<open>out_of_range\<close>, which ends \<open>Run\<close> for good. Here the second item is never sent, while
  \<open>WaitUntilAllSend\<close> reports success.
\<close>

theorem sender_lost_by_early_ack:
  "\<exists>w. reachable w \<and> (\<exists>msg. s_pc (m_dataSender w) = S_Done (Caught (Out_Of_Range msg)))
     \<and> data_queue (m_incomingQueue w) = [Some 1] \<and> m_numSend (m_dataSender w) = 0 \<and> WaitUntilAllSend_end w"
proof (intro exI conjI)
  show "reachable (race_state 17)" by (rule race_reachable)
  show "s_pc (m_dataSender (race_state 17)) = S_Done (Caught (Out_Of_Range ''ConcurrentMap::Get(): key not found 1''))"
    by code_simp
  show "data_queue (m_incomingQueue (race_state 17)) = [Some 1]" by code_simp
  show "m_numSend (m_dataSender (race_state 17)) = 0" by code_simp
  show "WaitUntilAllSend_end (race_state 17)" by code_simp
qed

section \<open>From \<open>AddData\<close> to the wire\<close>

definition add_all :: "(string \<times> string) list \<Rightarrow> logger \<Rightarrow> logger" where
  "add_all data w = fold (\<lambda>(source, sad) w. caller_adds 0 source sad [] w) data w"

definition sent_payloads :: "counter \<Rightarrow> (string \<times> string) list \<Rightarrow> string list" where
  "sent_payloads c data =
     map (\<lambda>i. djson_payload (fst (data ! i)) (to_string (unat (c + word_of_nat (Suc i)))) (snd (data ! i))) [0..<length data]"

definition fresh_item :: "counter \<Rightarrow> string \<times> string \<Rightarrow> djson_item" where
  "fresh_item c d = fst (new_djson_item_with 0 (fst d) (snd d) c)"

lemma fresh_item_sel:
  "m_source (fresh_item c d) = fst d" "m_schemaAndData (fresh_item c d) = snd d"
  "m_djsonData (fresh_item c d) = []" "GetTag (fresh_item c d) = to_string (unat (c + 1))"
  by (simp_all add: fresh_item_def new_djson_item_with_def new_log_item_def make_djson_item_def GetTag_def Let_def)

lemma caller_adds_state:
  assumes "m_maxSize (m_incomingQueue w) = 0"
  shows "caller_adds 0 source sad [] w =
    w\<lparr>lg_shared := (lg_shared w)\<lparr>items := items (lg_shared w) @ [fresh_item (s_counter w) (source, sad)]\<rparr>,
      s_counter := s_counter w + 1, m_started := True,
      m_incomingQueue := (m_incomingQueue w)\<lparr>data_queue := data_queue (m_incomingQueue w) @ [Some (length (items (lg_shared w)))]\<rparr>\<rparr>"
  using assms
  by (simp add: caller_adds_def new_djson_item_with_def new_log_item_def make_djson_item_def alloc_item_def
      bl_AddData_def push_def is_full_def fresh_item_def Let_def)

lemma add_all_state:
  assumes "m_maxSize (m_incomingQueue w) = 0"
  shows "\<exists>its. length its = length data
    \<and> (\<forall>i < length data. its ! i = fresh_item (s_counter w + word_of_nat i) (data ! i))
    \<and> lg_shared (add_all data w) = (lg_shared w)\<lparr>items := items (lg_shared w) @ its\<rparr>
    \<and> m_incomingQueue (add_all data w) = (m_incomingQueue w)\<lparr>data_queue :=
        data_queue (m_incomingQueue w) @ map Some [length (items (lg_shared w))..<length (items (lg_shared w)) + length data]\<rparr>
    \<and> m_dataSender (add_all data w) = m_dataSender w"
  using assms
proof (induction data arbitrary: w)
  case Nil
  then show ?case by (simp add: add_all_def)
next
  case (Cons d data)
  let ?w = "caller_adds 0 (fst d) (snd d) [] w"
  note w' = caller_adds_state [OF Cons.prems, of "fst d" "snd d"]
  have "m_maxSize (m_incomingQueue ?w) = 0" using Cons.prems by (simp add: w')
  from Cons.IH [OF this] obtain its where its: "length its = length data"
    "\<forall>i < length data. its ! i = fresh_item (s_counter w + 1 + word_of_nat i) (data ! i)"
    "lg_shared (add_all data ?w) = (lg_shared w)\<lparr>items := items (lg_shared w) @ fresh_item (s_counter w) d # its\<rparr>"
    "m_incomingQueue (add_all data ?w) = (m_incomingQueue w)\<lparr>data_queue := data_queue (m_incomingQueue w)
        @ Some (length (items (lg_shared w))) # map Some [Suc (length (items (lg_shared w)))..<Suc (length (items (lg_shared w))) + length data]\<rparr>"
    "m_dataSender (add_all data ?w) = m_dataSender w"
    by (auto simp: w')
  have "(fresh_item (s_counter w) d # its) ! i = fresh_item (s_counter w + word_of_nat i) ((d # data) ! i)"
    if "i < Suc (length data)" for i
    using that its(2) by (cases i) (simp_all add: add.assoc)
  moreover have "add_all (d # data) w = add_all data ?w" by (simp add: add_all_def split_beta)
  moreover have "[n..<n + length (d # data)] = n # [Suc n..<Suc n + length data]" for n
    by (simp add: upt_conv_Cons del: upt_Suc)
  ultimately show ?case
    using its(1,3,4,5)
    by (intro exI [of _ "fresh_item (s_counter w) d # its"]) (simp del: upt_Suc)
qed

lemma sender_thread_run:
  "fold sender_thread inps w =
     (case sender_run inps (m_dataSender w, m_incomingQueue w, lg_shared w) of
        (ds, q, sh) \<Rightarrow> w\<lparr>m_dataSender := ds, m_incomingQueue := q, lg_shared := sh\<rparr>)"
proof (induction inps arbitrary: w)
  case (Cons inp inps)
  obtain ds q sh where "sender_step inp (m_dataSender w, m_incomingQueue w, lg_shared w) = (ds, q, sh)"
    by (metis prod_cases3)
  then show ?case using Cons.IH [of "sender_thread inp w"]
    by (simp add: sender_thread_def split_beta del: sender_step.simps)
qed simp

lemma new_logger_state:
  assumes "new_buffered_logger f ackMS resendMS connMS limit c ids = Inr w"
  shows "items (lg_shared w) = []" "dataCache (lg_shared w) = (if ackMS \<noteq> 0 then Some [] else None)"
    "wire (lg_shared w) = []" "m_incomingQueue w = new_queue limit" "m_dataSender w = new_data_sender"
    "s_counter w = c" "m_sockfd (sockClient (lg_shared w)) = -1" "\<not> m_stopClient (sockClient (lg_shared w))"
    "m_sockReader w = Reading [] new_reader"
  using assms by (auto simp: new_buffered_logger_def new_unix_client_def INVALID_SOCKET_def split: sum.splits if_splits)

definition sent_tags :: "counter \<Rightarrow> nat \<Rightarrow> string list" where
  "sent_tags c n = map (\<lambda>i. to_string (unat (c + word_of_nat (Suc i)))) [0..<n]"

text \<open>A new logger after items were added: what is stored, queued, and in the items.\<close>

lemma add_all_to_new:
  assumes "new_buffered_logger f ackMS resendMS connMS 0 c ids = Inr w"
  obtains its where "length its = length data" "lg_shared (add_all data w) = (lg_shared w)\<lparr>items := its\<rparr>"
    "m_incomingQueue (add_all data w) = (new_queue 0)\<lparr>data_queue := map Some [0..<length data]\<rparr>"
    "m_dataSender (add_all data w) = new_data_sender"
    "map GetTag its = sent_tags c (length data)"
    "map (\<lambda>item. djson_payload (m_source item) (GetTag item) (m_schemaAndData item)) its = sent_payloads c data"
proof -
  note w = new_logger_state [OF assms]
  have "m_maxSize (m_incomingQueue w) = 0" by (simp add: w new_queue_def)
  from add_all_state [OF this, of data] obtain its where its: "length its = length data"
    "\<forall>i < length data. its ! i = fresh_item (c + word_of_nat i) (data ! i)"
    "lg_shared (add_all data w) = (lg_shared w)\<lparr>items := its\<rparr>"
    "m_incomingQueue (add_all data w) = (new_queue 0)\<lparr>data_queue := map Some [0..<length data]\<rparr>"
    "m_dataSender (add_all data w) = new_data_sender"
    by (auto simp: w new_queue_def)
  have "map GetTag its = sent_tags c (length data)"
    using its(1,2)
    by (intro nth_equalityI) (simp_all add: sent_tags_def fresh_item_sel add.assoc add.commute add.left_commute)
  moreover have "map (\<lambda>item. djson_payload (m_source item) (GetTag item) (m_schemaAndData item)) its = sent_payloads c data"
    using its(1,2)
    by (intro nth_equalityI) (simp_all add: sent_payloads_def fresh_item_sel add.assoc add.commute add.left_commute)
  ultimately show thesis using its(1,3,4,5) that by blast
qed



end
