(* ===== verification/Logger_Spec.thy ===== *)
theory Logger_Spec
  imports Buffered_Logger
begin

text \<open>
  What \<open>BufferedLogger\<close> promises, without threads, pointers and sockets: a buffer in front
  of one carrier that takes the oldest item, may remember it, and tries to hand it over
  once; and a set of remembered items that are discharged later. Every step of the logger
  is one step of this buffer or leaves it unchanged.
\<close>

section \<open>The abstract buffer\<close>

text \<open>
  Items are named by their tags. \<open>sp_held\<close> is the item taken from the buffer and not yet
  tried, \<open>sp_unacked\<close> the tags remembered, \<open>sp_over\<close> says that the carrier has stopped.
\<close>

record spec =
  sp_accepted :: "string list"
  sp_limit :: nat
  sp_queued :: "string list"
  sp_held :: "string option"
  sp_unacked :: "string set"
  sp_tried :: nat
  sp_over :: bool

inductive spec_step :: "spec \<Rightarrow> spec \<Rightarrow> bool" where
  accept: "spec_step s (s\<lparr>sp_accepted := sp_accepted s @ [t],
      sp_queued := (if 0 < sp_limit s \<and> length (sp_queued s) = sp_limit s then tl (sp_queued s) else sp_queued s) @ [t]\<rparr>)"
| take: "\<not> sp_over s \<Longrightarrow> sp_held s = None \<Longrightarrow> sp_queued s = t # ts
    \<Longrightarrow> spec_step s (s\<lparr>sp_queued := ts, sp_held := Some t\<rparr>)"
| remember: "sp_held s = Some t \<Longrightarrow> spec_step s (s\<lparr>sp_unacked := insert t (sp_unacked s)\<rparr>)"
| attempt: "sp_held s = Some t \<Longrightarrow> spec_step s (s\<lparr>sp_held := None, sp_tried := sp_tried s + 1\<rparr>)"
| give_up: "spec_step s (s\<lparr>sp_held := None, sp_over := True\<rparr>)"
| discharge: "U \<subseteq> sp_unacked s \<Longrightarrow> spec_step s (s\<lparr>sp_unacked := U\<rparr>)"
| idle: "spec_step s s"

section \<open>The abstraction\<close>

fun held_of :: "string list \<Rightarrow> sender_pc \<Rightarrow> string option" where
  "held_of tags (S_Popped p) = Some (tags ! p)"
| "held_of tags (S_Uncached p) = Some (tags ! p)"
| "held_of tags (S_Caching p) = Some (tags ! p)"
| "held_of tags (S_Lookup t) = Some t"
| "held_of tags (S_Found t) = Some t"
| "held_of tags (S_Fetch t) = Some t"
| "held_of tags _ = None"

definition spec_of :: "data_sender \<Rightarrow> item_ptr cqueue \<Rightarrow> shared \<Rightarrow> spec" where
  "spec_of ds q sh =
     \<lparr>sp_accepted = tag_list sh, sp_limit = m_maxSize q,
      sp_queued = map (\<lambda>v. tag_list sh ! the v) (data_queue q),
      sp_held = held_of (tag_list sh) (s_pc ds),
      sp_unacked = dom (map_of (the_cache sh)),
      sp_tried = m_numSend ds,
      sp_over = is_done (s_pc ds)\<rparr>"

definition logger_spec :: "logger \<Rightarrow> spec" where
  "logger_spec w = spec_of (m_dataSender w) (m_incomingQueue w) (lg_shared w)"

section \<open>Every step is an abstract step\<close>

lemma spec_of_frame:
  "tag_list sh' = tag_list sh \<Longrightarrow> dataCache sh' = dataCache sh \<Longrightarrow> spec_of ds q sh' = spec_of ds q sh"
  by (simp add: spec_of_def the_cache_def)

lemma spec_goto_keep:
  "held_of (tag_list sh) pc = held_of (tag_list sh) (s_pc ds) \<Longrightarrow> is_done pc = is_done (s_pc ds) \<Longrightarrow>
   spec_step (spec_of ds q sh) (spec_of (goto pc ds) q sh)"
  by (simp add: spec_of_def spec_step.idle)

lemma spec_goto_done: "spec_step (spec_of ds q sh) (spec_of (goto (S_Done r) ds) q sh)"
  using spec_step.give_up [of "spec_of ds q sh"] by (simp add: spec_of_def)

lemma spec_interrupt:
  "held_of (tag_list sh) pc = held_of (tag_list sh) (s_pc ds) \<Longrightarrow> is_done pc = is_done (s_pc ds) \<Longrightarrow>
   spec_step (spec_of ds q sh) (spec_of (InterruptPoint pc ds) q sh)"
  using spec_goto_done spec_goto_keep by (simp add: InterruptPoint_def)

lemma spec_goto_same:
  assumes "spec_step (spec_of ds q sh) (spec_of ds' q sh)" "tag_list sh' = tag_list sh" "dataCache sh' = dataCache sh"
  shows "spec_step (spec_of ds q sh) (spec_of ds' q sh')"
  using assms(1) by (simp add: spec_of_frame [OF assms(2,3)])

lemma enter_Send_spec:
  assumes "enter_Send p ds sh = (ds', sh')" "held_of (tag_list sh) (s_pc ds) = Some t" "\<not> is_done (s_pc ds)"
  shows "spec_step (spec_of ds q sh) (spec_of ds' q sh')"
proof (cases "ptr_GetData p sh")
  case (Pair r sh1)
  note same = ptr_GetData_frame [OF Pair]
  show ?thesis
  proof (cases r)
    case (Inl e)
    with Pair assms(1) same show ?thesis
      by (auto simp: enter_Send_def intro!: spec_goto_same spec_goto_done)
  next
    case (Inr s)
    let ?ds = "goto (S_Sending s) (ds\<lparr>m_numSend := m_numSend ds + 1\<rparr>)"
    have "spec_of ?ds q sh = (spec_of ds q sh)\<lparr>sp_held := None, sp_tried := sp_tried (spec_of ds q sh) + 1\<rparr>"
      using assms(3) by (simp add: spec_of_def)
    then have "spec_step (spec_of ds q sh) (spec_of ?ds q sh)"
      using spec_step.attempt [of "spec_of ds q sh" t] assms(2) by (simp add: spec_of_def)
    with Inr Pair assms(1) same show ?thesis
      by (auto simp: enter_Send_def intro!: spec_goto_same)
  qed
qed

lemma finish_Send_spec:
  assumes "finish_Send s inp ds sh = (ds', sh')" "s_pc ds = S_Sending s"
  shows "spec_step (spec_of ds q sh) (spec_of ds' q sh')"
proof (cases "client_Send s inp sh")
  case None
  with assms show ?thesis by (simp add: finish_Send_def spec_step.idle)
next
  case (Some x)
  obtain r sh1 where x: "x = (r, sh1)" by fastforce
  note same = client_Send_frame [OF Some [unfolded x]]
  have "sh' = sh1" using assms(1) Some x by (auto simp: finish_Send_def split: sum.splits)
  with same have "tag_list sh' = tag_list sh" "dataCache sh' = dataCache sh" by (simp_all add: tag_list_def)
  note frame = spec_of_frame [OF this]
  have "spec_of (goto S_After (ds\<lparr>m_numSuccess := n\<rparr>)) q sh = spec_of ds q sh" for n
    using assms(2) by (simp add: spec_of_def)
  moreover have "spec_of (goto S_After ds) q sh = spec_of ds q sh"
    using assms(2) by (simp add: spec_of_def)
  ultimately show ?thesis
    using assms(1) Some x
    by (auto simp: finish_Send_def frame spec_step.idle intro: spec_goto_done split: sum.splits if_splits)
qed

lemma cache_item_spec:
  assumes "cache_item now p ds sh = (ds', sh')" "s_pc ds = S_Caching p" "p < length (items sh)" "dataCache sh \<noteq> None"
  shows "spec_step (spec_of ds q sh) (spec_of ds' q sh')"
proof -
  obtain m where m: "dataCache sh = Some m" using assms(4) by blast
  let ?sh1 = "ptr_Touch now p sh" and ?t = "tag_list sh ! p"
  have tag: "ptr_GetTag p ?sh1 = ?t" using assms(3) by (simp add: ptr_GetTag_tag_list)
  show ?thesis
  proof (cases "map_add ?t (Some p) m")
    case (Inl e)
    with assms(1) m tag show ?thesis
      by (auto simp: cache_item_def Let_def intro!: spec_goto_same spec_goto_done)
  next
    case (Inr m')
    then have m': "map_of m' = (map_of m)(?t \<mapsto> Some p)"
      by (auto simp: map_add_def map_of_update split: if_splits)
    let ?s = "spec_of ds q sh"
    have "spec_step ?s (?s\<lparr>sp_unacked := insert ?t (sp_unacked ?s)\<rparr>)"
      using assms(2) by (intro spec_step.remember) (simp add: spec_of_def)
    also have "?s\<lparr>sp_unacked := insert ?t (sp_unacked ?s)\<rparr> = spec_of ds' q sh'"
      using assms(1,2) m m' tag Inr
      by (auto simp: cache_item_def Let_def spec_of_def the_cache_def tag_list_def ptr_Touch_frame(1) [unfolded tag_list_def])
    finally show ?thesis .
  qed
qed

lemma sender_step_simulated:
  assumes ok: "sender_ok ds q sh" and st: "sender_step inp (ds, q, sh) = (ds', q', sh')"
  shows "spec_step (spec_of ds q sh) (spec_of ds' q' sh')"
proof (cases "s_pc ds")
  case S_Loop
  with st spec_goto_keep [of sh S_Wait ds q] show ?thesis by (auto simp: spec_goto_done split: if_splits)
next
  case S_Wait
  show ?thesis
  proof (cases rule: pop_cases [of q])
    case (popped v vs)
    then obtain p where v: "v = Some p" using ok by (auto simp: sender_ok_def queue_live_def)
    let ?s = "spec_of ds q sh"
    have "spec_step ?s (?s\<lparr>sp_queued := map (\<lambda>v. tag_list sh ! the v) vs, sp_held := Some (tag_list sh ! p)\<rparr>)"
      using S_Wait popped v by (intro spec_step.take) (simp_all add: spec_of_def)
    then show ?thesis using st S_Wait popped v by (auto simp: spec_of_def)
  qed (use st S_Wait in \<open>auto simp: spec_step.idle spec_goto_done\<close>)
next
  case (S_Popped p)
  then show ?thesis
    using st spec_interrupt [of sh "if dataCache sh = None then S_Uncached p else S_Caching p" ds q]
    by (cases "dataCache sh") auto
next
  case (S_Found t)
  with st spec_interrupt [of sh "S_Fetch t" ds q] show ?thesis by simp
next
  case S_After
  with st spec_interrupt [of sh S_Loop ds q] show ?thesis by simp
next
  case (S_Uncached p)
  with st enter_Send_spec [of p ds sh ds' sh' _ q] show ?thesis by (auto split: prod.splits)
next
  case (S_Caching p)
  with st ok cache_item_spec [of "in_now inp p" p ds sh ds' sh' q] show ?thesis
    by (auto simp: sender_ok_def split: prod.splits)
next
  case (S_Lookup t)
  with st spec_goto_keep [of sh "S_Found t" ds q] show ?thesis
  proof (cases "cache_Get t sh")
    case (Inr v)
    have "shared_ok sh" "dataCache sh \<noteq> None" using ok S_Lookup by (auto simp: sender_ok_def)
    from cache_Get_found [OF this(1) Inr this(2)] obtain p where "v = Some p" by blast
    with Inr S_Lookup st spec_goto_keep [of sh "S_Found t" ds q] show ?thesis by auto
  qed (auto simp: spec_goto_done)
next
  case (S_Fetch t)
  show ?thesis
  proof (cases "cache_Get t sh")
    case (Inr v)
    have "shared_ok sh" "dataCache sh \<noteq> None" using ok S_Fetch by (auto simp: sender_ok_def)
    from cache_Get_found [OF this(1) Inr this(2)] obtain p where "v = Some p" by blast
    with Inr S_Fetch st enter_Send_spec [of p ds sh ds' sh' t q] show ?thesis by (auto split: prod.splits)
  qed (use S_Fetch st in \<open>auto simp: spec_goto_done\<close>)
next
  case (S_Sending s)
  with st finish_Send_spec [of s inp ds sh ds' sh' q] show ?thesis by (auto split: prod.splits)
qed (use st in \<open>auto simp: spec_step.idle spec_goto_done intro!: spec_goto_keep\<close>)

text \<open>The other threads only discharge.\<close>

lemma spec_discharge:
  assumes "tag_list sh' = tag_list sh" "dom (map_of (the_cache sh')) \<subseteq> dom (map_of (the_cache sh))"
  shows "spec_step (spec_of ds q sh) (spec_of ds q sh')"
  using spec_step.discharge [of "dom (map_of (the_cache sh'))" "spec_of ds q sh"] assms
  by (simp add: spec_of_def)

lemma resender_shrinks:
  assumes "logger_ok w" "m_dataResender w = Some r" "resender_step inp (r, lg_shared w) = (r', sh')"
  shows "dom (map_of (the_cache sh')) \<subseteq> dom (map_of (the_cache (lg_shared w)))"
    and "tag_list sh' = tag_list (lg_shared w)"
proof -
  have "shared_ok (lg_shared w)" "rs_pc_ok (lg_shared w) (rs_pc r)"
    using assms(1,2) by (simp_all add: logger_ok_def sender_ok_def)
  from resender_step_ok [OF this, of inp] assms(3)
  have same: "same_items (lg_shared w) sh'"
    and c: "case rs_pc r of R_Erase ks \<Rightarrow> shrinks ks (lg_shared w) sh' | _ \<Rightarrow> dataCache sh' = dataCache (lg_shared w)"
    by (simp_all add: resender_step_spec_def)
  show "dom (map_of (the_cache sh')) \<subseteq> dom (map_of (the_cache (lg_shared w)))"
  proof (cases "\<exists>ks. rs_pc r = R_Erase ks")
    case True
    with c obtain ks where "shrinks ks (lg_shared w) sh'" by auto
    then show ?thesis by (auto simp: shrinks_def without_def split: if_splits)
  next
    case False
    with c have "dataCache sh' = dataCache (lg_shared w)" by (cases "rs_pc r") auto
    then show ?thesis by (simp add: the_cache_def)
  qed
  show "tag_list sh' = tag_list (lg_shared w)" using same unfolding same_items_def by (rule conjunct1)
qed

lemma resender_simulated:
  assumes "logger_ok w"
  shows "spec_step (logger_spec w) (logger_spec (resender_thread inp w))"
proof (cases "m_dataResender w")
  case (Some r)
  obtain r' sh' where st: "resender_step inp (r, lg_shared w) = (r', sh')" by fastforce
  from spec_discharge [OF resender_shrinks(2,1) [OF assms Some st]] show ?thesis
    using Some st by (simp add: logger_spec_def resender_thread_def del: resender_step.simps)
qed (simp add: resender_thread_def spec_step.idle)

lemma reader_simulated:
  "spec_step (logger_spec w) (logger_spec (reader_thread stop1 stop2 polls reads w))"
proof -
  obtain run sh where t: "reader_step stop1 stop2 polls reads (m_sockReader w, lg_shared w) = (run, sh)" by fastforce
  have "tag_list sh = tag_list (lg_shared w)" by (simp add: tag_list_def reader_step_frame(2) [OF t])
  then show ?thesis
    using spec_discharge cache_sub_dom [OF reader_step_frame(1) [OF t]]
    by (simp add: logger_spec_def reader_thread_def t)
qed

lemma add_simulated:
  assumes "logger_ok w"
  shows "spec_step (logger_spec w) (logger_spec (caller_adds now source sad svlist w))"
proof -
  let ?sh = "lg_shared w" and ?q = "m_incomingQueue w" and ?n = "length (items (lg_shared w))"
  obtain item c' where i: "new_djson_item_with now source sad (s_counter w) = (item, c')" by fastforce
  let ?new = "item\<lparr>m_svlist := svlist\<rparr>"
  let ?sh' = "?sh\<lparr>items := items ?sh @ [?new]\<rparr>" and ?t = "GetTag ?new"
  have w': "logger_spec (caller_adds now source sad svlist w) = spec_of (m_dataSender w) (push (Some ?n) ?q) ?sh'"
    by (simp add: logger_spec_def caller_adds_def i bl_AddData_def alloc_item_def)
  have tags: "tag_list ?sh' = tag_list ?sh @ [?t]" by (simp add: tag_list_def)
  have live: "\<forall>v \<in> set (data_queue ?q). the v < ?n"
    using assms by (auto simp: logger_ok_def sender_ok_def queue_live_def)
  then have q: "map (\<lambda>v. (tag_list ?sh @ [?t]) ! the v) vs = map (\<lambda>v. tag_list ?sh ! the v) vs"
    if "set vs \<subseteq> set (data_queue ?q)" for vs
    using that by (auto simp: nth_append tag_list_length)
  have "pc_ok ?sh (s_pc (m_dataSender w))" using assms by (simp add: logger_ok_def sender_ok_def)
  then have held: "held_of (tag_list ?sh @ [?t]) (s_pc (m_dataSender w)) = held_of (tag_list ?sh) (s_pc (m_dataSender w))"
    by (cases "s_pc (m_dataSender w)") (auto simp: nth_append tag_list_length)
  have last: "(tag_list ?sh @ [?t]) ! ?n = ?t" by (simp add: nth_append tag_list_length)
  have "set (tl (data_queue ?q)) \<subseteq> set (data_queue ?q)" by (cases "data_queue ?q") auto
  then have "spec_of (m_dataSender w) (push (Some ?n) ?q) ?sh' =
      (logger_spec w)\<lparr>sp_accepted := sp_accepted (logger_spec w) @ [?t],
        sp_queued := (if 0 < sp_limit (logger_spec w) \<and> length (sp_queued (logger_spec w)) = sp_limit (logger_spec w)
          then tl (sp_queued (logger_spec w)) else sp_queued (logger_spec w)) @ [?t]\<rparr>"
    using q [of "data_queue ?q"] q [of "tl (data_queue ?q)"]
    by (simp add: spec_of_def logger_spec_def push_def is_full_def held last Let_def map_tl the_cache_def tags)
  then show ?thesis unfolding w' by (simp only: spec_step.accept)
qed

lemma logger_step_simulated:
  "lstep w w' \<Longrightarrow> logger_ok w \<Longrightarrow> spec_step (logger_spec w) (logger_spec w')"
proof (induction rule: lstep.induct)
  case (sender w inp)
  obtain ds q sh where st: "sender_step inp (m_dataSender w, m_incomingQueue w, lg_shared w) = (ds, q, sh)"
    by (metis prod_cases3)
  have "sender_ok (m_dataSender w) (m_incomingQueue w) (lg_shared w)"
    using sender.prems by (simp add: logger_ok_def)
  from sender_step_simulated [OF this st] st show ?case
    by (simp add: logger_spec_def sender_thread_def del: sender_step.simps)
next
  case (other_item w)
  then show ?case by (simp add: logger_spec_def spec_step.idle)
next
  case (wait_all w)
  then show ?case
    by (simp add: logger_spec_def WaitUntilAllSend_begin_def spec_of_def stop_once_empty_def spec_step.idle)
next
  case (destructor w)
  have "logger_spec (destructor_step w) = logger_spec w"
    by (simp add: logger_spec_def destructor_step_def Let_def spec_of_def tag_list_def the_cache_def
        stop_once_empty_def sender_Stop_def)
  then show ?case by (simp add: spec_step.idle)
qed (simp_all add: add_simulated resender_simulated reader_simulated)

interpretation lg: simulation lstep logger_ok spec_step logger_spec
  by unfold_locales (auto intro: logger_ok_step logger_step_simulated)

section \<open>Runs\<close>

definition new_spec :: "nat \<Rightarrow> spec" where
  "new_spec limit = \<lparr>sp_accepted = [], sp_limit = limit, sp_queued = [], sp_held = None, sp_unacked = {},
     sp_tried = 0, sp_over = False\<rparr>"

lemma new_logger_spec:
  "new_buffered_logger f ackMS resendMS connMS n c ids = Inr w \<Longrightarrow> logger_spec w = new_spec n"
  by (auto simp: new_buffered_logger_def new_spec_def logger_spec_def spec_of_def new_queue_def new_data_sender_def
      tag_list_def the_cache_def split: sum.splits if_splits)

lemma reachable_from_new:
  "reachable w \<Longrightarrow> \<exists>w0 n. logger_ok w0 \<and> logger_spec w0 = new_spec n \<and> lstep\<^sup>*\<^sup>* w0 w"
proof (induction rule: reachable.induct)
  case (init f resendMS connMS n ackMS c ids w)
  then show ?case using logger_ok_init new_logger_spec by blast
next
  case (step w w')
  then show ?case by (meson rtranclp.rtrancl_into_rtrancl)
qed

text \<open>
  What the abstract buffer keeps: what is held and queued was accepted, in that order and
  within the limit; what is remembered was accepted; nothing is tried twice; and without a
  limit, until the carrier stops, nothing is lost.
\<close>

definition held_list :: "spec \<Rightarrow> string list" where
  "held_list s = (case sp_held s of None \<Rightarrow> [] | Some t \<Rightarrow> [t])"

definition spec_good :: "spec \<Rightarrow> bool" where
  "spec_good s \<longleftrightarrow>
     suffix (sp_queued s) (sp_accepted s)
     \<and> set (held_list s) \<union> sp_unacked s \<subseteq> set (sp_accepted s)
     \<and> sp_tried s + length (held_list s) + length (sp_queued s) \<le> length (sp_accepted s)
     \<and> (sp_limit s = 0 \<and> \<not> sp_over s \<longrightarrow>
          sp_tried s + length (held_list s) + length (sp_queued s) = length (sp_accepted s))
     \<and> (sp_limit s = 0 \<or> length (sp_queued s) \<le> sp_limit s)"

lemma spec_good_new: "spec_good (new_spec n)"
  by (simp add: spec_good_def new_spec_def held_list_def)

lemma held_list_simps [simp]:
  "sp_held s = None \<Longrightarrow> held_list s = []" "sp_held s = Some t \<Longrightarrow> held_list s = [t]"
  by (simp_all add: held_list_def)

lemma held_list_upd [simp]:
  "held_list (s\<lparr>sp_accepted := a\<rparr>) = held_list s" "held_list (s\<lparr>sp_queued := q\<rparr>) = held_list s"
  "held_list (s\<lparr>sp_unacked := u\<rparr>) = held_list s" "held_list (s\<lparr>sp_tried := n\<rparr>) = held_list s"
  "held_list (s\<lparr>sp_over := b\<rparr>) = held_list s"
  by (simp_all add: held_list_def)

lemma spec_good_step: "spec_step s s' \<Longrightarrow> spec_good s \<Longrightarrow> spec_good s'"
proof (induction rule: spec_step.induct)
  case (accept s t)
  show ?case
  proof (cases "0 < sp_limit s \<and> length (sp_queued s) = sp_limit s")
    case True
    then obtain x q where "sp_queued s = x # q" by (cases "sp_queued s") auto
    with accept True show ?thesis by (auto simp: spec_good_def suffix_ConsD)
  next
    case False
    with accept show ?thesis by (auto simp: spec_good_def)
  qed
next
  case (take s t ts)
  then have "suffix ts (sp_accepted s)" "t \<in> set (sp_accepted s)"
    by (auto simp: spec_good_def suffix_ConsD dest: set_mono_suffix)
  with take show ?case by (auto simp: spec_good_def)
next
  case (remember s t)
  then show ?case by (auto simp: spec_good_def)
next
  case (attempt s t)
  then show ?case by (auto simp: spec_good_def)
next
  case (give_up s)
  then show ?case by (auto simp: spec_good_def held_list_def)
next
  case (discharge U s)
  then show ?case by (auto simp: spec_good_def)
qed

section \<open>Properties\<close>

text \<open>
  C7: the logger refines the buffer. From a new logger, whose buffer is empty, every reachable
  state stands for a reachable state of the buffer, and every further step of a caller, a
  thread or the destructor is one step of the buffer or leaves it unchanged.
\<close>

theorem logger_refines_buffer:
  assumes "reachable w" "lstep w w'"
  shows "(\<exists>n. spec_step\<^sup>*\<^sup>* (new_spec n) (logger_spec w)) \<and> spec_step (logger_spec w) (logger_spec w')"
proof -
  obtain w0 n where "logger_ok w0" "logger_spec w0 = new_spec n" "lstep\<^sup>*\<^sup>* w0 w"
    using reachable_from_new [OF assms(1)] by blast
  with lg.simulates_runs have "spec_step\<^sup>*\<^sup>* (new_spec n) (logger_spec w)" by metis
  with lg.simulates [OF assms(2) reachable_ok [OF assms(1)]] show ?thesis by blast
qed

theorem logger_refines_buffer_witness:
  "spec_step (logger_spec (sample_logger 1000 0)) (logger_spec (act (A_Add ''s'' ''D'') (sample_logger 1000 0)))"
proof -
  have "lstep (sample_logger 1000 0) (act (A_Add ''s'' ''D'') (sample_logger 1000 0))"
    by (simp add: lstep.add sample_logger_destructing)
  from logger_refines_buffer [OF sample_logger_reachable this] show ?thesis by blast
qed

text \<open>
  The invariant of the buffer, carried over to the logger: in every reachable state the tags waiting
  in the queue are the last accepted ones, in order; the tag in the sender's hands and the tags
  in the cache were accepted; and the sender's tries, the item in its hands and the waiting
  ones are not more than the accepted items.
\<close>

lemma logger_buffer_guarantees:
  assumes "reachable w"
  shows "suffix (sp_queued (logger_spec w)) (tag_list (lg_shared w))
    \<and> set (held_list (logger_spec w)) \<union> dom (map_of (the_cache (lg_shared w))) \<subseteq> set (tag_list (lg_shared w))
    \<and> m_numSend (m_dataSender w) + length (held_list (logger_spec w)) + queue_size (m_incomingQueue w)
        \<le> length (items (lg_shared w))"
proof -
  obtain w0 n where "logger_ok w0" "logger_spec w0 = new_spec n" "lstep\<^sup>*\<^sup>* w0 w"
    using reachable_from_new [OF assms] by blast
  then have "spec_good (logger_spec w)"
    using lg.abstract_invariant [of w0 w spec_good] spec_good_new spec_good_step by metis
  then show ?thesis
    by (simp add: spec_good_def logger_spec_def spec_of_def tag_list_length queue_size_def)
qed

end
