(* ===== verification/Logger_Shutdown.thy ===== *)
theory Logger_Shutdown
  imports Logger_Spec
begin

text \<open>
  The end of \<open>BufferedLogger\<close>: after its destructor has set every stop flag it waits for the
  three threads. Here they are run on, in any interleaving, and shown to end: a natural
  number, computed from where the threads are and from the size of the cache, goes down
  with every step.
\<close>

section \<open>Moves of the threads\<close>

text \<open>
  A call of \<open>Read\<close> that the reader begins now sees the flag, which is set. But it may be inside of
  one, waiting in \<open>poll\<close> say, that began before: \<open>Read_Returns\<close> is the return of that call, with any
  result, and until then the reader does nothing. The first component of the state says whether
  there is such a call.
\<close>

datatype thread_move =
    M_Sender thread_input
  | M_Resender thread_input
  | M_Reader bool "poll_res list" "read_sys list"
  | M_Read_Returns "string option result"

text \<open>\<open>Read\<close> closes the socket at the end of the stream and on a socket exception.\<close>

definition after_Read :: "string option result \<Rightarrow> socket_client \<Rightarrow> socket_client" where
  "after_Read res c =
     (case res of
        Inl e \<Rightarrow> if is_socket_exception e then Close c else c
      | Inr None \<Rightarrow> c
      | Inr (Some s) \<Rightarrow> if s = [] then Close c else c)"

definition read_returns :: "string option result \<Rightarrow> logger \<Rightarrow> logger" where
  "read_returns res w =
     (case m_sockReader w of
        Reading partialData s \<Rightarrow>
          w\<lparr>m_sockReader := begin_DoRead \<lparr>stop_before = False, read_result = as_read_result res, stop_after = True\<rparr> partialData
               (s\<lparr>r_dataCache := dataCache (lg_shared w)\<rparr>),
            lg_shared := (lg_shared w)\<lparr>sockClient := after_Read res (sockClient (lg_shared w))\<rparr>\<rparr>
      | _ \<Rightarrow> w)"

fun move :: "thread_move \<Rightarrow> bool \<times> logger \<Rightarrow> bool \<times> logger" where
  "move (M_Sender inp) (in_Read, w) = (in_Read, sender_thread inp w)"
| "move (M_Resender inp) (in_Read, w) = (in_Read, resender_thread inp w)"
| "move (M_Reader stop2 polls reads) (in_Read, w) = (in_Read, reader_thread True stop2 polls reads w)"
| "move (M_Read_Returns res) (in_Read, w) = (False, read_returns res w)"

definition resender_over :: "data_resender option \<Rightarrow> bool" where
  "resender_over r \<longleftrightarrow> (case r of None \<Rightarrow> True | Some r \<Rightarrow> (case rs_pc r of R_Done n \<Rightarrow> True | _ \<Rightarrow> False))"

definition reader_over :: "'v read_run \<Rightarrow> bool" where
  "reader_over run \<longleftrightarrow> (case run of Read_Returned s \<Rightarrow> True | Read_Threw e s \<Rightarrow> True | _ \<Rightarrow> False)"

text \<open>
  A move of a thread that still runs, in which the calls of \<open>Send\<close> return; they do if the first
  turn of their loops sees the client's stop flag (\<open>stop_seen_returns\<close>), which the destructor
  sets before all others.
\<close>

fun busy :: "thread_move \<Rightarrow> bool \<times> logger \<Rightarrow> bool" where
  "busy (M_Sender inp) (in_Read, w) = (sends_return inp \<and> \<not> is_done (s_pc (m_dataSender w)))"
| "busy (M_Resender inp) (in_Read, w) = (sends_return inp \<and> \<not> resender_over (m_dataResender w))"
| "busy (M_Reader stop2 polls reads) (in_Read, w) = (\<not> in_Read \<and> \<not> reader_over (m_sockReader w))"
| "busy (M_Read_Returns res) (in_Read, w) = in_Read"

fun busy_run :: "thread_move list \<Rightarrow> bool \<times> logger \<Rightarrow> bool" where
  "busy_run [] st = True"
| "busy_run (m # ms) st = (busy m st \<and> busy_run ms (move m st))"

text \<open>Only a reader that is about to read can be inside of \<open>Read\<close>.\<close>

definition may_read :: "bool \<times> logger \<Rightarrow> bool" where
  "may_read st \<longleftrightarrow> (fst st \<longrightarrow> (\<exists>partialData s. m_sockReader (snd st) = Reading partialData s))"

definition threads_over :: "logger \<Rightarrow> bool" where
  "threads_over w \<longleftrightarrow> is_done (s_pc (m_dataSender w)) \<and> resender_over (m_dataResender w) \<and> reader_over (m_sockReader w)"

definition stopping :: "logger \<Rightarrow> bool" where
  "stopping w \<longleftrightarrow> m_stopSender (m_dataSender w) \<and> stopOnceEmpty (m_incomingQueue w)
     \<and> pred_option m_stopMe (m_dataResender w) \<and> m_stopRead w"

section \<open>The measure\<close>

text \<open>Steps a stopped resender still makes while the cache has \<open>k\<close> entries.\<close>

fun resender_left :: "nat \<Rightarrow> resender_pc \<Rightarrow> nat" where
  "resender_left k (R_Done n) = 0"
| "resender_left k R_Loop = 1"
| "resender_left k R_Waiting = 1"
| "resender_left k (R_Items vs) = 2 * length vs + 2"
| "resender_left k (R_Sending s vs) = 2 * length vs + 3"
| "resender_left k R_Copy = 2 * k + 3"
| "resender_left k (R_Erase ks) = 2 * k + 4"
| "resender_left k R_Filter = 2 * k + 5"
| "resender_left k R_Size = 2 * k + 6"

lemma resender_left_mono: "k \<le> k' \<Longrightarrow> resender_left k pc \<le> resender_left k' pc"
  by (cases pc) simp_all

lemma resender_left_Suc: "resender_left (Suc k) pc \<le> resender_left k pc + 2"
  by (cases pc) simp_all

definition cached :: "shared \<Rightarrow> nat" where
  "cached sh = card (dom (map_of (the_cache sh)))"

definition resender_part :: "nat \<Rightarrow> data_resender option \<Rightarrow> nat" where
  "resender_part k r = (case r of None \<Rightarrow> 0 | Some r \<Rightarrow> resender_left k (rs_pc r))"

definition reader_part :: "'v read_run \<Rightarrow> nat" where
  "reader_part run = (if reader_over run then 0 else split_left run + 1)"

definition joins_left :: "logger \<Rightarrow> nat" where
  "joins_left w = 3 * steps_left (s_pc (m_dataSender w))
     + resender_part (cached (lg_shared w)) (m_dataResender w) + reader_part (m_sockReader w)"

lemma resender_part_mono: "k \<le> k' \<Longrightarrow> resender_part k r \<le> resender_part k' r"
  by (cases r) (simp_all add: resender_part_def resender_left_mono)

lemma resender_part_Suc: "resender_part (Suc k) r \<le> resender_part k r + 2"
  using resender_left_Suc by (cases r) (simp_all add: resender_part_def)

lemma cached_mono: "dom (map_of (the_cache sh')) \<subseteq> dom (map_of (the_cache sh)) \<Longrightarrow> cached sh' \<le> cached sh"
  unfolding cached_def by (rule card_mono [OF finite_dom_map_of])

lemma cached_insert: "dom (map_of (the_cache sh')) \<subseteq> insert t (dom (map_of (the_cache sh))) \<Longrightarrow> cached sh' \<le> Suc (cached sh)"
proof -
  assume "dom (map_of (the_cache sh')) \<subseteq> insert t (dom (map_of (the_cache sh)))"
  then have "cached sh' \<le> card (insert t (dom (map_of (the_cache sh))))"
    unfolding cached_def by (intro card_mono) (simp_all add: finite_dom_map_of)
  also have "\<dots> \<le> Suc (cached sh)"
    unfolding cached_def by (simp add: card_insert_if finite_dom_map_of)
  finally show ?thesis .
qed

lemma spec_step_unacked: "spec_step s s' \<Longrightarrow> \<exists>t. sp_unacked s' \<subseteq> insert t (sp_unacked s)"
  by (induction rule: spec_step.induct) auto

lemma map_size_cached: "cache_ok sh \<Longrightarrow> map_size (the_cache sh) = cached sh"
  by (cases "dataCache sh") (simp_all add: cached_def the_cache_def cache_ok_def wf_size [unfolded map_size_def] map_size_def)

section \<open>Every step counts\<close>

lemma resender_step_stop: "m_stopMe (fst (resender_step inp (rs, sh))) = m_stopMe rs"
  by (auto simp: Let_def split: resender_pc.split list.split option.split sum.split prod.split)

lemma visit_order_length:
  assumes "cache_ok sh"
  shows "length (visit_order inp (the_cache sh)) = cached sh"
proof (cases "visits (in_order inp) (the_cache sh)")
  case True
  then have "length (in_order inp) = card (set (keys (the_cache sh)))"
    unfolding visits_def by (metis distinct_card)
  with True show ?thesis by (simp add: visit_order_def cached_def keys_dom)
next
  case False
  then show ?thesis using map_size_cached [OF assms] by (simp add: visit_order_def keys_def map_size_def)
qed

lemma resender_step_counts:
  assumes "shared_ok sh" "m_stopMe rs" "sends_return inp"
    and "\<forall>m. rs_pc rs \<noteq> R_Done m"
    and "resender_step inp (rs, sh) = (rs', sh')"
  shows "resender_left (cached sh) (rs_pc rs') < resender_left (cached sh) (rs_pc rs)"
proof (cases "rs_pc rs")
  case R_Copy
  have "cache_ok sh" using assms(1) by (simp add: shared_ok_def)
  from visit_order_length [OF this] R_Copy assms(5) show ?thesis by (auto simp: values_in_def Let_def)
next
  case (R_Items vs)
  then show ?thesis
    using assms(5)
    by (cases vs rule: list.exhaust; cases "hd vs") (auto split: prod.splits sum.splits)
next
  case (R_Sending s rest)
  obtain r sh1 where "client_Send s inp sh = Some (r, sh1)"
    using assms(3) unfolding sends_return_def by fast
  with R_Sending assms(5) show ?thesis by (cases r) auto
qed (use assms in \<open>auto simp: Let_def split: if_splits\<close>)

lemma sender_move_counts:
  assumes "logger_ok w" "stopping w" "busy (M_Sender inp) (in_Read, w)"
  shows "joins_left (sender_thread inp w) < joins_left w"
proof -
  let ?ds = "m_dataSender w" and ?q = "m_incomingQueue w" and ?sh = "lg_shared w"
  obtain ds q sh where st: "sender_step inp (?ds, ?q, ?sh) = (ds, q, sh)" by (metis prod_cases3)
  have ok: "sender_ok ?ds ?q ?sh" using assms(1) by (simp add: logger_ok_def)
  have "sender_step_spec (?ds, ?q, ?sh) (ds, q, sh)" using sender_step_ok [OF ok, of inp] st by simp
  then have "s_pc ds \<noteq> S_Null_Deref" "s_pc ?ds \<noteq> S_Null_Deref"
    using ok by (auto simp: sender_step_spec_def sender_ok_def)
  with stopped_step [of ?ds ?q inp ?sh] assms(2,3) st
  have less: "steps_left (s_pc ds) < steps_left (s_pc ?ds)" by (auto simp: stopping_def simp del: sender_step.simps)
  obtain t where "dom (map_of (the_cache sh)) \<subseteq> insert t (dom (map_of (the_cache ?sh)))"
    using spec_step_unacked [OF sender_step_simulated [OF ok st]] by (auto simp: spec_of_def)
  then have "cached sh \<le> Suc (cached ?sh)" by (rule cached_insert)
  then have rp: "resender_part (cached sh) (m_dataResender w) \<le> resender_part (cached ?sh) (m_dataResender w) + 2"
    by (rule order_trans [OF resender_part_mono resender_part_Suc])
  have "joins_left (sender_thread inp w) = 3 * steps_left (s_pc ds)
      + resender_part (cached sh) (m_dataResender w) + reader_part (m_sockReader w)"
    using st by (simp add: joins_left_def sender_thread_def del: sender_step.simps)
  with rp less show ?thesis by (simp add: joins_left_def [of w])
qed

lemma resender_move_counts:
  assumes "logger_ok w" "stopping w" "busy (M_Resender inp) (in_Read, w)"
  shows "joins_left (resender_thread inp w) < joins_left w"
proof -
  let ?sh = "lg_shared w"
  obtain r where r: "m_dataResender w = Some r" and run: "\<forall>n. rs_pc r \<noteq> R_Done n"
    using assms(3) by (cases "m_dataResender w") (auto simp: resender_over_def split: resender_pc.splits)
  obtain r' sh where st: "resender_step inp (r, ?sh) = (r', sh)" by fastforce
  have ok: "shared_ok ?sh" using assms(1) by (simp add: logger_ok_def sender_ok_def)
  have "resender_left (cached ?sh) (rs_pc r') < resender_left (cached ?sh) (rs_pc r)"
    by (rule resender_step_counts [OF ok _ _ run st]) (use assms(2,3) r in \<open>simp_all add: stopping_def\<close>)
  moreover have w': "resender_thread inp w = w\<lparr>m_dataResender := Some r', lg_shared := sh\<rparr>"
    using r st by (simp add: resender_thread_def del: resender_step.simps)
  have "cached sh \<le> cached ?sh"
    by (rule cached_mono) (rule resender_shrinks(1) [OF assms(1) r st])
  then have "resender_left (cached sh) (rs_pc r') \<le> resender_left (cached ?sh) (rs_pc r')"
    by (rule resender_left_mono)
  ultimately show ?thesis
    unfolding w' by (simp add: joins_left_def resender_part_def r)
qed

lemma reader_step_counts:
  assumes "\<not> reader_over run"
  shows "reader_part (fst (reader_step True stop2 polls reads (run, sh))) < reader_part run"
proof (cases run)
  case (Splitting str dPos iss item s)
  then show ?thesis
    using item_step_left [of str dPos iss item "s\<lparr>r_dataCache := dataCache sh\<rparr>" s]
    by (simp add: reader_part_def reader_over_def Let_def del: split_left.simps(1))
qed (use assms in \<open>simp_all add: reader_part_def reader_over_def reader_Read_def begin_DoRead_def\<close>)

lemma reader_move_counts:
  assumes "busy (M_Reader stop2 polls reads) (in_Read, w)"
  shows "joins_left (reader_thread True stop2 polls reads w) < joins_left w"
proof -
  let ?w = "reader_thread True stop2 polls reads w"
  have t: "reader_step True stop2 polls reads (m_sockReader w, lg_shared w) = (m_sockReader ?w, lg_shared ?w)"
    by (simp add: reader_thread_def split_beta)
  have "m_dataSender ?w = m_dataSender w" "m_dataResender ?w = m_dataResender w"
    by (simp_all add: reader_thread_def split_beta)
  moreover have "cached (lg_shared ?w) \<le> cached (lg_shared w)"
    by (rule cached_mono) (rule cache_sub_dom [OF reader_step_frame(1) [OF t]])
  moreover have "reader_part (m_sockReader ?w) < reader_part (m_sockReader w)"
    using reader_step_counts [of "m_sockReader w" stop2 polls reads "lg_shared w"] assms t by simp
  ultimately show ?thesis
    unfolding joins_left_def by (simp add: add_le_less_mono resender_part_mono)
qed

lemma begin_DoRead_stopped:
  "reader_part (begin_DoRead \<lparr>stop_before = False, read_result = r, stop_after = True\<rparr> partialData s) \<le> 1"
  by (auto simp: begin_DoRead_def reader_part_def reader_over_def split: sum.split)

lemma read_returns_counts:
  assumes "m_sockReader w = Reading partialData s"
  shows "joins_left (read_returns res w) \<le> joins_left w"
proof -
  have "reader_part (m_sockReader w) = 1" using assms by (simp add: reader_part_def reader_over_def)
  with assms begin_DoRead_stopped show ?thesis
    by (simp add: joins_left_def read_returns_def cached_def the_cache_def)
qed

text \<open>No thread touches a flag.\<close>

lemma sender_thread_flags:
  assumes "logger_ok w"
  shows "m_stopSender (m_dataSender (sender_thread inp w)) = m_stopSender (m_dataSender w)"
    and "stopOnceEmpty (m_incomingQueue (sender_thread inp w)) = stopOnceEmpty (m_incomingQueue w)"
    and "m_dataResender (sender_thread inp w) = m_dataResender w" "m_stopRead (sender_thread inp w) = m_stopRead w"
    and "m_destructing (sender_thread inp w) = m_destructing w"
proof -
  obtain ds q sh where st: "sender_step inp (m_dataSender w, m_incomingQueue w, lg_shared w) = (ds, q, sh)"
    by (metis prod_cases3)
  have "sender_ok (m_dataSender w) (m_incomingQueue w) (lg_shared w)" using assms by (simp add: logger_ok_def)
  from sender_step_ok [OF this, of inp] st
  have "m_stopSender ds = m_stopSender (m_dataSender w)" "stopOnceEmpty q = stopOnceEmpty (m_incomingQueue w)"
    by (simp_all add: sender_step_spec_def)
  with st show "m_stopSender (m_dataSender (sender_thread inp w)) = m_stopSender (m_dataSender w)"
    "stopOnceEmpty (m_incomingQueue (sender_thread inp w)) = stopOnceEmpty (m_incomingQueue w)"
    "m_dataResender (sender_thread inp w) = m_dataResender w" "m_stopRead (sender_thread inp w) = m_stopRead w"
    "m_destructing (sender_thread inp w) = m_destructing w"
    by (simp_all add: sender_thread_def del: sender_step.simps)
qed

lemma resender_thread_flags:
  "m_dataSender (resender_thread inp w) = m_dataSender w" "m_incomingQueue (resender_thread inp w) = m_incomingQueue w"
  "pred_option m_stopMe (m_dataResender (resender_thread inp w)) = pred_option m_stopMe (m_dataResender w)"
  "m_stopRead (resender_thread inp w) = m_stopRead w" "m_destructing (resender_thread inp w) = m_destructing w"
  using resender_step_stop [of inp "the (m_dataResender w)" "lg_shared w"]
  by (auto simp: resender_thread_def split_beta simp del: resender_step.simps split: option.split)

lemma reader_thread_flags:
  "m_dataSender (reader_thread s1 s2 polls reads w) = m_dataSender w"
  "m_incomingQueue (reader_thread s1 s2 polls reads w) = m_incomingQueue w"
  "m_dataResender (reader_thread s1 s2 polls reads w) = m_dataResender w"
  "m_stopRead (reader_thread s1 s2 polls reads w) = m_stopRead w"
  "m_destructing (reader_thread s1 s2 polls reads w) = m_destructing w"
  by (simp_all add: reader_thread_def split_beta)

lemmas thread_flags = sender_thread_flags resender_thread_flags reader_thread_flags

lemma read_returns_flags:
  "m_dataSender (read_returns res w) = m_dataSender w" "m_incomingQueue (read_returns res w) = m_incomingQueue w"
  "m_dataResender (read_returns res w) = m_dataResender w" "m_stopRead (read_returns res w) = m_stopRead w"
  by (simp_all add: read_returns_def split: read_run.split)

lemma logger_ok_read_returns:
  assumes "logger_ok w"
  shows "logger_ok (read_returns res w)"
proof (cases "m_sockReader w")
  case (Reading partialData s)
  let ?sh = "(lg_shared w)\<lparr>sockClient := after_Read res (sockClient (lg_shared w))\<rparr>"
  have "logger_ok (w\<lparr>lg_shared := ?sh\<rparr>)"
    by (rule logger_ok_shared [OF assms]) (use assms in \<open>simp_all add: shared_ok_client same_items_client logger_ok_def sender_ok_def\<close>)
  then show ?thesis using Reading by (simp add: read_returns_def logger_ok_def)
qed (use assms in \<open>simp_all add: read_returns_def\<close>)

definition shutting :: "bool \<times> logger \<Rightarrow> bool" where
  "shutting st \<longleftrightarrow> logger_ok (snd st) \<and> stopping (snd st) \<and> may_read st"

lemma other_threads_read:
  "m_sockReader (sender_thread inp w) = m_sockReader w" "m_sockReader (resender_thread inp w) = m_sockReader w"
  by (simp_all add: sender_thread_def resender_thread_def split_beta del: sender_step.simps resender_step.simps split: option.split)

lemma move_keeps:
  assumes "shutting st" "busy m st"
  shows "shutting (move m st)"
proof -
  obtain b w where st: "st = (b, w)" by (cases st)
  have "logger_ok (snd (move m st))" "stopping (snd (move m st))"
    using assms(1) unfolding st
    by (cases m; simp add: shutting_def logger_ok_sender logger_ok_resender logger_ok_reader logger_ok_read_returns
        stopping_def thread_flags read_returns_flags)+
  moreover have "may_read (move m st)"
    using assms unfolding st by (cases m) (simp_all add: shutting_def may_read_def other_threads_read)
  ultimately show ?thesis by (simp add: shutting_def)
qed

text \<open>The flags are set in the order of the destructor, and stay set.\<close>

definition flags_set :: "logger \<Rightarrow> bool" where
  "flags_set w \<longleftrightarrow> (2 \<le> m_destructing w \<longrightarrow> stopOnceEmpty (m_incomingQueue w))
     \<and> (3 \<le> m_destructing w \<longrightarrow> m_stopSender (m_dataSender w))
     \<and> (4 \<le> m_destructing w \<longrightarrow> pred_option m_stopMe (m_dataResender w))
     \<and> (5 \<le> m_destructing w \<longrightarrow> m_stopRead w)"

lemma flags_set_step: "lstep w w' \<Longrightarrow> logger_ok w \<Longrightarrow> flags_set w \<Longrightarrow> flags_set w'"
proof (induction rule: lstep.induct)
  case (add w now source sad svlist)
  then show ?case
    by (simp add: flags_set_def caller_adds_def bl_AddData_def alloc_item_def split: prod.split)
next
  case (destructor w)
  then show ?case
    by (auto simp: flags_set_def destructor_step_def Let_def stop_once_empty_def sender_Stop_def resender_Stop_def
        pred_option_def)
qed (simp_all add: flags_set_def WaitUntilAllSend_begin_def stop_once_empty_def thread_flags)

lemma reachable_flags: "reachable w \<Longrightarrow> flags_set w"
proof (induction rule: reachable.induct)
  case (init f resendMS connMS limit ackMS c ids w)
  then show ?case by (auto simp: flags_set_def new_buffered_logger_def split: sum.splits)
qed (auto intro: flags_set_step reachable_ok)

lemma destructed_stopping: "reachable w \<Longrightarrow> m_destructing w = 5 \<Longrightarrow> stopping w"
  using reachable_flags [of w] by (simp add: flags_set_def stopping_def)

text \<open>
  The members are destroyed after that, the last declared first. The client is destroyed with
  the last pointer to it.
\<close>

definition reader_destructor :: "logger \<Rightarrow> logger" where
  "reader_destructor w = reader_Stop w"

definition members_destroyed :: "logger \<Rightarrow> logger" where
  "members_destroyed w =
     (let w1 = w\<lparr>m_dataSender := sender_destructor (m_dataSender w)\<rparr>;
          w2 = w1\<lparr>m_dataResender := map_option resender_destructor (m_dataResender w1)\<rparr>;
          w3 = reader_destructor w2;
          w4 = w3\<lparr>m_incomingQueue := destroy_queue (m_incomingQueue w3)\<rparr>
      in w4\<lparr>lg_shared := (lg_shared w4)\<lparr>sockClient := client_destructor (sockClient (lg_shared w4))\<rparr>\<rparr>)"

lemma members_destroyed_closes:
  "m_sockfd (sockClient (lg_shared (members_destroyed w))) = INVALID_SOCKET"
  "m_stopClient (sockClient (lg_shared (members_destroyed w)))" "stopping (members_destroyed w)"
  by (simp_all add: members_destroyed_def Let_def client_destructor_def client_Stop_def Close_def stopping_def
      sender_destructor_def sender_Stop_def reader_destructor_def destroy_queue_def stop_once_empty_def
      pred_option_def resender_destructor_def resender_Stop_def option.set_map)

section \<open>The joins\<close>

definition moves_left :: "bool \<times> logger \<Rightarrow> nat" where
  "moves_left st = joins_left (snd st) + (if fst st then 1 else 0)"

lemma move_counts:
  assumes "shutting st" "busy m st"
  shows "moves_left (move m st) < moves_left st"
proof -
  obtain b w where st: "st = (b, w)" by (cases st)
  show ?thesis
  proof (cases m)
    case (M_Read_Returns res)
    with assms st obtain partialData s where "m_sockReader w = Reading partialData s" by (auto simp: shutting_def may_read_def)
    from read_returns_counts [OF this, of res] M_Read_Returns assms(2) st show ?thesis by (simp add: moves_left_def)
  qed (use assms st sender_move_counts resender_move_counts reader_move_counts in \<open>simp_all add: shutting_def moves_left_def\<close>)
qed

lemma busy_run_bound:
  "shutting st \<Longrightarrow> busy_run ms st \<Longrightarrow> length ms \<le> moves_left st"
proof (induction ms arbitrary: st)
  case (Cons m ms)
  then have "busy m st" "busy_run ms (move m st)" by simp_all
  with Cons.IH [OF move_keeps [OF Cons.prems(1)]] move_counts [OF Cons.prems(1)] show ?case by fastforce
qed simp

text \<open>A thread that is not over can move, the reader inside of \<open>Read\<close> by returning.\<close>

definition all_over :: "bool \<times> logger \<Rightarrow> bool" where
  "all_over st \<longleftrightarrow> \<not> fst st \<and> threads_over (snd st)"

lemma not_over_moves: "\<not> all_over st \<Longrightarrow> \<exists>m. busy m st"
proof -
  obtain b w where st: "st = (b, w)" by (cases st)
  have "busy (M_Sender stopping_input) st \<longleftrightarrow> \<not> is_done (s_pc (m_dataSender w))"
    "busy (M_Resender stopping_input) st \<longleftrightarrow> \<not> resender_over (m_dataResender w)"
    "busy (M_Reader True [] []) st \<longleftrightarrow> \<not> b \<and> \<not> reader_over (m_sockReader w)"
    "busy (M_Read_Returns (Inr None)) st \<longleftrightarrow> b"
    by (simp_all add: st stopping_input_returns)
  then show "\<not> all_over st \<Longrightarrow> \<exists>m. busy m st"
    unfolding all_over_def threads_over_def by (metis fst_conv snd_conv st)
qed

lemma busy_run_append: "busy_run (ms @ ms') st \<longleftrightarrow> busy_run ms st \<and> busy_run ms' (fold move ms st)"
  by (induction ms arbitrary: st) simp_all

lemma run_to_the_end:
  assumes "shutting st"
  shows "\<exists>ms. busy_run ms st \<and> all_over (fold move ms st)"
  using assms
proof (induction "moves_left st" arbitrary: st rule: less_induct)
  case less
  show ?case
  proof (cases "all_over st")
    case True
    then show ?thesis by (intro exI [of _ "[]"]) simp
  next
    case False
    then obtain m where m: "busy m st" using not_over_moves by blast
    from less.hyps [OF move_counts [OF less.prems m] move_keeps [OF less.prems m]] obtain ms
      where "busy_run ms (move m st)" "all_over (fold move ms (move m st))" by blast
    with m show ?thesis by (intro exI [of _ "m # ms"]) simp
  qed
qed

lemma moves_keep: "shutting st \<Longrightarrow> busy_run ms st \<Longrightarrow> shutting (fold move ms st)"
  by (induction ms arbitrary: st) (simp_all add: move_keeps)

lemma still_in_Read: "\<forall>res. M_Read_Returns res \<notin> set ms \<Longrightarrow> fst (fold move ms st) = fst st"
proof (induction ms arbitrary: st)
  case (Cons m ms)
  then have "fst (move m st) = fst st" by (cases st; cases m) auto
  with Cons show ?case by simp
qed simp

text \<open>
  C27: the destructor returns, if the calls in progress do. Once it has set the flags, wherever the
  threads were, the reader inside of a call of \<open>Read\<close> or not, no interleaving of their steps is
  longer than \<open>joins_left\<close> (three steps for each step left to the sender, two for each cached
  item, one for each byte the reader has not looked at, and a few more) and one for that call;
  calls of \<open>Send\<close> return. Every interleaving can be continued until all three are over and can be
  joined, by the return of the call of \<open>Read\<close> if there is one; the members destroyed then leave
  the socket closed. As long as that call does not return, the reader is not over.
\<close>

theorem destructor_joins:
  assumes "reachable w" "m_destructing w = 5" "busy_run ms (in_Read, w)"
    and "in_Read \<longrightarrow> (\<exists>partialData s. m_sockReader w = Reading partialData s)"
  shows "length ms \<le> joins_left w + (if in_Read then 1 else 0)
    \<and> (\<exists>more w'. busy_run (ms @ more) (in_Read, w) \<and> fold move (ms @ more) (in_Read, w) = (False, w') \<and> threads_over w'
         \<and> m_sockfd (sockClient (lg_shared (members_destroyed w'))) = INVALID_SOCKET)
    \<and> (in_Read \<and> (\<forall>res. M_Read_Returns res \<notin> set ms) \<longrightarrow> \<not> reader_over (m_sockReader (snd (fold move ms (in_Read, w)))))"
proof (intro conjI impI)
  have ok: "shutting (in_Read, w)"
    using assms(1,2,4) by (simp add: shutting_def may_read_def reachable_ok destructed_stopping)
  show "length ms \<le> joins_left w + (if in_Read then 1 else 0)"
    using busy_run_bound [OF ok assms(3)] by (simp add: moves_left_def)
  have end_ok: "shutting (fold move ms (in_Read, w))" by (rule moves_keep [OF ok assms(3)])
  obtain more where "busy_run more (fold move ms (in_Read, w))" "all_over (fold move more (fold move ms (in_Read, w)))"
    using run_to_the_end [OF end_ok] by blast
  with assms(3) show "\<exists>more w'. busy_run (ms @ more) (in_Read, w) \<and> fold move (ms @ more) (in_Read, w) = (False, w') \<and> threads_over w'
         \<and> m_sockfd (sockClient (lg_shared (members_destroyed w'))) = INVALID_SOCKET"
    by (intro exI [of _ more] exI [of _ "snd (fold move (ms @ more) (in_Read, w))"])
       (simp add: busy_run_append members_destroyed_closes all_over_def prod_eq_iff)
  assume "in_Read \<and> (\<forall>res. M_Read_Returns res \<notin> set ms)"
  with still_in_Read [of ms "(in_Read, w)"] end_ok show "\<not> reader_over (m_sockReader (snd (fold move ms (in_Read, w))))"
    by (auto simp: shutting_def may_read_def reader_over_def)
qed

lemma destructed_reachable: "reachable w \<Longrightarrow> reachable ((destructor_step ^^ n) w)"
  by (induction n) (auto intro: reachable.step lstep.destructor)

lemma destructor_steps_frame:
  "m_destructing w = 0 \<Longrightarrow> n \<le> 5 \<Longrightarrow> m_destructing ((destructor_step ^^ n) w) = n"
  "m_sockReader ((destructor_step ^^ n) w) = m_sockReader w"
  "s_pc (m_dataSender ((destructor_step ^^ n) w)) = s_pc (m_dataSender w)"
  by (induction n) (auto simp: destructor_step_def sender_Stop_def Let_def)

theorem destructor_joins_witness:
  "\<exists>more w'. fold move ([M_Sender stopping_input, M_Read_Returns (Inl (Socket_Exception 0 ''poll()''))] @ more)
     (True, (destructor_step ^^ 5) (race_state 8)) = (False, w') \<and> threads_over w'"
proof -
  let ?w = "(destructor_step ^^ 5) (race_state 8)" and ?ms = "[M_Sender stopping_input, M_Read_Returns (Inl (Socket_Exception 0 ''poll()''))]"
  have "m_destructing (race_state 8) = 0" by code_simp
  then have five: "m_destructing ?w = 5" by (rule destructor_steps_frame(1)) simp
  have "m_sockReader (race_state 8) = Reading [] new_reader" by code_simp
  then have reader: "\<exists>p s. m_sockReader ?w = Reading p s" unfolding destructor_steps_frame by blast
  have "\<not> is_done (s_pc (m_dataSender (race_state 8)))" by code_simp
  then have sender: "\<not> is_done (s_pc (m_dataSender ?w))" unfolding destructor_steps_frame .
  have "busy_run ?ms (True, ?w)"
    using sender by (simp only: busy_run.simps busy.simps move.simps stopping_input_returns simp_thms)
  from destructor_joins [OF destructed_reachable [OF race_reachable] five this] reader show ?thesis by blast
qed

end
