(* ===== verification/Logger_Order.thy ===== *)
theory Logger_Order
  imports Buffered_Logger
begin

text \<open>
  \<open>BufferedLogger\<close> without a cache: what is on the wire is in the order of \<open>AddData\<close>, and of no
  item twice, under any interleaving of callers, threads and destructor.
\<close>

section \<open>The invariant\<close>

definition sent_as :: "shared \<Rightarrow> nat \<Rightarrow> string \<Rightarrow> bool" where
  "sent_as sh p x \<longleftrightarrow> p < length (items sh) \<and> m_djsonData (items sh ! p) \<noteq> [] \<and> prefix x (c_str (m_djsonData (items sh ! p)))"

text \<open>The item in the sender's hands comes after those sent and before those queued, which are from \<open>k\<close> on.\<close>

fun in_hand :: "shared \<Rightarrow> nat list \<Rightarrow> nat \<Rightarrow> sender_pc \<Rightarrow> bool" where
  "in_hand sh ps k (S_Popped p) = (p < k \<and> (\<forall>q \<in> set ps. q < p))"
| "in_hand sh ps k (S_Uncached p) = (p < k \<and> (\<forall>q \<in> set ps. q < p))"
| "in_hand sh ps k (S_Sending s) =
     (\<exists>p < k. (\<forall>q \<in> set ps. q < p) \<and> p < length (items sh) \<and> m_djsonData (items sh ! p) = s \<and> s \<noteq> [])"
| "in_hand sh ps k (S_Caching p) = False"
| "in_hand sh ps k (S_Lookup t) = False"
| "in_hand sh ps k (S_Found t) = False"
| "in_hand sh ps k (S_Fetch t) = False"
| "in_hand sh ps k pc = True"

definition ordered :: "nat list \<Rightarrow> nat \<Rightarrow> sender_pc \<Rightarrow> item_ptr list \<Rightarrow> shared \<Rightarrow> bool" where
  "ordered ps k pc queue sh \<longleftrightarrow> dataCache sh = None \<and> k \<le> length (items sh) \<and> queue = map Some [k..<length (items sh)]
     \<and> sorted_wrt (<) ps \<and> (\<forall>p \<in> set ps. p < k) \<and> list_all2 (sent_as sh) ps (wire sh) \<and> in_hand sh ps k pc"

definition logger_ordered :: "logger \<Rightarrow> bool" where
  "logger_ordered w \<longleftrightarrow> m_dataResender w = None
     \<and> (\<exists>ps k. ordered ps k (s_pc (m_dataSender w)) (data_queue (m_incomingQueue w)) (lg_shared w))"

section \<open>The steps keep it\<close>

lemma sent_as_kept:
  assumes "length (items sh) \<le> length (items sh')"
    and "\<And>q. q \<in> set ps \<Longrightarrow> q < length (items sh) \<Longrightarrow> m_djsonData (items sh' ! q) = m_djsonData (items sh ! q)"
  shows "list_all2 (sent_as sh) ps xs \<Longrightarrow> list_all2 (sent_as sh') ps xs"
proof (rule list.rel_mono_strong)
  fix q x
  assume "q \<in> set ps" "sent_as sh q x"
  with assms show "sent_as sh' q x" by (auto simp: sent_as_def)
qed

lemma ordered_client: "ordered ps k pc queue (sh\<lparr>sockClient := c\<rparr>) = ordered ps k pc queue sh"
proof -
  have "sent_as (sh\<lparr>sockClient := c\<rparr>) = sent_as sh" by (simp add: fun_eq_iff sent_as_def)
  moreover have "in_hand (sh\<lparr>sockClient := c\<rparr>) ps k pc = in_hand sh ps k pc" by (cases pc) simp_all
  ultimately show ?thesis by (simp add: ordered_def)
qed

lemma ordered_add:
  assumes "ordered ps k pc (data_queue q) sh"
  shows "\<exists>k'. ordered ps k' pc (data_queue (push (Some (length (items sh))) q)) (snd (alloc_item item sh))"
proof -
  let ?n = "length (items sh)" and ?sh = "snd (alloc_item item sh)"
  have q: "k \<le> ?n" "data_queue q = map Some [k..<?n]" using assms by (simp_all add: ordered_def)
  obtain k' where k': "k \<le> k'" "k' \<le> Suc ?n" "data_queue (push (Some ?n) q) = map Some [k'..<Suc ?n]"
  proof (cases "is_full q")
    case True
    then have "k < ?n" using q by (auto simp: is_full_def)
    then show thesis using that [of "Suc k"] True q by (simp add: push_contents upt_rec [of k])
  next
    case False
    then show thesis using that [of k] q by (simp add: push_contents)
  qed
  have "list_all2 (sent_as ?sh) ps (wire sh)"
    by (rule sent_as_kept [of sh]) (use assms in \<open>simp_all add: ordered_def alloc_item_def nth_append\<close>)
  moreover have "in_hand ?sh ps k' pc"
    using assms k'(1) by (cases pc) (auto simp: ordered_def alloc_item_def nth_append intro: less_le_trans)
  ultimately show ?thesis
    using assms k' by (intro exI [of _ k']) (auto simp: ordered_def alloc_item_def)
qed

lemma ordered_GetData:
  assumes "ordered ps k (S_Uncached p) queue sh" "enter_Send p ds sh = (ds', sh')" "p < length (items sh)"
  shows "ordered ps k (s_pc ds') queue sh'"
proof (cases "GetData (items sh ! p) (schema_ids sh)")
  case (Inl e)
  with assms show ?thesis by (auto simp: enter_Send_def ptr_GetData_def ordered_def)
next
  case (Inr x)
  obtain s item m where x: "x = (s, item, m)" by (metis prod_cases3)
  have sh': "sh' = sh\<lparr>items := (items sh)[p := item], schema_ids := m\<rparr>" "s_pc ds' = S_Sending s"
    using assms(2) Inr x by (auto simp: enter_Send_def ptr_GetData_def)
  have p: "\<forall>q \<in> set ps. q < p" "p < k" "list_all2 (sent_as sh) ps (wire sh)" using assms(1) by (simp_all add: ordered_def)
  have "list_all2 (sent_as sh') ps (wire sh)"
  proof (rule sent_as_kept [OF _ _ p(3)])
    fix q assume "q \<in> set ps"
    with p(1) have "q \<noteq> p" by blast
    then show "m_djsonData (items sh' ! q) = m_djsonData (items sh ! q)" by (simp add: sh'(1))
  qed (simp add: sh'(1))
  moreover have "in_hand sh' ps k (S_Sending s)"
    using p assms(3) GetData_nonempty [OF Inr [unfolded x]] by (auto simp: sh'(1))
  ultimately show ?thesis
    using assms(1) unfolding ordered_def sh'(2) by (simp add: sh'(1))
qed

lemma ordered_sent:
  assumes "ordered ps k (S_Sending s) queue sh" "finish_Send s inp ds sh = (ds', sh')" "s_pc ds = S_Sending s"
  shows "\<exists>ps'. ordered ps' k (s_pc ds') queue sh'"
proof (cases "client_Send s inp sh")
  case None
  with assms show ?thesis by (auto simp: finish_Send_def)
next
  case (Some x)
  obtain r sh1 where x: "x = (r, sh1)" by fastforce
  obtain acc where sh1: "items sh1 = items sh" "dataCache sh1 = dataCache sh" "wire sh1 = wire sh @ [acc]" "prefix acc (c_str s)"
    using client_Send_frame [OF Some [unfolded x]] by blast
  obtain p where p: "p < k" "\<forall>q \<in> set ps. q < p" "p < length (items sh)" "m_djsonData (items sh ! p) = s" "s \<noteq> []"
    using assms(1) by (auto simp: ordered_def)
  have same: "sent_as sh1 = sent_as sh" by (simp add: fun_eq_iff sent_as_def sh1(1))
  have "list_all2 (sent_as sh) (ps @ [p]) (wire sh @ [acc])"
    using assms(1) p sh1(4) by (intro list_all2_appendI) (simp_all add: ordered_def sent_as_def)
  moreover have "sh' = sh1" "s_pc ds' = S_After \<or> (\<exists>r. s_pc ds' = S_Done r)"
    using assms(2) Some x by (auto simp: finish_Send_def split: sum.splits if_splits)
  ultimately show ?thesis
    using assms(1) p sh1 same by (intro exI [of _ "ps @ [p]"]) (auto simp: ordered_def sorted_wrt_append)
qed

lemma ordered_sender:
  assumes "ordered ps k (s_pc ds) (data_queue q) sh" "sender_step inp (ds, q, sh) = (ds', q', sh')" "sender_ok ds q sh"
  shows "\<exists>ps k. ordered ps k (s_pc ds') (data_queue q') sh'"
proof (cases "s_pc ds")
  case S_Wait
  show ?thesis
  proof (cases rule: pop_cases [of q])
    case (popped v vs)
    then have "k < length (items sh)" using assms(1) by (cases "k = length (items sh)") (auto simp: ordered_def)
    then have "v = Some k" "vs = map Some [Suc k..<length (items sh)]"
      using assms(1) popped by (simp_all add: ordered_def upt_rec [of k])
    with popped \<open>k < length (items sh)\<close> assms S_Wait show ?thesis
      by (intro exI [of _ ps] exI [of _ "Suc k"]) (auto simp: ordered_def)
  qed (use assms S_Wait in \<open>auto simp: ordered_def intro!: exI [of _ ps] exI [of _ k]\<close>)
next
  case (S_Uncached p)
  then have "p < length (items sh)" using assms(3) by (simp add: sender_ok_def)
  with S_Uncached assms ordered_GetData [of ps k p "data_queue q" sh ds] show ?thesis by (auto split: prod.splits)
next
  case (S_Sending s)
  with assms ordered_sent [of ps k s "data_queue q" sh inp ds] show ?thesis by (auto split: prod.splits)
next
  case (S_Popped p)
  with assms show ?thesis by (intro exI [of _ ps] exI [of _ k]) (auto simp: ordered_def InterruptPoint_def split: if_splits)
qed (use assms in \<open>auto simp: ordered_def InterruptPoint_def intro!: exI [of _ ps] exI [of _ k] split: if_splits\<close>)

lemma reader_step_none:
  assumes "reader_step stop1 stop2 polls reads (run, sh) = (run', sh')" "dataCache sh = None"
  shows "\<exists>c. sh' = sh\<lparr>sockClient := c\<rparr>"
proof -
  have "r_dataCache (the_reader (item_step str dPos iss item s)) = None" if "r_dataCache s = None" for str dPos iss item and s :: "item_ptr reader"
    using that by (auto simp: item_step_def ProcessItem_def ProcessTag_def ProcessTagStatus_def erase_tag_def Let_def split: prod.split option.split)
  then show ?thesis
    using assms by (cases run) (auto simp: Let_def split: prod.splits option.splits intro: exI [of _ "sockClient sh"])
qed

lemma logger_ordered_step:
  assumes "lstep w w'" "logger_ok w" "logger_ordered w"
  shows "logger_ordered w'"
  using assms(1)
proof (cases rule: lstep.cases)
  case (add now source sad svlist)
  obtain item c' where i: "new_djson_item_with now source sad (s_counter w) = (item, c')" by fastforce
  have "w' = w\<lparr>lg_shared := snd (alloc_item (item\<lparr>m_svlist := svlist\<rparr>) (lg_shared w)), s_counter := c', m_started := True,
      m_incomingQueue := push (Some (length (items (lg_shared w)))) (m_incomingQueue w)\<rparr>"
    by (simp add: add caller_adds_def i bl_AddData_def alloc_item_def)
  with assms(3) ordered_add show ?thesis by (fastforce simp: logger_ordered_def)
next
  case (sender inp)
  obtain ds q sh where st: "sender_step inp (m_dataSender w, m_incomingQueue w, lg_shared w) = (ds, q, sh)" by (metis prod_cases3)
  have "sender_ok (m_dataSender w) (m_incomingQueue w) (lg_shared w)" using assms(2) by (simp add: logger_ok_def)
  with assms(3) ordered_sender [OF _ st] sender st show ?thesis
    by (auto simp: logger_ordered_def sender_thread_def simp del: sender_step.simps)
next
  case (resender inp)
  with assms(3) show ?thesis by (simp add: logger_ordered_def resender_thread_def)
next
  case (reader stop1 stop2 polls reads)
  obtain run sh where st: "reader_step stop1 stop2 polls reads (m_sockReader w, lg_shared w) = (run, sh)" by fastforce
  have "dataCache (lg_shared w) = None" using assms(3) by (auto simp: logger_ordered_def ordered_def)
  from reader_step_none [OF st this] obtain c where "sh = (lg_shared w)\<lparr>sockClient := c\<rparr>" ..
  with assms(3) reader st show ?thesis by (simp add: logger_ordered_def reader_thread_def ordered_client del: reader_step.simps)
next
  case destructor
  with assms(3) show ?thesis
    by (simp add: logger_ordered_def destructor_step_def Let_def ordered_client stop_once_empty_def sender_Stop_def)
qed (use assms(3) in \<open>simp_all add: logger_ordered_def WaitUntilAllSend_begin_def stop_once_empty_def\<close>)

lemma logger_ordered_new: "new_buffered_logger f 0 resendMS connMS limit c ids = Inr w \<Longrightarrow> logger_ordered w"
  by (auto simp: new_buffered_logger_def logger_ordered_def ordered_def new_queue_def new_data_sender_def split: sum.splits)

lemma steps_ordered:
  assumes "lstep\<^sup>*\<^sup>* w w'" "logger_ok w" "logger_ordered w"
  shows "logger_ok w' \<and> logger_ordered w'"
  using assms by (induction rule: rtranclp_induct) (auto intro: logger_ok_step logger_ordered_step)

section \<open>Property\<close>

text \<open>
  C22: without a cache, messages go out in the order of \<open>AddData\<close> and none twice. However callers,
  sender, reader and destructor interleave, each piece on the wire belongs to one added item, is
  its composed message up to a NUL or a beginning of it, and the items of successive pieces have
  strictly increasing numbers in the order of \<open>AddData\<close>, all smaller than those still queued.
\<close>

theorem sent_in_order:
  assumes "new_buffered_logger f 0 resendMS connMS limit c ids = Inr w0" "lstep\<^sup>*\<^sup>* w0 w"
  shows "\<exists>ps. sorted_wrt (<) ps
    \<and> list_all2 (\<lambda>p x. p < length (items (lg_shared w)) \<and> m_djsonData (items (lg_shared w) ! p) \<noteq> []
         \<and> prefix x (c_str (m_djsonData (items (lg_shared w) ! p)))) ps (wire (lg_shared w))
    \<and> (\<forall>p \<in> set ps. \<forall>q. Some q \<in> set (data_queue (m_incomingQueue w)) \<longrightarrow> p < q)"
proof -
  have "logger_ordered w"
    using steps_ordered [OF assms(2)] logger_ok_init [OF assms(1)] logger_ordered_new [OF assms(1)] by blast
  then obtain ps k where o: "ordered ps k (s_pc (m_dataSender w)) (data_queue (m_incomingQueue w)) (lg_shared w)"
    by (auto simp: logger_ordered_def)
  then have "\<forall>p \<in> set ps. \<forall>q. Some q \<in> set (data_queue (m_incomingQueue w)) \<longrightarrow> p < q"
    by (fastforce simp: ordered_def)
  with o show ?thesis by (auto simp: ordered_def sent_as_def [abs_def])
qed

definition order_run :: logger where
  "order_run = fold act (A_Add ''s'' ''D'' # A_Sender (good_input 20) # A_Sender (good_input 20) # A_Add ''s'' ''E'' # replicate 11 (A_Sender (good_input 20)))
     (sample_logger 0 0)"

theorem sent_in_order_witness:
  "\<exists>ps. sorted_wrt (<) ps \<and> length ps = 2
     \<and> list_all2 (\<lambda>p x. prefix x (c_str (m_djsonData (items (lg_shared order_run) ! p)))) ps (wire (lg_shared order_run))"
proof -
  have steps: "lstep\<^sup>*\<^sup>* w (fold act as w)" if "m_destructing w = 0" "list_all act_ok as" "m_started w" for w as
    using that
  proof (induction as arbitrary: w)
    case (Cons a as)
    have "lstep w (act a w)"
      using Cons.prems by (cases a) (auto simp: honest_def list_all_iff intro: lstep.intros)
    with Cons show ?case by (simp add: act_frame converse_rtranclp_into_rtranclp)
  qed simp
  let ?as = "A_Sender (good_input 20) # A_Sender (good_input 20) # A_Add ''s'' ''E'' # replicate 11 (A_Sender (good_input 20))"
    and ?w = "act (A_Add ''s'' ''D'') (sample_logger 0 0)"
  have "list_all act_ok ?as" by (simp add: list_all_iff good_input_def accepting_def)
  then have "lstep\<^sup>*\<^sup>* ?w (fold act ?as ?w)"
    by (intro steps) (simp_all add: act_frame add_started sample_logger_destructing del: act.simps)
  moreover have "lstep (sample_logger 0 0) ?w" by (simp add: lstep.add sample_logger_destructing)
  ultimately have "lstep\<^sup>*\<^sup>* (sample_logger 0 0) order_run"
    by (simp add: order_run_def converse_rtranclp_into_rtranclp del: act.simps)
  from sent_in_order [OF sample_logger_new this] obtain ps where
    "sorted_wrt (<) ps" "list_all2 (\<lambda>p x. p < length (items (lg_shared order_run)) \<and> m_djsonData (items (lg_shared order_run) ! p) \<noteq> []
         \<and> prefix x (c_str (m_djsonData (items (lg_shared order_run) ! p)))) ps (wire (lg_shared order_run))" by blast
  moreover have "length (wire (lg_shared order_run)) = 2" by code_simp
  ultimately show ?thesis by (metis (mono_tags, lifting) list_all2_lengthD list_all2_mono)
qed

end
