(* ===== verification/Logger_Acked.thy ===== *)
theory Logger_Acked
  imports Buffered_Logger
begin

text \<open>
  The whole cycle of \<open>BufferedLogger\<close> with a cache: items are added, the sender caches and
  sends each of them, the server acknowledges them, and the reader takes them out of the
  cache again. The resender, whose interval has not passed meanwhile, does not move.
\<close>

section \<open>The sender with a cache\<close>

lemma touched_item:
  "GetTag (Touch now item) = GetTag item" "item_frame (Touch now item) = item_frame item"
  "prepared (Touch now item) = prepared item"
  by (simp_all add: Touch_def GetTag_def item_frame_def prepared_def)

lemma item_frame_nonempty: "item_frame item \<noteq> []"
  by (simp add: item_frame_def djson_frame_def)

text \<open>The nine steps that take one item off the queue, cache it, and send it from there.\<close>

lemma drain_one_cached:
  assumes "s_pc ds = S_Loop" "\<not> m_stopSender ds" "data_queue q = Some p # vs" "dataCache sh = Some m"
    "p < length (items sh)" "prepared (items sh ! p)" "length (item_frame (items sh ! p)) \<le> n"
    "- 1 \<le> m_sockfd (sockClient sh)" "good_turns n i8"
    and tag: "GetTag (items sh ! p) = t" "t \<noteq> []" "t \<notin> set (keys m)"
  obtains ds' sh' where "sender_run [i1, i2, i3, i4, i5, i6, i7, i8, i9] (ds, q, sh) = (ds', q\<lparr>data_queue := vs\<rparr>, sh')"
    "s_pc ds' = S_Loop" "\<not> m_stopSender ds'" "m_numSend ds' = m_numSend ds + 1"
    "m_numSuccess ds' = m_numSuccess ds + 1" "dataCache sh' = Some (m @ [(t, Some p)])"
    "items sh' = (items sh)[p := ComposeFullData (Touch (in_now i4 p) (items sh ! p))]"
    "wire sh' = wire sh @ [item_frame (items sh ! p)]" "0 \<le> m_sockfd (sockClient sh')"
    "m_stopClient (sockClient sh') = m_stopClient (sockClient sh)"
proof -
  let ?f = "item_frame (items sh ! p)" and ?m = "m @ [(t, Some p)]"
  let ?touched = "Touch (in_now i4 p) (items sh ! p)"
  let ?sh1 = "ptr_Touch (in_now i4 p) p sh"
  let ?sh2 = "?sh1\<lparr>dataCache := Some ?m\<rparr>"
  let ?sh3 = "?sh2\<lparr>items := (items ?sh2)[p := ComposeFullData ?touched]\<rparr>"
  have f: "c_str ?f = ?f" using assms(6) by (simp add: prepared_def c_str_no_nul)
  obtain c' where c: "Send (Some ?f) (in_conns i8) (in_sends i8) (sockClient sh) = (Some (Inr ()), c', ?f)"
    "0 \<le> m_sockfd c'" "m_stopClient c' = m_stopClient (sockClient sh)"
    using good_Send [OF assms(9), of ?f "sockClient sh"] assms(7,8) f item_frame_nonempty [of "items sh ! p"] by metis
  have at: "items ?sh1 ! p = ?touched" using assms(5) by (simp add: ptr_Touch_def)
  have data: "ptr_GetData p ?sh2 = (Inr ?f, ?sh3)"
    using ptr_GetData_prepared [of ?sh2 p] at assms(6) by (simp add: touched_item)
  have new: "map_add t (Some p) m = Inr ?m"
    using tag by (simp add: map_add_def update_new in_keys_iff)
  have "map_of m t = None" using tag(3) by (simp add: map_of_eq_None_iff keys_def)
  then have "map_of ?m t = Some (Some p)" by (simp add: map_add_Some_iff)
  with tag(2) have get: "cache_Get t ?sh2 = Inr (Some p)" by (simp add: cache_Get_def map_get_def)
  have send: "client_Send ?f i8 ?sh3 = Some (Inr (), ?sh3\<lparr>sockClient := c', wire := wire ?sh3 @ [?f]\<rparr>)"
    using c(1) by (simp add: client_Send_def)
  have steps: "sender_run [i1, i2, i3] (ds, q, sh) = (goto (S_Caching p) ds, q\<lparr>data_queue := vs\<rparr>, sh)"
    using assms(1-4) by (simp add: InterruptPoint_def wait_and_pop_def goto_def)
  moreover have "sender_run [i4, i5, i6] (goto (S_Caching p) ds, q\<lparr>data_queue := vs\<rparr>, sh)
      = (goto (S_Fetch t) ds, q\<lparr>data_queue := vs\<rparr>, ?sh2)"
    using assms(2,4) new get at tag(1)
    by (simp add: cache_item_def ptr_GetTag_def touched_item InterruptPoint_def goto_def Let_def)
  moreover have "sender_run [i7, i8, i9] (goto (S_Fetch t) ds, q\<lparr>data_queue := vs\<rparr>, ?sh2)
      = (ds\<lparr>m_numSend := m_numSend ds + 1, m_numSuccess := m_numSuccess ds + 1, s_pc := S_Loop\<rparr>,
         q\<lparr>data_queue := vs\<rparr>, ?sh3\<lparr>sockClient := c', wire := wire ?sh3 @ [?f]\<rparr>)"
    using assms(2) get data send
    by (simp add: enter_Send_def finish_Send_def InterruptPoint_def goto_def)
  ultimately have run: "sender_run ([i1, i2, i3] @ [i4, i5, i6] @ [i7, i8, i9]) (ds, q, sh)
      = (ds\<lparr>m_numSend := m_numSend ds + 1, m_numSuccess := m_numSuccess ds + 1, s_pc := S_Loop\<rparr>,
         q\<lparr>data_queue := vs\<rparr>, ?sh3\<lparr>sockClient := c', wire := wire ?sh3 @ [?f]\<rparr>)"
    by (simp only: sender_run_append)
  show thesis
    by (rule that [OF run [simplified append_Cons append_Nil]])
      (use assms(2) c(2,3) in \<open>simp_all add: ptr_Touch_def\<close>)
qed

text \<open>The entries of the cache once all items are sent.\<close>

definition entries :: "djson_item list \<Rightarrow> nat list \<Rightarrow> item_ptr cmap" where
  "entries its ps = map (\<lambda>p. (GetTag (its ! p), Some p)) ps"

lemma entries_keys: "keys (entries its ps) = map (\<lambda>p. GetTag (its ! p)) ps"
  by (simp add: entries_def keys_def)

lemma take_nine:
  assumes "9 \<le> length xs"
  obtains a b c d e f g h i where "take 9 xs = [a, b, c, d, e, f, g, h, i]" "h \<in> set xs"
proof -
  from assms obtain a b c d e f g h i ys where "xs = a # b # c # d # e # f # g # h # i # ys"
    by (auto simp: numeral_eq_Suc Suc_le_length_iff)
  then show thesis by (intro that [of a b c d e f g h i]) simp_all
qed

lemma drain_all_cached:
  assumes "s_pc ds = S_Loop" "\<not> m_stopSender ds" "stopOnceEmpty q" "data_queue q = map Some ps"
    "dataCache sh = Some m" "\<forall>p\<in>set ps. p < length (items sh)"
    "\<forall>p\<in>set ps. prepared (items sh ! p) \<and> length (item_frame (items sh ! p)) \<le> n"
    "- 1 \<le> m_sockfd (sockClient sh)" "list_all (good_turns n) inps" "length inps = 9 * length ps + 2"
    and "distinct (keys (m @ entries (items sh) ps))" "\<forall>p\<in>set ps. GetTag (items sh ! p) \<noteq> []"
  shows "case sender_run inps (ds, q, sh) of (ds', q', sh') \<Rightarrow>
     s_pc ds' = S_Done Queue_Aborted \<and> data_queue q' = []
     \<and> m_numSend ds' = m_numSend ds + length ps \<and> m_numSuccess ds' = m_numSuccess ds + length ps
     \<and> wire sh' = wire sh @ map (\<lambda>p. item_frame (items sh ! p)) ps
     \<and> dataCache sh' = Some (m @ entries (items sh) ps)
     \<and> m_stopClient (sockClient sh') = m_stopClient (sockClient sh)
     \<and> (ps \<noteq> [] \<or> 0 \<le> m_sockfd (sockClient sh) \<longrightarrow> 0 \<le> m_sockfd (sockClient sh'))"
  using assms
proof (induction ps arbitrary: ds q sh m inps)
  case Nil
  then obtain i1 i2 where "inps = [i1, i2]" by (auto simp: numeral_eq_Suc length_Suc_conv)
  with Nil show ?case by (simp add: wait_and_pop_def entries_def)
next
  case (Cons p ps)
  let ?t = "GetTag (items sh ! p)"
  obtain i1 i2 i3 i4 i5 i6 i7 i8 i9 where t: "take 9 inps = [i1, i2, i3, i4, i5, i6, i7, i8, i9]" "i8 \<in> set inps"
    by (rule take_nine [of inps]) (use Cons.prems in simp)
  have fresh: "?t \<notin> set (keys m)" "\<forall>r\<in>set ps. GetTag (items sh ! r) \<noteq> ?t"
    using Cons.prems(11) by (auto simp: keys_def entries_def image_iff)
  have good: "good_turns n i8" using Cons.prems(9) t(2) by (simp add: list_all_iff)
  obtain ds' sh' where one: "sender_run [i1, i2, i3, i4, i5, i6, i7, i8, i9] (ds, q, sh) = (ds', q\<lparr>data_queue := map Some ps\<rparr>, sh')"
    "s_pc ds' = S_Loop" "\<not> m_stopSender ds'" "m_numSend ds' = m_numSend ds + 1"
    "m_numSuccess ds' = m_numSuccess ds + 1" "dataCache sh' = Some (m @ [(?t, Some p)])"
    "items sh' = (items sh)[p := ComposeFullData (Touch (in_now i4 p) (items sh ! p))]"
    "wire sh' = wire sh @ [item_frame (items sh ! p)]" "0 \<le> m_sockfd (sockClient sh')"
    "m_stopClient (sockClient sh') = m_stopClient (sockClient sh)"
    by (rule drain_one_cached [of ds q p "map Some ps" sh m n i8 ?t i1 i2 i3 i4 i5 i6 i7 i9])
       (use Cons.prems good fresh(1) in simp_all)
  have rest: "\<forall>r\<in>set ps. items sh' ! r = items sh ! r" "length (items sh') = length (items sh)"
    unfolding one(7) using fresh(2) by (metis nth_list_update_neq) simp
  then have ent: "entries (items sh') ps = entries (items sh) ps" by (simp add: entries_def)
  have "sender_run inps (ds, q, sh) = sender_run (drop 9 inps) (ds', q\<lparr>data_queue := map Some ps\<rparr>, sh')"
    using sender_run_append [of "take 9 inps" "drop 9 inps" "(ds, q, sh)"]
    unfolding t(1) one(1) by (simp only: t(1) [symmetric] append_take_drop_id)
  moreover have "list_all (good_turns n) (drop 9 inps)"
    using Cons.prems(9) by (auto simp: list_all_iff dest: in_set_dropD)
  moreover have "map (\<lambda>p. item_frame (items sh' ! p)) ps = map (\<lambda>p. item_frame (items sh ! p)) ps"
    using rest by simp
  moreover have "(m @ [(?t, Some p)]) @ entries (items sh) ps = m @ entries (items sh) (p # ps)"
    by (simp add: entries_def)
  ultimately show ?case
    using Cons.IH [of ds' "q\<lparr>data_queue := map Some ps\<rparr>" sh' "m @ [(?t, Some p)]" "drop 9 inps"] Cons.prems one(2-6,8-10) rest ent
    by (simp add: split_beta del: sender_step.simps)
qed

section \<open>The reader with the cache\<close>

text \<open>
  Steps of the reader alone: \<open>poll\<close> reports data, \<open>read\<close> returns them, and each acknowledgement in
  them is handled.
\<close>

definition reader_receives :: "string \<Rightarrow> logger \<Rightarrow> logger" where
  "reader_receives b w =
     (let w1 = reader_thread False False [Poll_Ok POLLIN 0] [Read_Ok b] w;
          (run, sh) = finish_items (m_sockReader w1, lg_shared w1)
      in w1\<lparr>m_sockReader := run, lg_shared := sh\<rparr>)"

lemma reader_threads:
  "(reader_thread False False [] [] ^^ n) w =
     (let (run, sh) = (reader_step False False [] [] ^^ n) (m_sockReader w, lg_shared w)
      in w\<lparr>m_sockReader := run, lg_shared := sh\<rparr>)"
  by (induction n) (simp_all add: reader_thread_def split_beta Let_def)

lemma reader_receives_steps:
  "\<exists>n. reader_receives b w = (reader_thread False False [] [] ^^ n) (reader_thread False False [Poll_Ok POLLIN 0] [Read_Ok b] w)"
proof -
  let ?w = "reader_thread False False [Poll_Ok POLLIN 0] [Read_Ok b] w"
  obtain n where n: "finish_items (m_sockReader ?w, lg_shared ?w) = (reader_step False False [] [] ^^ n) (m_sockReader ?w, lg_shared ?w)"
    using finish_items_steps by blast
  show ?thesis by (rule exI [of _ n]) (simp only: reader_receives_def reader_threads n Let_def)
qed

definition received :: "string \<Rightarrow> read_event" where
  "received b = \<lparr>stop_before = False, read_result = Inr (int (length b), b), stop_after = False\<rparr>"

lemma reader_receives_step:
  assumes "m_sockReader w = Reading p s" "0 \<le> m_sockfd (sockClient (lg_shared w))"
    "\<not> m_stopClient (sockClient (lg_shared w))" "b \<noteq> []"
  shows "reader_receives b w =
    (let run = read_loop [received b] p (s\<lparr>r_dataCache := dataCache (lg_shared w)\<rparr>)
     in w\<lparr>m_sockReader := run, lg_shared := (lg_shared w)\<lparr>dataCache := r_dataCache (the_reader run)\<rparr>\<rparr>)"
proof -
  let ?c = "sockClient (lg_shared w)"
  have "Read False 511 \<lparr>re_entry = ?c, re_woken = ?c, re_after = ?c, re_polls = [Poll_Ok POLLIN 0], re_reads = [Read_Ok b]\<rparr>
      = (Some (Inr (Some b)), ?c)"
    using assms(2-4)
    by (simp add: Read_def WaitForSocketToBeReady_def try_read_def PollSocket_def INVALID_SOCKET_def POLLIN_def POLLHUP_def)
  then have "finish_items (reader_step False False [Poll_Ok POLLIN 0] [Read_Ok b] (Reading p s, lg_shared w)) =
    (let run = read_loop [received b] p (s\<lparr>r_dataCache := dataCache (lg_shared w)\<rparr>)
     in (run, (lg_shared w)\<lparr>dataCache := r_dataCache (the_reader run)\<rparr>))"
    by (simp add: reader_steps_turn reader_turn_def reader_Read_def as_read_result_def received_def Let_def
        del: reader_step.simps read_loop.simps)
  then show ?thesis
    using assms(1) by (simp add: reader_receives_def reader_thread_def split_beta Let_def del: reader_step.simps)
qed

lemma reader_receives_all:
  assumes "m_sockReader w = Reading p s" "0 \<le> m_sockfd (sockClient (lg_shared w))"
    "\<not> m_stopClient (sockClient (lg_shared w))" "\<forall>b\<in>set bs. b \<noteq> [] \<and> nul \<notin> set b" "newline \<notin> set p"
  shows "r_dataCache (the_reader (read_loop (map received bs) p (s\<lparr>r_dataCache := dataCache (lg_shared w)\<rparr>)))
      = dataCache (lg_shared (fold reader_receives bs w))
    \<and> m_nTagsRead (the_reader (read_loop (map received bs) p (s\<lparr>r_dataCache := dataCache (lg_shared w)\<rparr>)))
      = m_nTagsRead (the_reader (m_sockReader (fold reader_receives bs w)))"
  using assms
proof (induction bs arbitrary: w p s)
  case (Cons b bs)
  let ?s = "s\<lparr>r_dataCache := dataCache (lg_shared w)\<rparr>"
  have "quiet (received b)" using Cons.prems(4) by (simp add: quiet_def received_def)
  from DoRead_quiet [OF this Cons.prems(5)] obtain p1 s1
    where d: "DoRead (received b) p ?s = Inr (True, p1, s1)" "newline \<notin> set p1"
    using decode_lines_rest by blast
  let ?w = "w\<lparr>m_sockReader := Reading p1 s1, lg_shared := (lg_shared w)\<lparr>dataCache := r_dataCache s1\<rparr>\<rparr>"
  have w: "reader_receives b w = ?w"
    using reader_receives_step [OF Cons.prems(1-3), of b] Cons.prems(4) d(1) by (simp add: Let_def)
  have "s1\<lparr>r_dataCache := r_dataCache s1\<rparr> = s1" by simp
  with Cons.IH [of ?w p1 s1] Cons.prems d w show ?case by simp
qed simp

section \<open>The cycle\<close>

definition success_acks :: "string list \<Rightarrow> string" where
  "success_acks ts = concat (map (\<lambda>t. line_enc (ack_line (t, ''0''))) ts)"

lemma fold_caller_reader: "m_sockReader (add_all data w) = m_sockReader w"
  by (induction data arbitrary: w)
    (simp_all add: add_all_def caller_adds_def bl_AddData_def alloc_item_def split_beta)

lemma sent_tag_shape:
  "t \<in> set (sent_tags c n) \<Longrightarrow> t \<noteq> [] \<and> CHR '':'' \<notin> set t \<and> newline \<notin> set t \<and> nul \<notin> set t"
  by (auto simp: sent_tags_def intro: not_digit_in_to_string [THEN notE, rotated] simp: is_digit_def)

text \<open>The acknowledgements of all cached tags, however cut, empty the cache.\<close>

lemma acks_empty_cache:
  assumes "m_sockReader w = Reading [] s" "0 \<le> m_sockfd (sockClient (lg_shared w))"
    "\<not> m_stopClient (sockClient (lg_shared w))" "dataCache (lg_shared w) = Some m"
    "set (keys m) \<subseteq> set ts" "set ts \<subseteq> set (sent_tags c n)"
    "\<forall>b\<in>set bs. b \<noteq> []" "concat bs = success_acks ts"
  shows "bl_GetNumItemsInCache (fold reader_receives bs w) = 0
    \<and> bl_GetNumTagsRead (fold reader_receives bs w) = m_nTagsRead s + length ts"
proof -
  let ?acks = "map (\<lambda>t. (t, ''0'')) ts" and ?s = "s\<lparr>r_dataCache := Some m\<rparr>"
  have good: "\<forall>a\<in>set ?acks. good_ack a"
    using assms(6) sent_tag_shape [of _ c n] by (auto simp: good_ack_def)
  have "nul \<notin> set (concat bs)"
    using assms(6) sent_tag_shape [of _ c n]
    by (auto simp: assms(8) success_acks_def line_enc_def ack_line_def)
  then have nul: "\<forall>b\<in>set bs. b \<noteq> [] \<and> nul \<notin> set b" using assms(7) by auto
  have "\<forall>ev\<in>set (map received bs). quiet ev" using nul by (auto simp: quiet_def received_def)
  moreover have "concat (map bytes_of (map received bs)) = concat (map (\<lambda>a. line_enc (ack_line a)) ?acks)"
    using assms(8) by (simp add: received_def bytes_of_def success_acks_def o_def)
  ultimately have run: "read_loop (map received bs) [] ?s = Reading [] (fold (\<lambda>a. ProcessItem (ack_line a)) ?acks ?s)"
    using reader_Run_acks [OF _ good] by (simp only: reader_Run_def)
  obtain c' where c': "r_dataCache (fold (\<lambda>a. ProcessItem (ack_line a)) ?acks ?s) = Some c'"
    "map_of c' = without {t. (t, ''0'') \<in> set ?acks} (map_of m)"
    "m_nTagsRead (fold (\<lambda>a. ProcessItem (ack_line a)) ?acks ?s) = m_nTagsRead ?s + length ?acks"
    using fold_acks [OF good, of ?s m] by auto
  have "map_of c' k = None" for k
    using assms(5) by (auto simp: c'(2) without_def map_of_eq_None_iff keys_def)
  then have "map_of c' = Map.empty" by (rule ext)
  then have "c' = []" by simp
  with reader_receives_all [OF assms(1-3) nul, simplified assms(4) run] c'(1,3) show ?thesis
    by (auto simp: bl_GetNumItemsInCache_def bl_GetNumTagsRead_def map_size_def split: option.split)
qed

text \<open>The logger after all items have been sent and before any is acknowledged.\<close>

lemma all_sent_state:
  assumes new: "new_buffered_logger f ackMS resendMS connMS 0 c ids = Inr w" "ackMS \<noteq> 0"
    and data: "data \<noteq> []" "length data \<le> 2 ^ 64"
    and prep: "\<forall>item \<in> set (items (lg_shared (add_all data w))). prepared item \<and> length (item_frame item) \<le> n"
    and inps: "list_all (good_turns n) inps" "length inps = 9 * length data + 2"
    and w1: "w1 = fold sender_thread inps (snd (WaitUntilAllSend_begin (add_all data w)))"
  obtains its where "m_sockReader w1 = Reading [] new_reader" "dataCache (lg_shared w1) = Some (entries its [0..<length data])"
    "keys (entries its [0..<length data]) = sent_tags c (length data)" "wire (lg_shared w1) = map item_frame its"
    "\<not> m_stopClient (sockClient (lg_shared w1))" "0 \<le> m_sockfd (sockClient (lg_shared w1))"
    "WaitUntilAllSend_end w1" "bl_GetTotalSendSuccess w1 = length data" "bl_GetNumItemsInCache w1 = length data"
    "map (\<lambda>item. djson_payload (m_source item) (GetTag item) (m_schemaAndData item)) its = sent_payloads c data"
proof -
  note w = new_logger_state [OF new(1)]
  obtain its where its: "length its = length data" "lg_shared (add_all data w) = (lg_shared w)\<lparr>items := its\<rparr>"
    "m_incomingQueue (add_all data w) = (new_queue 0)\<lparr>data_queue := map Some [0..<length data]\<rparr>"
    "m_dataSender (add_all data w) = new_data_sender" "map GetTag its = sent_tags c (length data)"
    and payloads: "map (\<lambda>item. djson_payload (m_source item) (GetTag item) (m_schemaAndData item)) its = sent_payloads c data"
    by (rule add_all_to_new [OF new(1)])
  let ?q = "stop_once_empty ((new_queue 0)\<lparr>data_queue := map Some [0..<length data]\<rparr>)"
  let ?sh = "(lg_shared w)\<lparr>items := its\<rparr>" and ?ps = "[0..<length data]"
  have all: "map (\<lambda>p. f (its ! p)) ?ps = map f its" for f :: "djson_item \<Rightarrow> string"
    by (rule nth_equalityI) (simp_all add: its(1))
  have tag_in: "GetTag (its ! p) \<in> set (sent_tags c (length data))" if "p < length data" for p
    using that its(1) by (simp flip: its(5))
  have keys: "keys (entries its ?ps) = sent_tags c (length data)" by (simp add: entries_keys all its(5))
  then have "distinct (keys ([] @ entries (items ?sh) ?ps))"
    using counter_tags_distinct [OF data(2), of c] by (simp add: sent_tags_def)
  moreover have "\<forall>p\<in>set ?ps. prepared (items ?sh ! p) \<and> length (item_frame (items ?sh ! p)) \<le> n"
    using prep its(1,2) by simp
  moreover have "\<forall>p\<in>set ?ps. GetTag (items ?sh ! p) \<noteq> []"
    using tag_in sent_tag_shape by fastforce
  moreover obtain ds q sh where run: "sender_run inps (new_data_sender, ?q, ?sh) = (ds, q, sh)" by (metis prod_cases3)
  ultimately have sent: "s_pc ds = S_Done Queue_Aborted \<and> m_numSuccess ds = length data
      \<and> wire sh = map item_frame its \<and> dataCache sh = Some (entries its ?ps)
      \<and> \<not> m_stopClient (sockClient sh) \<and> 0 \<le> m_sockfd (sockClient sh)"
    using drain_all_cached [of new_data_sender ?q ?ps ?sh "[]" n inps] inps data(1) new(2)
    by (simp add: new_data_sender_def stop_once_empty_def w its(1) all)
  have w1': "w1 = snd (WaitUntilAllSend_begin (add_all data w))\<lparr>m_dataSender := ds, m_incomingQueue := q, lg_shared := sh\<rparr>"
    using run its(2-4) by (simp add: w1 sender_thread_run WaitUntilAllSend_begin_def)
  show thesis
    by (rule that [of its])
      (use sent keys payloads in \<open>simp_all add: w1' WaitUntilAllSend_begin_def fold_caller_reader w WaitUntilAllSend_end_def
        bl_GetTotalSendSuccess_def bl_GetNumItemsInCache_def map_size_def entries_def\<close>)
qed

text \<open>
  C2: delivered, kept, acknowledged, forgotten, one after the other. For a new logger with
  acknowledgements and without a limit, whose socket takes what it is given: first at least one
  and at most \<open>2^64\<close> items are added, none of the texts empty and no message with a NUL in it,
  then \<open>WaitUntilAllSend\<close> is called, then the sender runs alone, the resender asleep and no
  acknowledgement read. Nine sender steps per item and two more make \<open>WaitUntilAllSend\<close> return
  true; every message is on the wire once, in order, and every item is in the cache. When
  after that the server acknowledges every tag with status 0, in any order and however the
  stream is cut, the cache is empty, and each acknowledgement has been counted.
\<close>

theorem delivered_and_acknowledged:
  assumes new: "new_buffered_logger f ackMS resendMS connMS 0 c ids = Inr w" "ackMS \<noteq> 0"
    and data: "data \<noteq> []" "length data \<le> 2 ^ 64"
    and prep: "\<forall>item \<in> set (items (lg_shared (add_all data w))). prepared item \<and> length (item_frame item) \<le> n"
    and inps: "list_all (good_turns n) inps" "length inps = 9 * length data + 2"
    and w1: "w1 = fold sender_thread inps (snd (WaitUntilAllSend_begin (add_all data w)))"
    and acks: "set ts = set (sent_tags c (length data))" "\<forall>b\<in>set bs. b \<noteq> []" "concat bs = success_acks ts"
    and w2: "w2 = fold reader_receives bs w1"
  shows "WaitUntilAllSend_end w1 \<and> bl_GetTotalSendSuccess w1 = length data
    \<and> bl_GetNumItemsInCache w1 = length data
    \<and> decode_all decode_frame (concat (wire (lg_shared w1))) = (sent_payloads c data, [])
    \<and> bl_GetNumItemsInCache w2 = 0 \<and> bl_GetNumTagsRead w2 = length ts"
proof -
  from all_sent_state [OF new data prep inps w1]
  obtain its where its: "m_sockReader w1 = Reading [] new_reader" "dataCache (lg_shared w1) = Some (entries its [0..<length data])"
    "keys (entries its [0..<length data]) = sent_tags c (length data)" "wire (lg_shared w1) = map item_frame its"
    "\<not> m_stopClient (sockClient (lg_shared w1))" "0 \<le> m_sockfd (sockClient (lg_shared w1))"
    "WaitUntilAllSend_end w1" "bl_GetTotalSendSuccess w1 = length data" "bl_GetNumItemsInCache w1 = length data"
    "map (\<lambda>item. djson_payload (m_source item) (GetTag item) (m_schemaAndData item)) its = sent_payloads c data" .
  have "bl_GetNumItemsInCache w2 = 0 \<and> bl_GetNumTagsRead w2 = length ts"
    using acks_empty_cache [OF its(1,6,5,2), of ts c "length data" bs] its(3) acks by (simp add: w2 new_reader_def)
  with frames_decode [of its] its show ?thesis by simp
qed

text \<open>One item, acknowledged in two pieces.\<close>

theorem delivered_and_acknowledged_witness:
  "let w1 = fold sender_thread (replicate 11 (good_input 20)) (snd (WaitUntilAllSend_begin (add_all [(''s'', ''D'')] (sample_logger 1000 0))))
   in bl_GetNumItemsInCache w1 = 1 \<and> bl_GetNumItemsInCache (fold reader_receives [''1:'', ''0'' @ [newline]] w1) = 0"
proof -
  have "items (lg_shared (add_all [(''s'', ''D'')] (sample_logger 1000 0))) = [sample_item]" by code_simp
  moreover have "length (item_frame sample_item) \<le> 20"
    by (simp add: sample_frame djson_payload_def)
  moreover have "list_all (good_turns 20) (replicate 11 (good_input 20))"
    by (simp add: list_all_iff good_input_good)
  moreover have "set [''1''] = set (sent_tags 0 1)" by (simp add: sent_tags_def to_string.simps)
  moreover have "concat [''1:'', ''0'' @ [newline]] = success_acks [''1'']"
    by (simp add: success_acks_def line_enc_def ack_line_def)
  ultimately show ?thesis
    using delivered_and_acknowledged [OF sample_logger_new [of 1000 0], of "[(''s'', ''D'')]" 20 "replicate 11 (good_input 20)"
        _ "[''1'']" "[''1:'', ''0'' @ [newline]]"]
    by (simp add: sample_prepared Let_def del: fold_simps)
qed

end
