(* ===== verification/Mock_Server.thy ===== *)
theory Mock_Server
  imports Socket_Client Stream_Framing Djson_Item
begin

text \<open>
  \<open>src/src/test/outmdsd/MockServer.h\<close> and \<open>MockServer.cc\<close>: the server the tests run in the place
  of mdsd. It takes the tags out of the bytes of a connection and writes an acknowledgement for
  each. Its parsing of a connection is modelled, and the flags; the threads and the listening
  socket are not.
\<close>

section \<open>State\<close>

record mock_server =
  m_parseReadData :: bool
  m_stopFlag :: bool
  m_stopAccept :: bool
  m_totalBytesRead :: nat
  m_dataSet :: "string set"
  m_totalTags :: nat

definition new_mock_server :: "bool \<Rightarrow> mock_server" where
  "new_mock_server parseReadData =
     \<lparr>m_parseReadData = parseReadData, m_stopFlag = False, m_stopAccept = False, m_totalBytesRead = 0,
      m_dataSet = {}, m_totalTags = 0\<rparr>"

definition ResetStopFlags :: "mock_server \<Rightarrow> mock_server" where
  "ResetStopFlags sv = sv\<lparr>m_stopFlag := False, m_stopAccept := False\<rparr>"

definition MarkTestDone :: "mock_server \<Rightarrow> mock_server" where
  "MarkTestDone sv = sv\<lparr>m_stopFlag := True\<rparr>"

definition EndOfTest :: string where "EndOfTest = ''ENDOFTEST''"

definition IsTestDone :: "string \<Rightarrow> bool" where
  "IsTestDone str \<longleftrightarrow> sublist EndOfTest str"

section \<open>Taking the messages apart\<close>

text \<open>\<open>std::string::find_first_of(c, pos)\<close>.\<close>

definition find_first_of :: "char \<Rightarrow> nat \<Rightarrow> string \<Rightarrow> nat option" where
  "find_first_of c pos s = map_option (\<lambda>i. pos + i) (find_char c (drop pos s))"

text \<open>The tag that comes next and the new \<open>lastPos\<close>.\<close>

definition GetMsgId :: "string \<Rightarrow> nat \<Rightarrow> (string \<times> nat) option" where
  "GetMsgId msg lastPos =
     (case find_first_of newline lastPos msg of
        None \<Rightarrow> None
      | Some nlPos \<Rightarrow>
          (case find_first_of CHR '','' nlPos msg of
             None \<Rightarrow> None
           | Some comma1 \<Rightarrow>
               (case find_first_of CHR '','' (comma1 + 1) msg of
                  None \<Rightarrow> None
                | Some comma2 \<Rightarrow> Some (take (comma2 - comma1 - 1) (drop (comma1 + 1) msg), comma2))))"

definition ProcessMsgId :: "string \<Rightarrow> mock_server \<Rightarrow> string \<times> mock_server" where
  "ProcessMsgId msgId sv =
     (if msgId \<noteq> [] then (msgId @ '':0'' @ [newline], sv\<lparr>m_totalTags := m_totalTags sv + 1\<rparr>) else ([], sv))"

lemma find_first_of_SomeD:
  "find_first_of c pos s = Some p \<Longrightarrow> pos \<le> p \<and> p < length s"
  by (auto simp: find_first_of_def dest!: find_char_SomeD)

lemma GetMsgId_progress: "GetMsgId msg lastPos = Some (msgId, pos) \<Longrightarrow> lastPos < pos \<and> pos < length msg"
  by (auto simp: GetMsgId_def split: option.splits dest!: find_first_of_SomeD)

function msg_ids_loop :: "string \<Rightarrow> nat \<Rightarrow> string \<Rightarrow> mock_server \<Rightarrow> string \<times> string \<times> mock_server" where
  "msg_ids_loop msg lastPos msgIds sv =
     (case GetMsgId msg lastPos of
        None \<Rightarrow> (msgIds, drop lastPos msg, sv)
      | Some (msgId, pos) \<Rightarrow>
          (let (reply, sv') = ProcessMsgId msgId sv in msg_ids_loop msg pos (msgIds @ reply) sv'))"
  by pat_completeness auto
termination
  by (relation "measure (\<lambda>(msg, lastPos, msgIds, sv). length msg - lastPos)")
     (auto dest!: GetMsgId_progress)

declare msg_ids_loop.simps [simp del]

definition ParseMsgIds :: "string \<Rightarrow> mock_server \<Rightarrow> string \<times> string \<times> mock_server" where
  "ParseMsgIds msg sv = msg_ids_loop msg 0 [] sv"

definition GetMsgData :: "string \<Rightarrow> nat \<Rightarrow> mock_server \<Rightarrow> (nat \<times> mock_server) option" where
  "GetMsgData msg lastPos sv =
     (case find_first_of CHR ''['' lastPos msg of
        None \<Rightarrow> None
      | Some openBracketPos \<Rightarrow>
          (case find_first_of CHR '','' (openBracketPos + 1) msg of
             None \<Rightarrow> None
           | Some comma1 \<Rightarrow>
               (case find_first_of CHR '','' (comma1 + 1) msg of
                  None \<Rightarrow> None
                | Some comma2 \<Rightarrow>
                    (case find_first_of CHR '']'' (comma2 + 1) msg of
                       None \<Rightarrow> None
                     | Some closeBracketPos \<Rightarrow>
                         (let msgData = take (closeBracketPos - comma2 - 1) (drop (comma2 + 1) msg)
                          in Some (closeBracketPos + 1,
                               if msgData \<noteq> [] then sv\<lparr>m_dataSet := insert msgData (m_dataSet sv)\<rparr> else sv))))))"

lemma GetMsgData_progress:
  "GetMsgData msg lastPos sv = Some (pos, sv') \<Longrightarrow> lastPos < pos \<and> pos \<le> length msg"
  by (auto simp: GetMsgData_def Let_def split: option.splits dest!: find_first_of_SomeD)

function msg_data_loop :: "string \<Rightarrow> nat \<Rightarrow> mock_server \<Rightarrow> string \<times> mock_server" where
  "msg_data_loop msg lastPos sv =
     (case GetMsgData msg lastPos sv of
        None \<Rightarrow> (drop lastPos msg, sv)
      | Some (pos, sv') \<Rightarrow> msg_data_loop msg pos sv')"
  by pat_completeness auto
termination
  by (relation "measure (\<lambda>(msg, lastPos, sv). length msg - lastPos)") (auto dest!: GetMsgData_progress)

declare msg_data_loop.simps [simp del]

definition ParseData :: "string \<Rightarrow> mock_server \<Rightarrow> string \<times> mock_server" where
  "ParseData msg sv = msg_data_loop msg 0 sv"

section \<open>A connection\<close>

text \<open>
  The two strings of \<open>StartReadLoop\<close>, and the bytes the kernel has accepted from \<open>WriteBack\<close>.
\<close>

record connection =
  lastStrForMsgId :: string
  lastStrForData :: string
  written :: string

definition new_connection :: connection where
  "new_connection = \<lparr>lastStrForMsgId = [], lastStrForData = [], written = []\<rparr>"

text \<open>\<open>WriteBack\<close> over the answers of \<open>send\<close>: what is accepted; one answer ends it.\<close>

fun WriteBack :: "string \<Rightarrow> bool \<Rightarrow> sys list \<Rightarrow> string" where
  "WriteBack msg stopFlag [] = []"
| "WriteBack msg stopFlag (r # rs) =
     (if stopFlag then []
      else case r of
             Sys_Err e \<Rightarrow> if e = EINTR \<or> e = EAGAIN then WriteBack msg stopFlag rs else []
           | Sys_Ok n \<Rightarrow> take n msg)"

definition GetMsgIdInfo :: "string \<Rightarrow> sys list \<Rightarrow> connection \<times> mock_server \<Rightarrow> connection \<times> mock_server" where
  "GetMsgIdInfo bufstr sends st =
     (case st of (conn, sv) \<Rightarrow>
        let (msgIds, leftover, sv') = ParseMsgIds (lastStrForMsgId conn @ bufstr) sv
        in (conn\<lparr>lastStrForMsgId := leftover,
                 written := written conn @ (if msgIds \<noteq> [] then WriteBack msgIds (m_stopFlag sv') sends else [])\<rparr>, sv'))"

definition GetMsgDataInfo :: "string \<Rightarrow> connection \<times> mock_server \<Rightarrow> bool \<times> connection \<times> mock_server" where
  "GetMsgDataInfo bufstr st =
     (case st of (conn, sv) \<Rightarrow>
        let str = lastStrForData conn @ bufstr; isTestDone = IsTestDone str; (leftover, sv') = ParseData str sv
        in (isTestDone, conn\<lparr>lastStrForData := leftover\<rparr>, sv'))"

definition ProcessReadData :: "string \<Rightarrow> sys list \<Rightarrow> connection \<times> mock_server \<Rightarrow> bool \<times> connection \<times> mock_server" where
  "ProcessReadData bufstr sends st =
     (if m_parseReadData (snd st)
      then (let (isTestDone, conn, sv) = GetMsgDataInfo bufstr (GetMsgIdInfo bufstr sends st)
            in if isTestDone then (True, conn, MarkTestDone sv) else (False, conn, sv))
      else (case st of (conn, sv) \<Rightarrow>
              let str = lastStrForData conn @ bufstr
              in if IsTestDone str then (True, conn\<lparr>lastStrForData := str\<rparr>, MarkTestDone sv)
                 else (False, conn\<lparr>lastStrForData :=
                         (if length str > length EndOfTest then drop (length str - length EndOfTest) str else str)\<rparr>, sv)))"

text \<open>
  \<open>StartReadLoop\<close> on a connection that was made non-blocking: the answers of \<open>read\<close>, at most 4096
  bytes each and none at the end of the stream, with the answers \<open>send\<close> has then. The first
  component says that the loop has ended. Others may set the stop flag before a turn.
\<close>

fun StartReadLoop ::
  "(bool \<times> read_sys \<times> sys list) list \<Rightarrow> connection \<times> mock_server \<Rightarrow> bool \<times> connection \<times> mock_server"
where
  "StartReadLoop [] (conn, sv) = (m_stopFlag sv, conn, sv)"
| "StartReadLoop ((stop, rtn, sends) # turns) (conn, sv0) =
     (let sv = sv0\<lparr>m_stopFlag := m_stopFlag sv0 \<or> stop\<rparr>
      in if m_stopFlag sv then (True, conn, sv)
         else case rtn of
                Read_Err e \<Rightarrow> if e = EINTR \<or> e = EAGAIN then StartReadLoop turns (conn, sv) else (True, conn, sv)
              | Read_Ok buf \<Rightarrow>
                  if buf = [] then (True, conn, sv)
                  else (let (done, conn', sv') = ProcessReadData buf sends
                              (conn, sv\<lparr>m_totalBytesRead := m_totalBytesRead sv + length buf\<rparr>)
                        in if done then (True, conn', sv') else StartReadLoop turns (conn', sv')))"

section \<open>Tags, as a splitter\<close>

text \<open>\<open>GetMsgId\<close> on what is not taken yet.\<close>

definition split_id :: "string \<Rightarrow> (string \<times> string) option" where
  "split_id s = map_option (\<lambda>(msgId, pos). (msgId, drop pos s)) (GetMsgId s 0)"

lemma find_char_more: "find_char c s = Some p \<Longrightarrow> find_char c (s @ t) = Some p"
  by (induction s arbitrary: p) (auto split: if_splits)

lemma find_first_of_more: "find_first_of c pos s = Some p \<Longrightarrow> find_first_of c pos (s @ t) = Some p"
  by (auto simp: find_first_of_def dest: find_char_more [of _ _ _ "drop (pos - length s) t"])

lemma find_first_of_shift: "find_first_of c (k + i) s = map_option (\<lambda>p. k + p) (find_first_of c i (drop k s))"
  by (cases "find_char c (drop (k + i) s)") (simp_all add: find_first_of_def add.commute)

lemma GetMsgId_more: "GetMsgId s lastPos = Some (msgId, pos) \<Longrightarrow> GetMsgId (s @ t) lastPos = Some (msgId, pos)"
proof -
  assume "GetMsgId s lastPos = Some (msgId, pos)"
  then obtain nl c1 where f: "find_first_of newline lastPos s = Some nl" "find_first_of CHR '','' nl s = Some c1"
    "find_first_of CHR '','' (c1 + 1) s = Some pos" "msgId = take (pos - c1 - 1) (drop (c1 + 1) s)"
    by (auto simp: GetMsgId_def split: option.splits)
  note find_first_of_more [OF f(1), of t] find_first_of_more [OF f(2), of t] find_first_of_more [OF f(3), of t]
  with f(4) find_first_of_SomeD [OF f(3)] show ?thesis by (simp add: GetMsgId_def)
qed

lemma GetMsgId_shift: "GetMsgId s k = map_option (\<lambda>(msgId, pos). (msgId, k + pos)) (GetMsgId (drop k s) 0)"
  using find_first_of_shift [of newline k 0 s] find_first_of_shift [of "CHR '',''" k _ s]
    find_first_of_shift [of "CHR '',''" k "Suc _" s]
  by (auto simp: GetMsgId_def add.commute split: option.split)

interpretation ids: splitter split_id
proof unfold_locales
  show "split_id (s @ t) = Some (x, r @ t)" if "split_id s = Some (x, r)" for s t x r
    using that GetMsgId_more [of s 0 x _ t] GetMsgId_progress [of s 0 x] by (auto simp: split_id_def)
  show "length r < length s" if "split_id s = Some (x, r)" for s x r
    using that GetMsgId_progress [of s 0 x] by (auto simp: split_id_def)
qed

text \<open>The reply to a list of tags.\<close>

definition replies :: "string list \<Rightarrow> string" where
  "replies ids = concat (map (\<lambda>i. if i = [] then [] else i @ '':0'' @ [newline]) ids)"

definition count_tags :: "string list \<Rightarrow> mock_server \<Rightarrow> mock_server" where
  "count_tags ids sv = sv\<lparr>m_totalTags := m_totalTags sv + length (filter (\<lambda>i. i \<noteq> []) ids)\<rparr>"

lemma msg_ids_loop_split:
  "msg_ids_loop msg lastPos msgIds sv =
     (msgIds @ replies (fst (decode_all split_id (drop lastPos msg))), snd (decode_all split_id (drop lastPos msg)),
      count_tags (fst (decode_all split_id (drop lastPos msg))) sv)"
proof (induction msg lastPos msgIds sv rule: msg_ids_loop.induct)
  case (1 msg lastPos msgIds sv)
  show ?case
  proof (cases "GetMsgId msg lastPos")
    case None
    then have "split_id (drop lastPos msg) = None" using GetMsgId_shift [of msg lastPos] by (simp add: split_id_def)
    with None show ?thesis
      by (simp add: msg_ids_loop.simps [of msg lastPos] ids.decode_all_None replies_def count_tags_def)
  next
    case (Some x)
    obtain msgId pos where x: "x = (msgId, pos)" by fastforce
    obtain i where i: "GetMsgId (drop lastPos msg) 0 = Some (msgId, i)" "pos = lastPos + i"
      using Some x GetMsgId_shift [of msg lastPos] by auto
    then have "split_id (drop lastPos msg) = Some (msgId, drop pos msg)" by (simp add: split_id_def add.commute)
    with 1 [OF Some x [symmetric] refl] Some x show ?thesis
      by (simp add: msg_ids_loop.simps [of msg lastPos] ids.decode_all_Some ProcessMsgId_def replies_def count_tags_def
          split_beta)
  qed
qed

lemma ParseMsgIds_split:
  "ParseMsgIds msg sv = (replies (fst (decode_all split_id msg)), snd (decode_all split_id msg),
     count_tags (fst (decode_all split_id msg)) sv)"
  by (simp add: ParseMsgIds_def msg_ids_loop_split)

section \<open>A stream of messages\<close>

text \<open>Source, tag, and the rest; a comma in the first two or a newline in the rest would be misread.\<close>

type_synonym djson_msg = "string \<times> string \<times> string"

definition msg_frame :: "djson_msg \<Rightarrow> string" where
  "msg_frame m = (case m of (source, tag, rest) \<Rightarrow> djson_frame (djson_payload source tag rest))"

definition plain_msg :: "djson_msg \<Rightarrow> bool" where
  "plain_msg m \<longleftrightarrow> (case m of (source, tag, rest) \<Rightarrow>
     CHR '','' \<notin> set source \<and> CHR '','' \<notin> set tag \<and> tag \<noteq> [] \<and> newline \<notin> set rest)"

lemma find_first_of_at: "k = length xs \<Longrightarrow> c \<notin> set ys \<Longrightarrow> find_first_of c k (xs @ ys @ c # zs) = Some (k + length ys)"
  by (simp add: find_first_of_def find_char_append)

lemma split_id_message:
  assumes "newline \<notin> set a" "CHR '','' \<notin> set b" "CHR '','' \<notin> set t"
  shows "split_id (a @ newline # b @ CHR '','' # t @ CHR '','' # z) = Some (t, CHR '','' # z)" (is "split_id ?s = _")
proof -
  let ?c1 = "length a + Suc (length b)"
  have "find_first_of newline 0 ?s = Some (length a)"
    using find_first_of_at [of 0 "[]" newline a] assms(1) by simp
  moreover have "find_first_of CHR '','' (length a) ?s = Some ?c1"
    using find_first_of_at [of "length a" a "CHR '',''" "newline # b"] assms(2) by simp
  moreover have "find_first_of CHR '','' (Suc ?c1) ?s = Some (Suc ?c1 + length t)"
    using find_first_of_at [of "Suc ?c1" "a @ newline # b @ [CHR '','']" "CHR '',''" t z] assms(3) by simp
  ultimately show ?thesis by (simp add: split_id_def GetMsgId_def)
qed

lemma split_id_frame:
  assumes "newline \<notin> set r" "plain_msg (source, tag, rest)"
  shows "split_id (r @ msg_frame (source, tag, rest) @ z) = Some (tag, CHR '','' # rest @ '']'' @ z)"
  using split_id_message [of "r @ to_string (length (djson_payload source tag rest))" "[CHR ''['', dquote] @ source @ [dquote]" tag
      "rest @ '']'' @ z"] assms
  by (simp add: msg_frame_def djson_frame_def plain_msg_def) (simp add: djson_payload_def)

lemma split_id_None: "newline \<notin> set s \<Longrightarrow> split_id s = None"
  by (simp add: split_id_def GetMsgId_def find_first_of_def find_char_None [THEN iffD2])

lemma decode_ids:
  "newline \<notin> set r \<Longrightarrow> list_all plain_msg ms \<Longrightarrow>
   fst (decode_all split_id (r @ concat (map msg_frame ms))) = map (fst \<circ> snd) ms"
proof (induction ms arbitrary: r)
  case Nil
  then show ?case by (simp add: ids.decode_all_None split_id_None)
next
  case (Cons m ms)
  obtain source tag rest where m: "m = (source, tag, rest)" by (metis prod_cases3)
  with Cons.prems have "newline \<notin> set (CHR '','' # rest @ '']'')" by (simp add: plain_msg_def)
  from Cons.IH [OF this] Cons.prems m split_id_frame [of r source tag rest "concat (map msg_frame ms)"]
  show ?case by (simp add: ids.decode_all_Some)
qed

lemma plain_replies: "list_all plain_msg ms \<Longrightarrow> replies (map (fst \<circ> snd) ms) = concat (map (\<lambda>m. fst (snd m) @ '':0'' @ [newline]) ms)"
  by (induction ms) (auto simp: replies_def plain_msg_def)

section \<open>The read loop\<close>

text \<open>\<open>send\<close> takes at least \<open>n\<close> bytes, at once or after having had to wait.\<close>

fun takes :: "nat \<Rightarrow> sys list \<Rightarrow> bool" where
  "takes n [] = False"
| "takes n (Sys_Ok m # rs) = (n \<le> m)"
| "takes n (Sys_Err e # rs) = ((e = EINTR \<or> e = EAGAIN) \<and> takes n rs)"

lemma WriteBack_takes: "takes n sends \<Longrightarrow> length msg \<le> n \<Longrightarrow> WriteBack msg False sends = msg"
  by (induction n sends rule: takes.induct) auto

text \<open>A turn in which nobody stops the server and the connection is in order.\<close>

fun quiet_turn :: "nat \<Rightarrow> bool \<times> read_sys \<times> sys list \<Rightarrow> bool" where
  "quiet_turn n (stop, Read_Ok b, sends) = (\<not> stop \<and> b \<noteq> [] \<and> takes n sends)"
| "quiet_turn n (stop, Read_Err e, sends) = (\<not> stop \<and> (e = EINTR \<or> e = EAGAIN))"

fun turn_bytes :: "bool \<times> read_sys \<times> sys list \<Rightarrow> string" where
  "turn_bytes (stop, Read_Ok b, sends) = b"
| "turn_bytes (stop, Read_Err e, sends) = []"

lemma GetMsgData_keeps: "GetMsgData msg pos sv = Some (pos', sv') \<Longrightarrow> sv' = sv\<lparr>m_dataSet := m_dataSet sv'\<rparr>"
  by (auto simp: GetMsgData_def Let_def split: option.splits)

lemma msg_data_loop_keeps:
  "msg_data_loop msg pos sv = (left', sv') \<Longrightarrow> suffix left' msg \<and> sv' = sv\<lparr>m_dataSet := m_dataSet sv'\<rparr>"
proof (induction msg pos sv arbitrary: left' sv' rule: msg_data_loop.induct)
  case (1 msg pos sv)
  show ?case
  proof (cases "GetMsgData msg pos sv")
    case None
    with 1 show ?thesis by (auto simp: msg_data_loop.simps [of msg pos] suffix_drop)
  next
    case (Some x)
    obtain pos1 sv1 where x: "x = (pos1, sv1)" by fastforce
    from 1(1) [OF Some x [symmetric]] 1(2) Some x
    have "suffix left' msg" "sv' = sv1\<lparr>m_dataSet := m_dataSet sv'\<rparr>" by (simp_all add: msg_data_loop.simps [of msg pos])
    moreover have "sv1 = sv\<lparr>m_dataSet := m_dataSet sv1\<rparr>" using GetMsgData_keeps Some x by blast
    then have "sv1\<lparr>m_dataSet := d\<rparr> = sv\<lparr>m_dataSet := d\<rparr>" for d by (cases sv1; cases sv) simp
    ultimately show ?thesis by simp
  qed
qed

text \<open>Processing what a turn has read, in parsing mode and without the marker of the end.\<close>

lemma ProcessReadData_step:
  assumes "m_parseReadData sv" "\<not> m_stopFlag sv" "takes n sends"
    "\<not> IsTestDone (lastStrForData conn @ b)"
    "length (replies (fst (decode_all split_id (lastStrForMsgId conn @ b)))) \<le> n"
  obtains conn' sv' where "ProcessReadData b sends (conn, sv) = (False, conn', sv')"
    "lastStrForMsgId conn' = snd (decode_all split_id (lastStrForMsgId conn @ b))"
    "written conn' = written conn @ replies (fst (decode_all split_id (lastStrForMsgId conn @ b)))"
    "suffix (lastStrForData conn') (lastStrForData conn @ b)"
    "m_totalTags sv' = m_totalTags (count_tags (fst (decode_all split_id (lastStrForMsgId conn @ b))) sv)"
    "m_parseReadData sv'" "\<not> m_stopFlag sv'" "m_totalBytesRead sv' = m_totalBytesRead sv"
proof -
  let ?ids = "fst (decode_all split_id (lastStrForMsgId conn @ b))"
  obtain lo sv1 where d: "ParseData (lastStrForData conn @ b) (count_tags ?ids sv) = (lo, sv1)" by fastforce
  then obtain ds where ds: "suffix lo (lastStrForData conn @ b)" "sv1 = (count_tags ?ids sv)\<lparr>m_dataSet := ds\<rparr>"
    using msg_data_loop_keeps unfolding ParseData_def by blast
  note w = WriteBack_takes [OF assms(3,5)]
  show thesis
    by (rule that [of "conn\<lparr>lastStrForMsgId := snd (decode_all split_id (lastStrForMsgId conn @ b)),
          written := written conn @ replies ?ids, lastStrForData := lo\<rparr>" sv1])
       (use assms(1,2,4) d ds w in \<open>auto simp: ProcessReadData_def GetMsgIdInfo_def GetMsgDataInfo_def ParseMsgIds_split
          count_tags_def Let_def\<close>)
qed

lemma replies_append: "replies (xs @ ys) = replies xs @ replies ys"
  by (simp add: replies_def)

lemma StartReadLoop_quiet:
  assumes "list_all (quiet_turn n) turns" "m_parseReadData sv" "\<not> m_stopFlag sv" "split_id (lastStrForMsgId conn) = None"
    "\<not> IsTestDone (lastStrForData conn @ concat (map turn_bytes turns))"
    "length (replies (fst (decode_all split_id (lastStrForMsgId conn @ concat (map turn_bytes turns))))) \<le> n"
  shows "case StartReadLoop turns (conn, sv) of (done, conn', sv') \<Rightarrow> \<not> done
    \<and> written conn' = written conn @ replies (fst (decode_all split_id (lastStrForMsgId conn @ concat (map turn_bytes turns))))
    \<and> m_totalTags sv' = m_totalTags (count_tags (fst (decode_all split_id (lastStrForMsgId conn @ concat (map turn_bytes turns)))) sv)
    \<and> m_totalBytesRead sv' = m_totalBytesRead sv + length (concat (map turn_bytes turns))"
  using assms
proof (induction turns arbitrary: conn sv)
  case Nil
  then show ?case by (simp add: ids.decode_all_None replies_def count_tags_def)
next
  case (Cons turn turns)
  obtain stop rtn sends where turn: "turn = (stop, rtn, sends)" by (metis prod_cases3)
  show ?case
  proof (cases rtn)
    case (Read_Err e)
    with Cons.IH [of "sv\<lparr>m_stopFlag := False\<rparr>" conn] Cons.prems turn show ?thesis
      by (simp add: Let_def count_tags_def)
  next
    case (Read_Ok b)
    let ?rest = "concat (map turn_bytes turns)" and ?sv = "sv\<lparr>m_stopFlag := False, m_totalBytesRead := m_totalBytesRead sv + length b\<rparr>"
    let ?dec = "decode_all split_id (lastStrForMsgId conn @ b)"
    note app = ids.decode_all_append [of "lastStrForMsgId conn @ b" ?rest, simplified]
    have q: "\<not> stop" "b \<noteq> []" "takes n sends" using Cons.prems(1) turn Read_Ok by simp_all
    have nd: "\<not> IsTestDone (lastStrForData conn @ b @ ?rest)" using Cons.prems(5) turn Read_Ok by simp
    then have nd1: "\<not> IsTestDone (lastStrForData conn @ b)"
      unfolding IsTestDone_def by (metis append.assoc sublist_append_rightI sublist_order.order.trans)
    have len: "length (replies (fst ?dec)) + length (replies (fst (decode_all split_id (snd ?dec @ ?rest)))) \<le> n"
      using Cons.prems(6) turn Read_Ok app by (simp add: replies_append)
    obtain conn' sv' where step: "ProcessReadData b sends (conn, ?sv) = (False, conn', sv')"
      "lastStrForMsgId conn' = snd ?dec" "written conn' = written conn @ replies (fst ?dec)"
      "suffix (lastStrForData conn') (lastStrForData conn @ b)"
      "m_totalTags sv' = m_totalTags (count_tags (fst ?dec) ?sv)" "m_parseReadData sv'" "\<not> m_stopFlag sv'"
      "m_totalBytesRead sv' = m_totalBytesRead ?sv"
      by (rule ProcessReadData_step [of ?sv n sends conn b]) (use Cons.prems q nd1 len in simp_all)
    have "\<not> IsTestDone (lastStrForData conn' @ ?rest)"
    proof
      assume "IsTestDone (lastStrForData conn' @ ?rest)"
      moreover have "suffix (lastStrForData conn' @ ?rest) (lastStrForData conn @ b @ ?rest)"
        using step(4) by (auto simp: suffix_def)
      ultimately show False
        using nd unfolding IsTestDone_def by (meson suffix_imp_sublist sublist_order.order.trans)
    qed
    moreover have "split_id (lastStrForMsgId conn') = None" using step(2) ids.decode_all_rest by simp
    ultimately have "case StartReadLoop turns (conn', sv') of (done, conn2, sv2) \<Rightarrow> \<not> done
      \<and> written conn2 = written conn' @ replies (fst (decode_all split_id (lastStrForMsgId conn' @ ?rest)))
      \<and> m_totalTags sv2 = m_totalTags (count_tags (fst (decode_all split_id (lastStrForMsgId conn' @ ?rest))) sv')
      \<and> m_totalBytesRead sv2 = m_totalBytesRead sv' + length ?rest"
      using Cons.IH [of sv' conn'] Cons.prems(1) step(2,6,7) len by simp
    with step turn Read_Ok q app Cons.prems(3) show ?thesis
      by (auto simp: Let_def replies_append count_tags_def)
  qed
qed

text \<open>Without parsing: the last bytes are kept, as many as the marker has.\<close>

lemma sublist_overlap:
  assumes "sublist e (u @ v @ y)" "\<not> sublist e (u @ v)" "length v = length e"
  shows "sublist e (v @ y)"
proof -
  obtain p q where pq: "u @ v @ y = p @ e @ q" using assms(1) by (auto simp: sublist_def)
  have "\<not> length p + length e \<le> length u + length v"
  proof
    assume le: "length p + length e \<le> length u + length v"
    have "take (length u + length v) (p @ e @ q) = u @ v" by (simp flip: pq)
    moreover have "take (length u + length v) (p @ e @ q) = p @ e @ take (length u + length v - length p - length e) q"
      using le by simp
    ultimately have "u @ v = p @ e @ take (length u + length v - length p - length e) q" by simp
    with assms(2) show False unfolding sublist_def by blast
  qed
  then have "drop (length u) (p @ e @ q) = drop (length u) p @ e @ q" using assms(3) by simp
  moreover have "drop (length u) (p @ e @ q) = v @ y" by (simp flip: pq)
  ultimately show ?thesis unfolding sublist_def by metis
qed

definition keep_last :: "string \<Rightarrow> string" where
  "keep_last str = (if length str > length EndOfTest then drop (length str - length EndOfTest) str else str)"

lemma IsTestDone_keep_last: "\<not> IsTestDone str \<Longrightarrow> IsTestDone (keep_last str @ y) \<longleftrightarrow> IsTestDone (str @ y)"
proof
  assume nd: "\<not> IsTestDone str" and d: "IsTestDone (str @ y)"
  show "IsTestDone (keep_last str @ y)"
  proof (cases "length str > length EndOfTest")
    case True
    let ?n = "length str - length EndOfTest"
    have "sublist EndOfTest (take ?n str @ drop ?n str @ y)" using d by (simp add: IsTestDone_def flip: append_assoc)
    from sublist_overlap [OF this] nd True show ?thesis by (simp add: IsTestDone_def keep_last_def)
  qed (use d in \<open>simp add: keep_last_def\<close>)
next
  assume "IsTestDone (keep_last str @ y)"
  moreover have "suffix (keep_last str @ y) (str @ y)"
    by (simp add: keep_last_def suffix_drop)
  ultimately show "IsTestDone (str @ y)"
    unfolding IsTestDone_def by (meson suffix_imp_sublist sublist_order.order.trans)
qed

lemma StartReadLoop_marker:
  "list_all (quiet_turn 0) turns \<Longrightarrow> \<not> m_parseReadData sv \<Longrightarrow> \<not> m_stopFlag sv \<Longrightarrow> \<not> IsTestDone (lastStrForData conn) \<Longrightarrow>
   fst (StartReadLoop turns (conn, sv)) \<longleftrightarrow> IsTestDone (lastStrForData conn @ concat (map turn_bytes turns))"
proof (induction turns arbitrary: conn sv)
  case (Cons turn turns)
  obtain stop rtn sends where turn: "turn = (stop, rtn, sends)" by (metis prod_cases3)
  show ?case
  proof (cases rtn)
    case (Read_Err e)
    with Cons.IH [of "sv\<lparr>m_stopFlag := False\<rparr>" conn] Cons.prems turn show ?thesis by (simp add: Let_def)
  next
    case (Read_Ok b)
    let ?str = "lastStrForData conn @ b" and ?rest = "concat (map turn_bytes turns)"
    let ?sv = "sv\<lparr>m_stopFlag := False, m_totalBytesRead := m_totalBytesRead sv + length b\<rparr>"
    have q: "\<not> stop" "b \<noteq> []" using Cons.prems(1) turn Read_Ok by simp_all
    show ?thesis
    proof (cases "IsTestDone ?str")
      case True
      then have "IsTestDone (?str @ ?rest)" unfolding IsTestDone_def by (metis sublist_append_rightI sublist_order.order.trans)
      with True turn Read_Ok q Cons.prems(2,3) show ?thesis by (simp add: ProcessReadData_def Let_def)
    next
      case False
      let ?conn = "conn\<lparr>lastStrForData := keep_last ?str\<rparr>"
      have "StartReadLoop (turn # turns) (conn, sv) = StartReadLoop turns (?conn, ?sv)"
        using False turn Read_Ok q Cons.prems(2,3) by (simp add: ProcessReadData_def keep_last_def Let_def)
      moreover have "\<not> IsTestDone (keep_last ?str)" using IsTestDone_keep_last [OF False, of "[]"] False by simp
      ultimately show ?thesis
        using Cons.IH [of ?sv ?conn] Cons.prems IsTestDone_keep_last [OF False, of ?rest] turn Read_Ok by simp
    qed
  qed
qed simp

section \<open>Properties\<close>

text \<open>
  C36: one acknowledgement per message. However the stream of messages is cut, with spurious
  wake-ups in between, the server writes the line \<open>tag:0\<close> for every message, in their order,
  and counts it, when no source or tag has a comma, no text a newline, the marker of the end
  does not occur and \<open>send\<close> takes what it is given.
\<close>

theorem server_acknowledges:
  assumes "list_all (quiet_turn n) turns" "concat (map turn_bytes turns) = concat (map msg_frame ms)" "list_all plain_msg ms"
    "\<not> IsTestDone (concat (map msg_frame ms))" "length (concat (map (\<lambda>m. fst (snd m) @ '':0'' @ [newline]) ms)) \<le> n"
  shows "case StartReadLoop turns (new_connection, new_mock_server True) of (done, conn, sv) \<Rightarrow>
    \<not> done \<and> written conn = concat (map (\<lambda>m. fst (snd m) @ '':0'' @ [newline]) ms) \<and> m_totalTags sv = length ms"
proof -
  have "filter (\<lambda>i. i \<noteq> []) (map (fst \<circ> snd) ms) = map (fst \<circ> snd) ms"
    using assms(3) by (induction ms) (auto simp: plain_msg_def)
  with StartReadLoop_quiet [OF assms(1), of "new_mock_server True" new_connection] assms
    decode_ids [of "[]" ms] plain_replies [OF assms(3)] show ?thesis
    by (auto simp: new_connection_def new_mock_server_def split_id_None count_tags_def)
qed

definition sample_msgs :: "djson_msg list" where
  "sample_msgs = [(''s'', ''1'', ''D''), (''s'', ''2'', ''D'')]"

definition sample_turns :: "(bool \<times> read_sys \<times> sys list) list" where
  "sample_turns = (let s = concat (map msg_frame sample_msgs)
     in [(False, Read_Ok (take 15 s), [Sys_Err EAGAIN, Sys_Ok 50]), (False, Read_Err EAGAIN, []), (False, Read_Ok (drop 15 s), [Sys_Ok 50])])"

lemma sample_stream:
  "concat (map msg_frame sample_msgs) = ''9'' @ newline # djson_payload ''s'' ''1'' ''D'' @ ''9'' @ newline # djson_payload ''s'' ''2'' ''D''"
  by code_simp

theorem server_acknowledges_witness:
  "written (fst (snd (StartReadLoop sample_turns (new_connection, new_mock_server True)))) = ''1:0'' @ [newline] @ ''2:0'' @ [newline]"
proof -
  let ?s = "''9'' @ newline # djson_payload ''s'' ''1'' ''D'' @ ''9'' @ newline # djson_payload ''s'' ''2'' ''D''"
  have "list_all (quiet_turn 50) sample_turns"
    unfolding sample_turns_def Let_def sample_stream by (simp add: djson_payload_def)
  moreover have "concat (map turn_bytes sample_turns) = concat (map msg_frame sample_msgs)"
    by (simp add: sample_turns_def Let_def)
  moreover have "list_all plain_msg sample_msgs" by (simp add: sample_msgs_def plain_msg_def)
  moreover have "\<not> IsTestDone (concat (map msg_frame sample_msgs))"
  proof
    assume "IsTestDone (concat (map msg_frame sample_msgs))"
    then have "set EndOfTest \<subseteq> set ?s" unfolding IsTestDone_def sample_stream by (rule set_mono_sublist)
    moreover have "CHR ''E'' \<in> set EndOfTest" by (simp add: EndOfTest_def)
    ultimately show False by (auto simp: djson_payload_def)
  qed
  moreover have "concat (map (\<lambda>m. fst (snd m) @ '':0'' @ [newline]) sample_msgs) = ''1:0'' @ [newline] @ ''2:0'' @ [newline]"
    by (simp add: sample_msgs_def)
  ultimately show ?thesis
    using server_acknowledges [of 50 sample_turns sample_msgs] by (auto split: prod.splits)
qed

text \<open>
  The marker is found however it is cut. In the mode without parsing the read loop of a
  connection ends exactly if the marker occurs in the bytes read so far.
\<close>

theorem end_marker_found:
  assumes "list_all (quiet_turn 0) turns"
  shows "fst (StartReadLoop turns (new_connection, new_mock_server False)) \<longleftrightarrow> IsTestDone (concat (map turn_bytes turns))"
proof -
  have "\<not> IsTestDone []" by (simp add: IsTestDone_def EndOfTest_def)
  then show ?thesis
    using StartReadLoop_marker [OF assms, of "new_mock_server False" new_connection]
    by (simp add: new_connection_def new_mock_server_def)
qed

theorem end_marker_found_witness:
  "fst (StartReadLoop [(False, Read_Ok ''xxxxENDO'', [Sys_Ok 0]), (False, Read_Ok ''FTESTy'', [Sys_Ok 0])]
     (new_connection, new_mock_server False))"
proof -
  have "IsTestDone ''xxxxENDOFTESTy''"
    unfolding IsTestDone_def EndOfTest_def sublist_def by (rule exI [of _ "''xxxx''"], rule exI [of _ "''y''"]) simp
  then show ?thesis
    using end_marker_found [of "[(False, Read_Ok ''xxxxENDO'', [Sys_Ok 0]), (False, Read_Ok ''FTESTy'', [Sys_Ok 0])]"] by simp
qed

text \<open>
  A comma in the source is taken for the one behind it: the server acknowledges a part of the
  source, and the item stays in the logger's cache.
\<close>

theorem comma_in_source_misread:
  assumes "CHR '','' \<notin> set a" "CHR '','' \<notin> set b" "newline \<notin> set tag" "newline \<notin> set rest"
  shows "ParseMsgIds (msg_frame (a @ '','' @ b, tag, rest)) sv =
    (b @ [dquote] @ '':0'' @ [newline], '','' @ tag @ '','' @ rest @ '']'', sv\<lparr>m_totalTags := m_totalTags sv + 1\<rparr>)"
proof -
  let ?s = "msg_frame (a @ '','' @ b, tag, rest)"
  have "split_id ?s = Some (b @ [dquote], CHR '','' # tag @ '','' @ rest @ '']'')"
    using split_id_message [of "to_string (length (djson_payload (a @ '','' @ b) tag rest))" "[CHR ''['', dquote] @ a" "b @ [dquote]"
        "tag @ '','' @ rest @ '']''"] assms
    by (simp add: msg_frame_def djson_frame_def) (simp add: djson_payload_def)
  moreover have "split_id (CHR '','' # tag @ '','' @ rest @ '']'') = None"
    using assms(3,4) by (intro split_id_None) simp
  ultimately show ?thesis
    by (simp add: ParseMsgIds_split ids.decode_all_Some ids.decode_all_None replies_def count_tags_def)
qed

end
