(* ===== verification/Closed_Loop.thy ===== *)
theory Closed_Loop
  imports Logger_Acked Mock_Server
begin

text \<open>
  The two ends together: what a \<open>BufferedLogger\<close> sends goes to the server of the tests, and what
  that writes goes to the logger's reader.
\<close>

definition sent_msgs :: "counter \<Rightarrow> (string \<times> string) list \<Rightarrow> djson_msg list" where
  "sent_msgs c data =
     map (\<lambda>i. (fst (data ! i), to_string (unat (c + word_of_nat (Suc i))), snd (data ! i))) [0..<length data]"

lemma sent_msgs_frames: "map msg_frame (sent_msgs c data) = map djson_frame (sent_payloads c data)"
  by (simp add: sent_msgs_def sent_payloads_def msg_frame_def)

lemma sent_msgs_tags: "map (fst \<circ> snd) (sent_msgs c data) = sent_tags c (length data)"
  by (simp add: sent_msgs_def sent_tags_def)

lemma sent_msgs_plain:
  "\<forall>(source, text) \<in> set data. CHR '','' \<notin> set source \<and> newline \<notin> set text \<Longrightarrow> list_all plain_msg (sent_msgs c data)"
  by (auto simp: sent_msgs_def plain_msg_def list_all_iff split_beta)

lemma server_replies:
  "concat (map (\<lambda>m. fst (snd m) @ '':0'' @ [newline]) ms) = success_acks (map (fst \<circ> snd) ms)"
  by (induction ms) (simp_all add: success_acks_def line_enc_def ack_line_def)

lemma server_loop:
  assumes "list_all (quiet_turn k) turns" "concat (map turn_bytes turns) = concat (map msg_frame ms)" "list_all plain_msg ms"
    "\<not> IsTestDone (concat (map msg_frame ms))" "length (success_acks (map (fst \<circ> snd) ms)) \<le> k"
  obtains conn sv where "StartReadLoop turns (new_connection, new_mock_server True) = (False, conn, sv)"
    "written conn = success_acks (map (fst \<circ> snd) ms)" "m_totalTags sv = length ms"
proof -
  have replies: "replies (map (fst \<circ> snd) ms) = success_acks (map (fst \<circ> snd) ms)"
    unfolding plain_replies [OF assms(3)] by (rule server_replies)
  have "filter (\<lambda>i. i \<noteq> []) (map (fst \<circ> snd) ms) = map (fst \<circ> snd) ms"
    using assms(3) by (induction ms) (auto simp: plain_msg_def)
  then have "case StartReadLoop turns (new_connection, new_mock_server True) of (done, conn, sv) \<Rightarrow>
      \<not> done \<and> written conn = success_acks (map (fst \<circ> snd) ms) \<and> m_totalTags sv = length ms"
    using StartReadLoop_quiet [OF assms(1), of "new_mock_server True" new_connection] assms(2-5) decode_ids [of "[]" ms]
    by (auto simp: new_connection_def new_mock_server_def split_id_None replies count_tags_def)
  then show thesis by (auto intro: that split: prod.splits)
qed

text \<open>
  C14: the logger and the server of the tests, end to end, one after the other. A new logger with
  acknowledgements and without a limit is given items whose sources have no comma, whose texts
  are not empty and have no newline, and whose messages have no NUL and do not contain the
  marker of the end; then the sender alone runs, with a socket that takes what it is given. The
  server reads the stream, cut anywhere, and its answers are taken whole; the reader reads what
  the server wrote, cut anywhere. Then the server has counted every item, the logger has
  counted every acknowledgement, and its cache is empty.
\<close>

theorem closed_loop:
  assumes new: "new_buffered_logger f ackMS resendMS connMS 0 c ids = Inr w" "ackMS \<noteq> 0"
    and data: "data \<noteq> []" "length data \<le> 2 ^ 64" "\<forall>(source, text) \<in> set data. CHR '','' \<notin> set source \<and> newline \<notin> set text"
    and prep: "\<forall>item \<in> set (items (lg_shared (add_all data w))). prepared item \<and> length (item_frame item) \<le> n"
    and inps: "list_all (good_turns n) inps" "length inps = 9 * length data + 2"
    and w1: "w1 = fold sender_thread inps (snd (WaitUntilAllSend_begin (add_all data w)))"
    and turns: "list_all (quiet_turn k) turns" "concat (map turn_bytes turns) = concat (wire (lg_shared w1))"
      "\<not> IsTestDone (concat (wire (lg_shared w1)))" "length (success_acks (sent_tags c (length data))) \<le> k"
    and server: "StartReadLoop turns (new_connection, new_mock_server True) = (done, conn, sv)"
    and reads: "\<forall>b\<in>set bs. b \<noteq> []" "concat bs = written conn"
  shows "bl_GetNumItemsInCache w1 = length data \<and> \<not> done \<and> m_totalTags sv = length data
    \<and> bl_GetNumItemsInCache (fold reader_receives bs w1) = 0
    \<and> bl_GetNumTagsRead (fold reader_receives bs w1) = length data"
proof -
  from all_sent_state [OF new data(1,2) prep inps w1]
  obtain its where its: "m_sockReader w1 = Reading [] new_reader" "dataCache (lg_shared w1) = Some (entries its [0..<length data])"
    "keys (entries its [0..<length data]) = sent_tags c (length data)" "wire (lg_shared w1) = map item_frame its"
    "\<not> m_stopClient (sockClient (lg_shared w1))" "0 \<le> m_sockfd (sockClient (lg_shared w1))"
    "bl_GetNumItemsInCache w1 = length data"
    "map (\<lambda>item. djson_payload (m_source item) (GetTag item) (m_schemaAndData item)) its = sent_payloads c data" .
  have "map item_frame its = map djson_frame (sent_payloads c data)"
    by (simp add: item_frame_def flip: its(8))
  then have wire: "wire (lg_shared w1) = map msg_frame (sent_msgs c data)" using its(4) sent_msgs_frames by metis
  obtain conn' sv' where "StartReadLoop turns (new_connection, new_mock_server True) = (False, conn', sv')"
    "written conn' = success_acks (sent_tags c (length data))" "m_totalTags sv' = length (sent_msgs c data)"
    using server_loop [OF turns(1) _ sent_msgs_plain [OF data(3)], of c] turns(2-4) unfolding wire sent_msgs_tags by blast
  with server reads have srv: "\<not> done" "concat bs = success_acks (sent_tags c (length data))" "m_totalTags sv = length data"
    by (simp_all add: sent_msgs_def)
  have "length (sent_tags c (length data)) = length data" by (simp add: sent_tags_def)
  with acks_empty_cache [OF its(1,6,5,2) _ order_refl reads(1) srv(2)] its(3,7) srv(1,3) show ?thesis
    by (simp add: new_reader_def)
qed

text \<open>One item; both streams are cut.\<close>

definition loop_logger :: logger where
  "loop_logger = fold sender_thread (replicate 11 (good_input 20)) (snd (WaitUntilAllSend_begin (add_all [(''s'', ''D'')] (sample_logger 1000 0))))"

definition loop_turns :: "(bool \<times> read_sys \<times> sys list) list" where
  "loop_turns = [(False, Read_Ok (take 5 (item_frame sample_item)), [Sys_Ok 9]), (False, Read_Ok (drop 5 (item_frame sample_item)), [Sys_Ok 9])]"

theorem closed_loop_witness:
  "bl_GetNumItemsInCache (fold reader_receives [''1:'', ''0'' @ [newline]] loop_logger) = 0"
proof -
  have i: "items (lg_shared (add_all [(''s'', ''D'')] (sample_logger 1000 0))) = [sample_item]" by code_simp
  have w: "wire (lg_shared loop_logger) = [item_frame sample_item]" by code_simp
  have s: "map_prod id (written \<circ> fst) (StartReadLoop loop_turns (new_connection, new_mock_server True)) = (False, ''1:0'' @ [newline])"
    "list_all (quiet_turn 9) loop_turns" by code_simp+
  obtain conn sv where srv: "StartReadLoop loop_turns (new_connection, new_mock_server True) = (False, conn, sv)"
    "written conn = ''1:0'' @ [newline]"
    using s(1) by (cases "StartReadLoop loop_turns (new_connection, new_mock_server True)") (auto simp: map_prod_def)
  have "\<not> IsTestDone (item_frame sample_item)"
  proof
    assume "IsTestDone (item_frame sample_item)"
    then have "set EndOfTest \<subseteq> set (item_frame sample_item)" unfolding IsTestDone_def by (rule set_mono_sublist)
    moreover have "CHR ''E'' \<in> set EndOfTest" by (simp add: EndOfTest_def)
    ultimately show False by (auto simp: sample_frame djson_payload_def)
  qed
  moreover have "length (item_frame sample_item) \<le> 20" by (simp add: sample_frame djson_payload_def)
  moreover have "list_all (good_turns 20) (replicate 11 (good_input 20))" by (simp add: list_all_iff good_input_good)
  moreover have "length (success_acks (sent_tags 0 (length [(''s'', ''D'')]))) \<le> 9"
    by (simp add: sent_tags_def success_acks_def line_enc_def ack_line_def to_string.simps)
  moreover have "concat (map turn_bytes loop_turns) = item_frame sample_item" by (simp add: loop_turns_def)
  ultimately show ?thesis
    using closed_loop [OF sample_logger_new [of 1000 0], of "[(''s'', ''D'')]" 20 "replicate 11 (good_input 20)" loop_logger 9 loop_turns
        False conn sv "[''1:'', ''0'' @ [newline]]"] i w s(2) srv
    by (simp add: sample_prepared loop_logger_def)
qed

end
