(* ===== verification/Socket_Logger.thy ===== *)
theory Socket_Logger
  imports Buffered_Logger
begin

text \<open>
  \<open>src/src/outmdsd/SocketLogger.h\<close> and \<open>SocketLogger.cc\<close>: the logger without a queue, which
  sends in the caller's thread. What the reader and the resender do to the shared state
  between two of the caller's accesses is an argument: three functions, for the times after
  \<open>Add\<close>, between the two calls of \<open>Get\<close>, and between a failed \<open>Send\<close> and \<open>Erase\<close>.
\<close>

record socket_logger =
  sl_shared :: shared
  sl_sockReader :: "item_ptr read_run"
  sl_stopRead :: bool
  sl_dataResender :: "data_resender option"
  sl_started :: bool
  sl_totalSend :: nat

record interference =
  if_added :: "shared \<Rightarrow> shared"
  if_found :: "shared \<Rightarrow> shared"
  if_failed :: "shared \<Rightarrow> shared"

definition new_socket_logger :: "string \<Rightarrow> 32 word \<Rightarrow> 32 word \<Rightarrow> 32 word \<Rightarrow> idmgr \<Rightarrow> socket_logger result" where
  "new_socket_logger socketFile ackTimeoutMS resendIntervalMS connRetryTimeoutMS ids =
     (case new_unix_client socketFile connRetryTimeoutMS of
        Inl e \<Rightarrow> Inl e
      | Inr client \<Rightarrow>
        (case (if ackTimeoutMS \<noteq> 0
               then case new_data_resender ackTimeoutMS resendIntervalMS of
                      Inl e \<Rightarrow> Inl e | Inr r \<Rightarrow> Inr (Some r)
               else Inr None) of
           Inl e \<Rightarrow> Inl e
         | Inr resender \<Rightarrow>
             Inr \<lparr>sl_shared = \<lparr>items = [], schema_ids = ids,
                                dataCache = (if ackTimeoutMS \<noteq> 0 then Some [] else None),
                                sockClient = client, wire = []\<rparr>,
                  sl_sockReader = Reading [] new_reader, sl_stopRead = False, sl_dataResender = resender,
                  sl_started = False, sl_totalSend = 0\<rparr>))"

text \<open>The destructor's calls of \<open>Stop\<close>.\<close>

definition sl_destructor :: "socket_logger \<Rightarrow> socket_logger" where
  "sl_destructor sl =
     sl\<lparr>sl_shared := (sl_shared sl)\<lparr>sockClient := client_Stop (sockClient (sl_shared sl))\<rparr>,
        sl_dataResender := map_option resender_Stop (sl_dataResender sl), sl_stopRead := True\<rparr>"

text \<open>
  \<open>m_socketClient->Send(item->GetData())\<close>: \<open>None\<close> while the call has not returned.
\<close>

definition Send_item :: "nat \<Rightarrow> thread_input \<Rightarrow> shared \<Rightarrow> (unit result \<times> shared) option" where
  "Send_item p inp sh =
     (case ptr_GetData p sh of
        (Inl e, sh') \<Rightarrow> Some (Inl e, sh')
      | (Inr s, sh') \<Rightarrow> client_Send s inp sh')"

text \<open>
  \<open>SendData\<close>. An entry that is found is not null (the code asserts it). The \<open>catch (...)\<close>
  covers the second \<open>Get\<close>, \<open>GetData\<close> and \<open>Send\<close>.
\<close>

definition sl_SendData ::
  "item_ptr \<Rightarrow> thread_input \<Rightarrow> interference \<Rightarrow> socket_logger \<Rightarrow> (unit result \<times> socket_logger) option"
where
  "sl_SendData item inp env sl0 =
     (case item of
        None \<Rightarrow> Some (Inl (Invalid_Argument ''SendData(): unexpected NULL in input parameter.''), sl0)
      | Some p \<Rightarrow>
        let sl = sl0\<lparr>sl_started := True\<rparr>; sh = sl_shared sl
        in case dataCache sh of
             None \<Rightarrow>
               (case Send_item p inp sh of
                  None \<Rightarrow> None
                | Some (Inl e, sh') \<Rightarrow> Some (Inl e, sl\<lparr>sl_shared := sh'\<rparr>)
                | Some (Inr _, sh') \<Rightarrow> Some (Inr (), sl\<lparr>sl_shared := sh', sl_totalSend := sl_totalSend sl + 1\<rparr>))
           | Some m \<Rightarrow>
               let sh1 = ptr_Touch (in_now inp p) p sh; tag = ptr_GetTag p sh1
               in case map_add tag (Some p) m of
                    Inl e \<Rightarrow> Some (Inl e, sl\<lparr>sl_shared := sh1\<rparr>)
                  | Inr m' \<Rightarrow>
                    let sh2 = if_added env (sh1\<lparr>dataCache := Some m'\<rparr>)
                    in case cache_Get tag sh2 of
                         Inl e \<Rightarrow> Some (Inl e, sl\<lparr>sl_shared := sh2\<rparr>)
                       | Inr _ \<Rightarrow>
                         let sh3 = if_found env sh2
                         in case (case cache_Get tag sh3 of
                                    Inl e \<Rightarrow> Some (Inl e, sh3)
                                  | Inr q \<Rightarrow> Send_item (the q) inp sh3) of
                              None \<Rightarrow> None
                            | Some (Inr _, sh4) \<Rightarrow>
                                Some (Inr (), sl\<lparr>sl_shared := sh4, sl_totalSend := sl_totalSend sl + 1\<rparr>)
                            | Some (Inl e, sh4) \<Rightarrow>
                                (let sh5 = if_failed env sh4
                                 in Some (Inl e, sl\<lparr>sl_shared := sh5\<lparr>dataCache :=
                                      map_option (\<lambda>m. snd (map_erase tag m)) (dataCache sh5)\<rparr>\<rparr>)))"

definition SendDjson ::
  "int \<Rightarrow> string \<Rightarrow> string \<Rightarrow> thread_input \<Rightarrow> interference \<Rightarrow> socket_logger \<times> counter
   \<Rightarrow> (bool \<times> socket_logger \<times> counter) option"
where
  "SendDjson now sourceName schemaAndData inp env st =
     (case st of (sl, c) \<Rightarrow>
        if sourceName = [] then Some (False, sl, c)
        else if schemaAndData = [] then Some (False, sl, c)
        else (let (item, c') = new_djson_item_with now sourceName schemaAndData c;
                  (p, sh) = alloc_item item (sl_shared sl)
              in case sl_SendData p inp env (sl\<lparr>sl_shared := sh\<rparr>) of
                   None \<Rightarrow> None
                 | Some (Inr _, sl') \<Rightarrow> Some (True, sl', c')
                 | Some (Inl e, sl') \<Rightarrow> Some (False, sl', c')))"

definition sl_GetNumTagsRead :: "socket_logger \<Rightarrow> nat" where
  "sl_GetNumTagsRead sl = reader_GetNumTagsRead (the_reader (sl_sockReader sl))"

definition sl_GetTotalResend :: "socket_logger \<Rightarrow> nat" where
  "sl_GetTotalResend sl = (case sl_dataResender sl of None \<Rightarrow> 0 | Some r \<Rightarrow> GetTotalSendTimes r)"

definition sl_GetTotalSend :: "socket_logger \<Rightarrow> nat" where
  "sl_GetTotalSend sl = sl_totalSend sl + sl_GetTotalResend sl"

definition sl_GetNumItemsInCache :: "socket_logger \<Rightarrow> nat" where
  "sl_GetNumItemsInCache sl = (case dataCache (sl_shared sl) of None \<Rightarrow> 0 | Some m \<Rightarrow> map_size m)"

definition quiet_threads :: interference where
  "quiet_threads = \<lparr>if_added = (\<lambda>s. s), if_found = (\<lambda>s. s), if_failed = (\<lambda>s. s)\<rparr>"

section \<open>Lemmas\<close>

lemma Send_item_cache: "Send_item p inp sh = Some (r, sh') \<Longrightarrow> dataCache sh' = dataCache sh"
  by (auto simp: Send_item_def split: prod.splits sum.splits dest!: ptr_GetData_frame client_Send_frame)

lemma Send_item_fresh:
  assumes "m_djsonData (items sh ! p) = []" "m_schemaAndData (items sh ! p) \<noteq> []"
  shows "Send_item p inp sh = client_Send (item_frame (items sh ! p)) inp
    (sh\<lparr>items := (items sh)[p := ComposeFullData (items sh ! p)]\<rparr>)"
  using assms
  by (simp add: Send_item_def ptr_GetData_def GetData_def Let_def ComposeFullData_frame item_frame_def)

lemma ptr_GetTag_Touch: "p < length (items sh) \<Longrightarrow> ptr_GetTag p (ptr_Touch now p sh) = ptr_GetTag p sh"
  by (simp add: ptr_GetTag_def ptr_Touch_def GetTag_def Touch_def)

text \<open>\<open>SendData\<close> when the other threads leave the item alone.\<close>

lemma sl_SendData_quiet:
  assumes "dataCache (sl_shared sl) = Some m" "ptr_GetTag p (sl_shared sl) = t" "t \<noteq> []" "p < length (items (sl_shared sl))"
  shows "sl_SendData (Some p) inp quiet_threads sl =
    (case Send_item p inp ((ptr_Touch (in_now inp p) p (sl_shared sl))\<lparr>dataCache := Some (AList.update t (Some p) m)\<rparr>) of
       None \<Rightarrow> None
     | Some (Inr _, sh) \<Rightarrow> Some (Inr (), sl\<lparr>sl_started := True, sl_shared := sh, sl_totalSend := sl_totalSend sl + 1\<rparr>)
     | Some (Inl e, sh) \<Rightarrow> Some (Inl e, sl\<lparr>sl_started := True, sl_shared :=
          sh\<lparr>dataCache := map_option (\<lambda>m. snd (map_erase t m)) (dataCache sh)\<rparr>\<rparr>))"
  using assms
  by (simp add: sl_SendData_def quiet_threads_def Let_def ptr_GetTag_Touch map_add_def cache_Get_def map_get_def
      map_of_update split: option.split sum.split prod.split)

lemma fresh_item_alloc:
  "new_djson_item_with now source sad c = (item, c') \<Longrightarrow>
     c' = c + 1 \<and> GetTag item = to_string (unat (c + 1)) \<and> m_source item = source
     \<and> m_schemaAndData item = sad \<and> m_djsonData item = []"
  by (auto simp: new_djson_item_with_def new_log_item_def make_djson_item_def GetTag_def Let_def)

text \<open>What a call counts, whatever the other threads do.\<close>

lemma sl_SendData_count:
  "sl_SendData item inp env sl = Some (r, sl') \<Longrightarrow>
   sl_totalSend sl' = sl_totalSend sl + (case r of Inr _ \<Rightarrow> 1 | Inl _ \<Rightarrow> 0)"
  by (auto simp: sl_SendData_def Let_def split: option.splits sum.splits prod.splits)

lemma SendDjson_count:
  "SendDjson now source sad inp env (sl, c) = Some (success, sl', c') \<Longrightarrow>
   sl_totalSend sl' = sl_totalSend sl + (if success then 1 else 0)"
  by (auto simp: SendDjson_def alloc_item_def split: if_splits option.splits sum.splits prod.splits
      dest!: sl_SendData_count)

text \<open>What a successful call puts on the wire when nobody stops it.\<close>

lemma Send_item_wire:
  assumes "Send_item p inp sh = Some (Inr (), sh')" "m_djsonData (items sh ! p) = []"
    "m_schemaAndData (items sh ! p) \<noteq> []" "\<forall>r \<in> set (in_sends inp). \<not> sr_stop r"
  shows "wire sh' = wire sh @ [c_str (item_frame (items sh ! p))]"
proof -
  obtain res cl acc where s: "Send (Some (item_frame (items sh ! p))) (in_conns inp) (in_sends inp) (sockClient sh) = (res, cl, acc)"
    by (metis prod_cases3)
  with assms(1) have "res = Some (Inr ())" "wire sh' = wire sh @ [acc]"
    by (auto simp: Send_item_fresh [OF assms(2,3)] client_Send_def split: option.splits)
  with Send_complete [OF _ assms(4)] s show ?thesis by simp
qed

lemma sl_SendData_wire:
  assumes "sl_SendData (Some p) inp quiet_threads sl = Some (Inr (), sl')" "p < length (items (sl_shared sl))"
    "GetTag (items (sl_shared sl) ! p) \<noteq> []" "m_djsonData (items (sl_shared sl) ! p) = []"
    "m_schemaAndData (items (sl_shared sl) ! p) \<noteq> []" "\<forall>r \<in> set (in_sends inp). \<not> sr_stop r"
  shows "wire (sl_shared sl') = wire (sl_shared sl) @ [c_str (item_frame (items (sl_shared sl) ! p))]"
proof (cases "dataCache (sl_shared sl)")
  case None
  with assms(1) obtain sh' where "Send_item p inp (sl_shared sl) = Some (Inr (), sh')" "sl_shared sl' = sh'"
    by (auto simp: sl_SendData_def Let_def split: option.splits prod.splits sum.splits)
  with Send_item_wire [OF _ assms(4-6)] show ?thesis by simp
next
  case (Some m)
  let ?t = "ptr_GetTag p (sl_shared sl)"
  let ?sh = "(ptr_Touch (in_now inp p) p (sl_shared sl))\<lparr>dataCache := Some (AList.update ?t (Some p) m)\<rparr>"
  have item: "items ?sh ! p = Touch (in_now inp p) (items (sl_shared sl) ! p)"
    using assms(2) by (simp add: ptr_Touch_def)
  have "?t \<noteq> []" using assms(3) by (simp add: ptr_GetTag_def)
  from sl_SendData_quiet [OF Some refl this assms(2), of inp] assms(1)
  obtain sh' where "Send_item p inp ?sh = Some (Inr (), sh')" "sl_shared sl' = sh'"
    by (auto split: option.splits prod.splits sum.splits)
  then have "wire (sl_shared sl') = wire ?sh @ [c_str (item_frame (items ?sh ! p))]"
    using Send_item_wire [of p inp ?sh sh'] assms(4-6) item by (simp add: Touch_def)
  then show ?thesis unfolding item by (simp add: item_frame_def Touch_def GetTag_def)
qed

lemma SendDjson_wire:
  assumes "SendDjson now source sad inp quiet_threads (sl, c) = Some (True, sl', c')"
    "\<forall>r \<in> set (in_sends inp). \<not> sr_stop r"
  shows "wire (sl_shared sl') = wire (sl_shared sl) @ [c_str (djson_frame (djson_payload source (to_string (unat (c + 1))) sad))]"
proof -
  have ne: "source \<noteq> []" "sad \<noteq> []" using assms(1) by (auto simp: SendDjson_def split: if_splits)
  obtain item c1 where new: "new_djson_item_with now source sad c = (item, c1)" by fastforce
  let ?sl = "sl\<lparr>sl_shared := (sl_shared sl)\<lparr>items := items (sl_shared sl) @ [item]\<rparr>\<rparr>"
  let ?p = "length (items (sl_shared sl))"
  note item = fresh_item_alloc [OF new]
  have "sl_SendData (Some ?p) inp quiet_threads ?sl = Some (Inr (), sl')"
    using assms(1) ne by (auto simp: SendDjson_def new alloc_item_def split: option.splits sum.splits)
  from sl_SendData_wire [OF this _ _ _ _ assms(2)] item ne(2) show ?thesis
    by (simp add: item_frame_def)
qed

section \<open>Properties\<close>

text \<open>
  A failed \<open>SendDjson\<close> leaves nothing behind, a successful one leaves the item cached.
  When the other threads do not touch the new item, \<open>SendDjson\<close> returning true means that
  its tag now leads to the new item in the cache and one more send is counted; returning
  false means that every lookup in the cache and the count are as before.
\<close>

theorem SendDjson_all_or_nothing:
  assumes "dataCache (sl_shared sl) = Some m" "map_of m (to_string (unat (c + 1))) = None"
    and "SendDjson now source sad inp quiet_threads (sl, c) = Some (success, sl', c')"
  shows "if success
    then map_of (the_cache (sl_shared sl')) = (map_of m)(to_string (unat (c + 1)) \<mapsto> Some (length (items (sl_shared sl))))
       \<and> sl_totalSend sl' = sl_totalSend sl + 1
    else map_of (the_cache (sl_shared sl')) = map_of m \<and> sl_totalSend sl' = sl_totalSend sl"
proof (cases "source = [] \<or> sad = []")
  case True
  then have "SendDjson now source sad inp quiet_threads (sl, c) = Some (False, sl, c)"
    by (auto simp: SendDjson_def)
  with assms show ?thesis by (simp add: the_cache_def)
next
  case False
  let ?t = "to_string (unat (c + 1))" and ?p = "length (items (sl_shared sl))"
  obtain item c1 where new: "new_djson_item_with now source sad c = (item, c1)" by fastforce
  let ?sl = "sl\<lparr>sl_shared := (sl_shared sl)\<lparr>items := items (sl_shared sl) @ [item]\<rparr>\<rparr>"
  have tag: "ptr_GetTag ?p (sl_shared ?sl) = ?t"
    using fresh_item_alloc [OF new] by (simp add: ptr_GetTag_def)
  have "?t \<noteq> []" by simp
  note send = sl_SendData_quiet [of ?sl m ?p ?t inp, OF _ tag this]
  let ?send = "Send_item ?p inp ((ptr_Touch (in_now inp ?p) ?p (sl_shared ?sl))\<lparr>dataCache := Some (AList.update ?t (Some ?p) m)\<rparr>)"
  from assms(3) False new obtain r sh where r: "?send = Some (r, sh)"
    by (auto simp: SendDjson_def alloc_item_def send assms(1) split: option.splits)
  have "dataCache sh = Some (AList.update ?t (Some ?p) m)" using Send_item_cache [OF r] by simp
  then show ?thesis
    using assms False new r
    by (cases r) (auto simp: SendDjson_def alloc_item_def send the_cache_def map_of_update map_erase_def
        erase_key_def map_of_delete fun_upd_idem_iff)
qed

definition sample_socket_logger :: socket_logger where
  "sample_socket_logger = (case new_socket_logger ''/s'' 1000 10 1000 [] of Inr sl \<Rightarrow> sl)"

theorem SendDjson_all_or_nothing_witness:
  "map_of (the_cache (sl_shared (fst (snd (the (SendDjson 0 ''s'' ''D'' (good_input 20) quiet_threads (sample_socket_logger, 0)))))))
     ''1'' = Some (Some 0)"
proof -
  have e: "map_option fst (SendDjson 0 ''s'' ''D'' (good_input 20) quiet_threads (sample_socket_logger, 0)) = Some True"
    "dataCache (sl_shared sample_socket_logger) = Some []" "length (items (sl_shared sample_socket_logger)) = 0"
    by code_simp+
  obtain sl' c' where run: "SendDjson 0 ''s'' ''D'' (good_input 20) quiet_threads (sample_socket_logger, 0) = Some (True, sl', c')"
    using e(1) by auto
  have "to_string (unat (0 + 1 :: 64 word)) = ''1''" by (simp add: to_string.simps)
  with SendDjson_all_or_nothing [OF e(2) _ run] run e(3) show ?thesis by simp
qed

definition acked_early :: interference where
  "acked_early = quiet_threads\<lparr>if_added := (\<lambda>sh.
     snd (resender_run (replicate 2 (good_input 20)) (sample_resender (R_Items [Some 0]), sh))
       \<lparr>dataCache := map_option (\<lambda>m. snd (map_erase ''1'' m)) (dataCache sh)\<rparr>)\<rparr>"

text \<open>
  False does not mean unsent. If the resender sends the item as soon as it is cached and
  the server's acknowledgement is processed before \<open>SendData\<close> looks the item up again, the
  lookup throws and \<open>SendDjson\<close> returns false, although the whole message has been sent and
  acknowledged: a caller that retries, as its comment expects, sends the event twice.
\<close>

theorem false_but_delivered:
  "case SendDjson 0 ''s'' ''D'' (good_input 20) acked_early (sample_socket_logger, 0) of
     None \<Rightarrow> False
   | Some (success, sl', c') \<Rightarrow> \<not> success
      \<and> wire (sl_shared sl') = [item_frame sample_item] \<and> dataCache (sl_shared sl') = Some []"
  by code_simp

end
