(* ===== verification/Socket_Calls.thy ===== *)
theory Socket_Calls
  imports Socket_Logger
begin

text \<open>
  \<open>SocketLogger\<close> with its threads: any number of calls of \<open>SendDjson\<close> run at the same time,
  each in a thread of the caller, beside the reader and the resender. A call is cut at its
  accesses to what is shared, as the sender of \<open>BufferedLogger\<close> is; steps of all interleave.
\<close>

section \<open>A call as a machine\<close>

text \<open>
  Where a call is in \<open>SendData\<close>, with its local variables. \<open>C_Sending (Some tag) s\<close> is inside the
  \<open>try\<close> block, \<open>C_Failed tag\<close> in its handler; \<open>C_Done\<close> has the result of \<open>SendDjson\<close>, which
  catches every exception.
\<close>

datatype call_pc =
    C_Have nat
  | C_Lookup string
  | C_Fetch string
  | C_Sending "string option" string
  | C_Count
  | C_Failed string
  | C_Null_Deref
  | C_Done bool

definition on_error :: "string option \<Rightarrow> call_pc" where
  "on_error tag = (case tag of None \<Rightarrow> C_Done False | Some t \<Rightarrow> C_Failed t)"

definition call_GetData :: "string option \<Rightarrow> nat \<Rightarrow> shared \<Rightarrow> call_pc \<times> shared" where
  "call_GetData tag p sh =
     (case ptr_GetData p sh of
        (Inl e, sh') \<Rightarrow> (on_error tag, sh')
      | (Inr s, sh') \<Rightarrow> (C_Sending tag s, sh'))"

definition call_Add :: "int \<Rightarrow> nat \<Rightarrow> item_ptr cmap \<Rightarrow> shared \<Rightarrow> call_pc \<times> shared" where
  "call_Add now p m sh =
     (let sh1 = ptr_Touch now p sh; tag = ptr_GetTag p sh1
      in case map_add tag (Some p) m of
           Inl e \<Rightarrow> (C_Done False, sh1)
         | Inr m' \<Rightarrow> (C_Lookup tag, sh1\<lparr>dataCache := Some m'\<rparr>))"

fun call_step :: "thread_input \<Rightarrow> call_pc \<times> shared \<Rightarrow> call_pc \<times> shared" where
  "call_step inp (C_Have p, sh) =
     (case dataCache sh of
        None \<Rightarrow> call_GetData None p sh
      | Some m \<Rightarrow> call_Add (in_now inp p) p m sh)"
| "call_step inp (C_Lookup tag, sh) =
     (case cache_Get tag sh of
        Inl e \<Rightarrow> (C_Done False, sh)
      | Inr _ \<Rightarrow> (C_Fetch tag, sh))"
| "call_step inp (C_Fetch tag, sh) =
     (case cache_Get tag sh of
        Inl e \<Rightarrow> (C_Failed tag, sh)
      | Inr None \<Rightarrow> (C_Null_Deref, sh)
      | Inr (Some p) \<Rightarrow> call_GetData (Some tag) p sh)"
| "call_step inp (C_Sending tag s, sh) =
     (case client_Send s inp sh of
        None \<Rightarrow> (C_Sending tag s, sh)
      | Some (Inr _, sh') \<Rightarrow> (C_Count, sh')
      | Some (Inl e, sh') \<Rightarrow> (on_error tag, sh'))"
| "call_step inp (C_Count, sh) = (C_Done True, sh)"
| "call_step inp (C_Failed tag, sh) =
     (C_Done False, sh\<lparr>dataCache := map_option (\<lambda>m. snd (map_erase tag m)) (dataCache sh)\<rparr>)"
| "call_step inp (C_Null_Deref, sh) = (C_Null_Deref, sh)"
| "call_step inp (C_Done b, sh) = (C_Done b, sh)"

section \<open>The logger with its threads\<close>

text \<open>Each call so far, with the item it made.\<close>

record socket_system =
  ss_logger :: socket_logger
  ss_counter :: counter
  ss_calls :: "(item_ptr \<times> call_pc) list"

definition new_socket_system :: "socket_logger \<Rightarrow> counter \<Rightarrow> socket_system" where
  "new_socket_system sl c = \<lparr>ss_logger = sl, ss_counter = c, ss_calls = []\<rparr>"

abbreviation ss_shared :: "socket_system \<Rightarrow> shared" where
  "ss_shared ss \<equiv> sl_shared (ss_logger ss)"

definition with_shared :: "socket_system \<Rightarrow> shared \<Rightarrow> socket_system" where
  "with_shared ss sh = ss\<lparr>ss_logger := (ss_logger ss)\<lparr>sl_shared := sh\<rparr>\<rparr>"

text \<open>
  A call begins: the tests of \<open>SendDjson\<close> and the new item. \<open>SendData\<close> starts the worker threads
  when it is entered first.
\<close>

definition call_begin :: "int \<Rightarrow> string \<Rightarrow> string \<Rightarrow> socket_system \<Rightarrow> socket_system" where
  "call_begin now sourceName schemaAndData ss =
     (if sourceName = [] \<or> schemaAndData = [] then ss\<lparr>ss_calls := ss_calls ss @ [(None, C_Done False)]\<rparr>
      else (let (item, c') = new_djson_item_with now sourceName schemaAndData (ss_counter ss);
                (p, sh) = alloc_item item (ss_shared ss)
            in (with_shared ss sh)\<lparr>ss_counter := c',
                  ss_logger := (ss_logger ss)\<lparr>sl_shared := sh, sl_started := True\<rparr>,
                  ss_calls := ss_calls ss @ [(p, C_Have (the p))]\<rparr>))"

text \<open>The \<open>i\<close>th call moves; counting is its last access.\<close>

definition call_move :: "nat \<Rightarrow> thread_input \<Rightarrow> socket_system \<Rightarrow> socket_system" where
  "call_move i inp ss =
     (let (v, pc) = ss_calls ss ! i; (pc', sh) = call_step inp (pc, ss_shared ss); sl = ss_logger ss
      in ss\<lparr>ss_calls := (ss_calls ss)[i := (v, pc')],
            ss_logger := sl\<lparr>sl_shared := sh,
                            sl_totalSend := (if pc = C_Count then sl_totalSend sl + 1 else sl_totalSend sl)\<rparr>\<rparr>)"

definition sl_reader_thread :: "bool \<Rightarrow> bool \<Rightarrow> poll_res list \<Rightarrow> read_sys list \<Rightarrow> socket_logger \<Rightarrow> socket_logger" where
  "sl_reader_thread stop1 stop2 polls reads sl =
     (let (run, sh) = reader_step stop1 stop2 polls reads (sl_sockReader sl, sl_shared sl)
      in sl\<lparr>sl_sockReader := run, sl_shared := sh\<rparr>)"

definition sl_resender_thread :: "thread_input \<Rightarrow> socket_logger \<Rightarrow> socket_logger" where
  "sl_resender_thread inp sl =
     (case sl_dataResender sl of
        None \<Rightarrow> sl
      | Some r \<Rightarrow> (let (r', sh) = resender_step inp (r, sl_shared sl)
                   in sl\<lparr>sl_dataResender := Some r', sl_shared := sh\<rparr>))"

definition sees_flag :: "thread_input \<Rightarrow> shared \<Rightarrow> bool" where
  "sees_flag inp sh \<longleftrightarrow> (\<forall>r \<in> set (in_sends inp). sr_stop r \<longrightarrow> m_stopClient (sockClient sh))"

definition call_over :: "item_ptr \<times> call_pc \<Rightarrow> bool" where
  "call_over c \<longleftrightarrow> (\<exists>b. snd c = C_Done b)"

text \<open>
  The destructor runs when no call does, and none begins after it. Other loggers of the process
  use the same item counter.
\<close>

inductive ss_step :: "socket_system \<Rightarrow> socket_system \<Rightarrow> bool" where
  call: "\<not> sl_stopRead (ss_logger ss) \<Longrightarrow> ss_step ss (call_begin now source sad ss)"
| move: "i < length (ss_calls ss) \<Longrightarrow> sees_flag inp (ss_shared ss) \<Longrightarrow> ss_step ss (call_move i inp ss)"
| reader: "sl_started (ss_logger ss) \<Longrightarrow> (stop1 \<longrightarrow> sl_stopRead (ss_logger ss)) \<Longrightarrow> (stop2 \<longrightarrow> sl_stopRead (ss_logger ss)) \<Longrightarrow>
    ss_step ss (ss\<lparr>ss_logger := sl_reader_thread stop1 stop2 polls reads (ss_logger ss)\<rparr>)"
| resender: "sl_started (ss_logger ss) \<Longrightarrow> sees_flag inp (ss_shared ss) \<Longrightarrow>
    ss_step ss (ss\<lparr>ss_logger := sl_resender_thread inp (ss_logger ss)\<rparr>)"
| other_item: "ss_step ss (ss\<lparr>ss_counter := ss_counter ss + 1\<rparr>)"
| destructor: "list_all call_over (ss_calls ss) \<Longrightarrow> ss_step ss (ss\<lparr>ss_logger := sl_destructor (ss_logger ss)\<rparr>)"

inductive ss_reachable :: "socket_system \<Rightarrow> bool" where
  init: "new_socket_logger socketFile ackMS resendMS connMS ids = Inr sl \<Longrightarrow> ss_reachable (new_socket_system sl c)"
| step: "ss_reachable ss \<Longrightarrow> ss_step ss ss' \<Longrightarrow> ss_reachable ss'"

section \<open>What every step keeps of the shared state\<close>

text \<open>
  The guarantee of each thread and so what the others rely on: items keep their place and tag, a composed
  message stays as it is, and what is on the wire is there for good.
\<close>

definition item_kept :: "djson_item \<Rightarrow> djson_item \<Rightarrow> bool" where
  "item_kept item item' \<longleftrightarrow> (m_djsonData item \<noteq> [] \<longrightarrow> m_djsonData item' = m_djsonData item)
     \<and> (m_schemaAndData item \<noteq> [] \<longrightarrow> m_schemaAndData item' \<noteq> [] \<and> item_frame item' = item_frame item
          \<and> (m_djsonData item' = m_djsonData item \<or> m_djsonData item' = item_frame item))"

lemma item_kept_refl [simp]: "item_kept item item"
  by (simp add: item_kept_def)

lemma item_kept_trans: "item_kept a b \<Longrightarrow> item_kept b c \<Longrightarrow> item_kept a c"
  by (auto simp: item_kept_def)

lemma item_kept_Touch: "item_kept item (Touch now item)"
  by (simp add: item_kept_def Touch_def item_frame_def GetTag_def)

lemma item_kept_GetData: "GetData item m = Inr (s, item', m') \<Longrightarrow> item_kept item item'"
  by (cases "m_schemaAndData item = []")
     (auto simp: item_kept_def GetData_def Let_def ComposeFullData_frame item_frame_def GetTag_def split: if_splits)

definition evolves :: "shared \<Rightarrow> shared \<Rightarrow> bool" where
  "evolves sh sh' \<longleftrightarrow> prefix (tag_list sh) (tag_list sh') \<and> (dataCache sh' = None \<longleftrightarrow> dataCache sh = None)
     \<and> (\<forall>q < length (items sh). item_kept (items sh ! q) (items sh' ! q))
     \<and> set (wire sh) \<subseteq> set (wire sh')"

lemma evolves_refl [simp]: "evolves sh sh"
  by (simp add: evolves_def)

lemma evolves_length: "evolves sh sh' \<Longrightarrow> length (items sh) \<le> length (items sh')"
  unfolding evolves_def using prefix_length_le tag_list_length by metis

lemma evolves_tag: "evolves sh sh' \<Longrightarrow> p < length (items sh) \<Longrightarrow> ptr_GetTag p sh' = ptr_GetTag p sh"
  using evolves_length [of sh sh'] unfolding evolves_def
  by (auto simp: prefix_def ptr_GetTag_tag_list nth_append tag_list_length)

lemma evolves_trans: "evolves a b \<Longrightarrow> evolves b c \<Longrightarrow> evolves a c"
  using evolves_length [of a b] by (auto simp: evolves_def intro: item_kept_trans)

lemma evolves_message: "evolves sh sh' \<Longrightarrow> q < length (items sh) \<Longrightarrow> m_djsonData (items sh ! q) \<noteq> [] \<Longrightarrow>
    m_djsonData (items sh' ! q) = m_djsonData (items sh ! q)"
  by (simp add: evolves_def item_kept_def)

lemma evolves_wire: "evolves sh sh' \<Longrightarrow> set (wire sh) \<subseteq> set (wire sh')"
  by (simp add: evolves_def)

lemma evolves_same:
  assumes "same_items sh sh'" "wire sh' = wire sh"
    "\<And>q. q < length (items sh) \<Longrightarrow> item_kept (items sh ! q) (items sh' ! q)"
  shows "evolves sh sh'"
  using assms by (simp add: evolves_def same_items_def)

lemma evolves_items: "items sh' = items sh \<Longrightarrow> (dataCache sh' = None \<longleftrightarrow> dataCache sh = None) \<Longrightarrow> set (wire sh) \<subseteq> set (wire sh') \<Longrightarrow> evolves sh sh'"
  by (simp add: evolves_def tag_list_def)

lemma nth_update: "xs[p := x] ! q = (if p = q \<and> q < length xs then x else xs ! q)"
  by (cases "p < length xs") (auto simp: list_update_beyond)

lemma ptr_Touch_evolves: "evolves sh (ptr_Touch now p sh)"
  by (rule evolves_same) (simp_all add: same_items_def ptr_Touch_record, simp add: ptr_Touch_def nth_update item_kept_Touch)

lemma ptr_GetData_evolves:
  assumes "ptr_GetData p sh = (r, sh')"
  shows "evolves sh sh'"
proof (rule evolves_same)
  show "same_items sh sh'" "wire sh' = wire sh"
    using ptr_GetData_same [OF assms] ptr_GetData_frame [OF assms] by simp_all
  show "item_kept (items sh ! q) (items sh' ! q)" for q
    using assms by (auto simp: ptr_GetData_def nth_update item_kept_GetData split: sum.splits)
qed

lemma client_Send_evolves: "client_Send s inp sh = Some (r, sh') \<Longrightarrow> evolves sh sh'"
  using client_Send_frame [of s inp sh r sh'] by (intro evolves_items) auto

lemma client_Send_keeps_stop: "client_Send s inp sh = Some (r, sh') \<Longrightarrow> m_stopClient (sockClient sh') = m_stopClient (sockClient sh)"
  by (auto simp: client_Send_def dest: Send_keeps_stop split: option.splits prod.splits)

lemma ptr_GetData_client: "ptr_GetData p sh = (r, sh') \<Longrightarrow> sockClient sh' = sockClient sh"
  using ptr_GetData_frame by blast

lemma resender_step_evolves:
  assumes "resender_step inp (rs, sh) = (rs', sh')"
  shows "evolves sh sh' \<and> m_stopClient (sockClient sh') = m_stopClient (sockClient sh)"
proof (cases "rs_pc rs")
  case (R_Items vs)
  show ?thesis
  proof (cases vs)
    case (Cons v rest)
    with R_Items assms show ?thesis
      by (cases v) (auto split: prod.splits sum.splits dest: ptr_GetData_evolves ptr_GetData_client)
  qed (use R_Items assms in auto)
next
  case (R_Sending s rest)
  with assms show ?thesis
    by (auto split: option.splits prod.splits sum.splits dest: client_Send_evolves client_Send_keeps_stop)
qed (use assms in \<open>auto simp: Let_def intro: evolves_items\<close>)

lemma reader_step_evolves:
  assumes "reader_step stop1 stop2 polls reads (run, sh) = (run', sh')"
  shows "evolves sh sh' \<and> m_stopClient (sockClient sh') = m_stopClient (sockClient sh)"
proof
  note frame = reader_step_frame [OF assms]
  have "dataCache sh' = None \<longleftrightarrow> dataCache sh = None"
    using frame(1) by (auto simp: cache_sub_def split: option.splits)
  with frame show "evolves sh sh'" by (intro evolves_items) simp_all
  show "m_stopClient (sockClient sh') = m_stopClient (sockClient sh)"
    using assms by (cases run) (auto simp: reader_Read_def Let_def split: option.splits prod.splits if_splits dest!: Read_keeps_stop)
qed

section \<open>The invariant of a call\<close>

text \<open>The composed message of an item with the tag of item \<open>p\<close>, and that it is on the wire.\<close>

definition message_of :: "shared \<Rightarrow> nat \<Rightarrow> string \<Rightarrow> bool" where
  "message_of sh p s \<longleftrightarrow> s \<noteq> [] \<and>
     (\<exists>q < length (items sh). ptr_GetTag q sh = ptr_GetTag p sh \<and> m_djsonData (items sh ! q) = s)"

definition carried :: "shared \<Rightarrow> nat \<Rightarrow> bool" where
  "carried sh p \<longleftrightarrow> (\<exists>s. message_of sh p s \<and> c_str s \<in> set (wire sh))"

fun call_ok :: "shared \<Rightarrow> item_ptr \<times> call_pc \<Rightarrow> bool" where
  "call_ok sh (None, pc) = (pc = C_Done False)"
| "call_ok sh (Some p, pc) = (p < length (items sh) \<and>
     (case pc of
        C_Have q \<Rightarrow> q = p
      | C_Lookup t \<Rightarrow> t = ptr_GetTag p sh \<and> dataCache sh \<noteq> None
      | C_Fetch t \<Rightarrow> t = ptr_GetTag p sh \<and> dataCache sh \<noteq> None
      | C_Sending None s \<Rightarrow> dataCache sh = None \<and> message_of sh p s
      | C_Sending (Some t) s \<Rightarrow> t = ptr_GetTag p sh \<and> dataCache sh \<noteq> None \<and> message_of sh p s
      | C_Count \<Rightarrow> carried sh p
      | C_Failed t \<Rightarrow> t = ptr_GetTag p sh
      | C_Null_Deref \<Rightarrow> False
      | C_Done b \<Rightarrow> b \<longrightarrow> carried sh p))"

lemma message_of_evolves:
  assumes "evolves sh sh'" "p < length (items sh)" "message_of sh p s"
  shows "message_of sh' p s"
proof -
  obtain q where q: "q < length (items sh)" "ptr_GetTag q sh = ptr_GetTag p sh" "m_djsonData (items sh ! q) = s" "s \<noteq> []"
    using assms(3) by (auto simp: message_of_def)
  then have "m_djsonData (items sh' ! q) = s" using evolves_message [OF assms(1)] by simp
  moreover have "q < length (items sh')" using q(1) evolves_length [OF assms(1)] by simp
  ultimately show ?thesis
    using q evolves_tag [OF assms(1)] assms(2) by (auto simp: message_of_def)
qed

lemma carried_evolves: "evolves sh sh' \<Longrightarrow> p < length (items sh) \<Longrightarrow> carried sh p \<Longrightarrow> carried sh' p"
  unfolding carried_def using message_of_evolves evolves_wire by blast

lemma call_ok_evolves: "evolves sh sh' \<Longrightarrow> call_ok sh c \<Longrightarrow> call_ok sh' c"
proof -
  assume ev: "evolves sh sh'" and ok: "call_ok sh c"
  have none: "dataCache sh' = None \<longleftrightarrow> dataCache sh = None" using ev by (simp add: evolves_def)
  show "call_ok sh' c"
  proof (cases c)
    case (Pair v pc)
    show ?thesis
    proof (cases v)
      case (Some p)
      with ok Pair have p: "p < length (items sh)" by simp
      with evolves_length [OF ev] have "p < length (items sh')" by simp
      with p ok Pair Some evolves_tag [OF ev p] message_of_evolves [OF ev p] carried_evolves [OF ev p] none show ?thesis
        by (auto split: call_pc.splits option.splits)
    qed (use ok Pair in simp)
  qed
qed

text \<open>A step of the call itself.\<close>

lemma call_GetData_ok:
  assumes "call_GetData tag q sh = (pc', sh')" "shared_ok sh" "q < length (items sh)" "p < length (items sh)"
    "ptr_GetTag q sh = ptr_GetTag p sh"
    "case tag of None \<Rightarrow> dataCache sh = None | Some t \<Rightarrow> t = ptr_GetTag p sh \<and> dataCache sh \<noteq> None"
  shows "shared_ok sh' \<and> evolves sh sh' \<and> call_ok sh' (Some p, pc') \<and> sockClient sh' = sockClient sh"
proof -
  obtain r where g: "ptr_GetData q sh = (r, sh')" using assms(1) by (auto simp: call_GetData_def split: prod.splits sum.splits)
  note same = ptr_GetData_same [OF g] and frame = ptr_GetData_frame [OF g] and ev = ptr_GetData_evolves [OF g]
  have ok: "shared_ok sh'" using shared_ok_same assms(2) same frame by blast
  have len: "length (items sh') = length (items sh)" and none: "dataCache sh' = dataCache sh" using frame by simp_all
  note tags = evolves_tag [OF ev assms(3)] evolves_tag [OF ev assms(4)]
  show ?thesis
  proof (cases r)
    case (Inl e)
    then have "pc' = on_error tag" using assms(1) g by (simp add: call_GetData_def)
    with ok ev assms(4,6) len tags frame show ?thesis by (auto simp: on_error_def split: option.splits)
  next
    case (Inr s)
    then have pc: "pc' = C_Sending tag s" using assms(1) g by (simp add: call_GetData_def)
    have "message_of sh' p s"
    proof -
      from Inr g obtain item m where "GetData (items sh ! q) (schema_ids sh) = Inr (s, item, m)"
        and "items sh' = (items sh)[q := item]"
        by (auto simp: ptr_GetData_def split: sum.splits)
      then have "m_djsonData (items sh' ! q) = s" "s \<noteq> []" using GetData_nonempty assms(3) by auto
      with assms(3,5) len tags show ?thesis by (auto simp: message_of_def)
    qed
    with pc ok ev assms(4,6) len none tags frame show ?thesis by (auto split: option.splits)
  qed
qed

lemma client_Send_carried:
  assumes "client_Send s inp sh = Some (Inr (), sh')" "message_of sh p s" "p < length (items sh)"
    "\<forall>r \<in> set (in_sends inp). \<not> sr_stop r"
  shows "carried sh' p"
proof -
  obtain c acc where snd: "Send (Some s) (in_conns inp) (in_sends inp) (sockClient sh) = (Some (Inr ()), c, acc)"
    "sh' = sh\<lparr>sockClient := c, wire := wire sh @ [acc]\<rparr>"
    using assms(1) by (auto simp: client_Send_def split: option.splits prod.splits)
  with Send_complete [OF _ assms(4)] have "c_str s \<in> set (wire sh')" by simp
  moreover have "message_of sh' p s"
    by (rule message_of_evolves [OF client_Send_evolves [OF assms(1)] assms(3,2)])
  ultimately show ?thesis unfolding carried_def by blast
qed

lemma message_of_record: "message_of sh p s \<Longrightarrow> on_record sh s"
  unfolding message_of_def on_record_def by (elim conjE exE) (intro conjI bexI [of _ "items sh ! q" for q], auto)

lemma call_step_ok:
  assumes "call_step inp (pc, sh) = (pc', sh')" "shared_ok sh" "call_ok sh (v, pc)"
    "(\<forall>r \<in> set (in_sends inp). \<not> sr_stop r) \<or> call_over (v, pc)"
  shows "shared_ok sh' \<and> evolves sh sh' \<and> call_ok sh' (v, pc') \<and> m_stopClient (sockClient sh') = m_stopClient (sockClient sh)"
proof (cases v)
  case None
  with assms show ?thesis by auto
next
  case (Some p)
  note ok = assms(3) [unfolded Some]
  show ?thesis
  proof (cases pc)
    case (C_Have q)
    with ok have p: "q = p" "p < length (items sh)" by simp_all
    show ?thesis
    proof (cases "dataCache sh")
      case None
      with C_Have p assms(1) have "call_GetData None p sh = (pc', sh')" by simp
      from call_GetData_ok [OF this assms(2) p(2,2) refl] None Some show ?thesis by simp
    next
      case (Some m)
      let ?sh = "ptr_Touch (in_now inp p) p sh"
      have add: "call_Add (in_now inp p) p m sh = (pc', sh')" using C_Have p Some assms(1) by simp
      have ok1: "shared_ok ?sh"
        by (rule shared_ok_same [OF assms(2)]) (simp_all add: same_items_def ptr_Touch_record)
      have ev1: "evolves sh ?sh" by (rule ptr_Touch_evolves)
      show ?thesis
      proof (cases "map_add (ptr_GetTag p ?sh) (Some p) m")
        case (Inl e)
        with add ok1 ev1 p \<open>v = Some p\<close> show ?thesis by (auto simp: call_Add_def Let_def)
      next
        case (Inr m')
        let ?sh2 = "?sh\<lparr>dataCache := Some m'\<rparr>"
        have eq: "pc' = C_Lookup (ptr_GetTag p ?sh)" "sh' = ?sh2" using add Inr by (simp_all add: call_Add_def Let_def)
        have "cache_ok ?sh2"
          by (rule cache_ok_add [OF _ _ Inr]) (use ok1 p(2) Some in \<open>simp_all add: shared_ok_def\<close>)
        then have "shared_ok ?sh2" using ok1 by (simp add: shared_ok_def)
        moreover have "evolves sh ?sh2"
          using ev1 Some by (simp add: evolves_def)
        moreover have "ptr_GetTag p ?sh2 = ptr_GetTag p ?sh" by (simp add: ptr_GetTag_def)
        ultimately show ?thesis using eq p(2) \<open>v = Some p\<close> by simp
      qed
    qed
  next
    case (C_Lookup t)
    with assms ok Some show ?thesis by (auto split: sum.splits)
  next
    case (C_Fetch t)
    with ok have t: "t = ptr_GetTag p sh" "dataCache sh \<noteq> None" "p < length (items sh)" by simp_all
    show ?thesis
    proof (cases "cache_Get t sh")
      case (Inl e)
      with C_Fetch assms(1,2) t Some show ?thesis by auto
    next
      case (Inr q')
      from cache_Get_found [OF assms(2) Inr t(2)] obtain q
        where q: "q' = Some q" "q < length (items sh)" "ptr_GetTag q sh = t" .
      with C_Fetch Inr assms(1) have "call_GetData (Some t) q sh = (pc', sh')" by simp
      from call_GetData_ok [OF this assms(2) q(2) t(3)] q(3) t Some show ?thesis by simp
    qed
  next
    case (C_Sending tag s)
    with ok have m: "message_of sh p s" "p < length (items sh)" by (simp_all split: option.splits)
    show ?thesis
    proof (cases "client_Send s inp sh")
      case None
      with C_Sending assms(1-3) show ?thesis by auto
    next
      case (Some x)
      obtain r sh1 where x: "x = (r, sh1)" by fastforce
      note send = Some [unfolded x]
      have sh1: "sh' = sh1" using C_Sending send assms(1) by (auto split: sum.splits)
      note ev = client_Send_evolves [OF send]
      have "shared_ok sh1" by (rule shared_ok_sent [OF send assms(2) message_of_record [OF m(1)]])
      moreover have "call_ok sh1 (v, pc')"
      proof (cases r)
        case (Inl e)
        with C_Sending send assms(1) have "pc' = on_error tag" by simp
        with ok \<open>v = Some p\<close> C_Sending evolves_tag [OF ev m(2)] evolves_length [OF ev] m(2) show ?thesis
          by (auto simp: on_error_def split: option.splits)
      next
        case (Inr u)
        then have "carried sh1 p"
          using client_Send_carried [OF _ m] send assms(4) C_Sending by (simp add: call_over_def)
        with C_Sending send Inr assms(1) \<open>v = Some p\<close> evolves_length [OF ev] m(2) show ?thesis by auto
      qed
      ultimately show ?thesis using ev client_Send_keeps_stop [OF send] sh1 by simp
    qed
  next
    case (C_Failed t)
    let ?sh = "sh\<lparr>dataCache := map_option (\<lambda>m. snd (map_erase t m)) (dataCache sh)\<rparr>"
    have eq: "pc' = C_Done False" "sh' = ?sh" using C_Failed assms(1) by auto
    have "cache_ok ?sh"
      using assms(2) cache_ok_erase [of sh] by (cases "dataCache sh") (auto simp: shared_ok_def cache_ok_none)
    then have "shared_ok ?sh" using assms(2) by (simp add: shared_ok_def)
    moreover have "evolves sh ?sh" by (rule evolves_items) simp_all
    ultimately show ?thesis using eq ok Some by simp
  qed (use assms ok Some in auto)
qed

section \<open>What a call does to the cache\<close>

lemma the_cache_update [simp]: "the_cache (sh\<lparr>dataCache := c\<rparr>) = (case c of None \<Rightarrow> [] | Some m \<Rightarrow> m)"
  by (simp add: the_cache_def)

definition uncached :: "shared \<Rightarrow> string \<Rightarrow> bool" where
  "uncached sh t \<longleftrightarrow> map_of (the_cache sh) t = None"

text \<open>An item that its call has not added yet, or has given up, is not in the cache.\<close>

fun call_clean :: "shared \<Rightarrow> item_ptr \<times> call_pc \<Rightarrow> bool" where
  "call_clean sh (Some p, C_Have q) = uncached sh (ptr_GetTag p sh)"
| "call_clean sh (Some p, C_Done False) = uncached sh (ptr_GetTag p sh)"
| "call_clean sh c = True"

lemma call_clean_iff:
  "call_clean sh (Some p, pc) \<longleftrightarrow> ((\<exists>q. pc = C_Have q) \<or> pc = C_Done False \<longrightarrow> uncached sh (ptr_GetTag p sh))"
proof (cases pc)
  case (C_Done b)
  then show ?thesis by (cases b) simp_all
qed simp_all

lemma call_ok_live: "call_ok sh c \<Longrightarrow> fst c = Some p \<Longrightarrow> p < length (items sh)"
  by (cases c) simp

definition no_new_keys :: "shared \<Rightarrow> shared \<Rightarrow> bool" where
  "no_new_keys sh sh' \<longleftrightarrow> (\<forall>t. uncached sh t \<longrightarrow> uncached sh' t)"

lemma no_new_keys_same: "dataCache sh' = dataCache sh \<Longrightarrow> no_new_keys sh sh'"
  by (simp add: no_new_keys_def uncached_def the_cache_def)

lemma uncached_none: "dataCache sh = None \<Longrightarrow> uncached sh t"
  by (simp add: uncached_def the_cache_def)

lemma no_new_keys_erase:
  "no_new_keys sh (sh\<lparr>dataCache := map_option (\<lambda>m. snd (map_erase t m)) (dataCache sh)\<rparr>)"
  by (auto simp: no_new_keys_def uncached_def map_erase_def erase_key_def map_of_delete the_cache_def split: option.split)

lemma empty_uncached: "cache_ok sh \<Longrightarrow> uncached sh []"
  by (cases "dataCache sh") (auto simp: uncached_none cache_ok_def cmap_wf_def uncached_def the_cache_def keys_def map_of_eq_None_iff)

lemma erased_uncached:
  "cache_ok sh \<Longrightarrow> uncached (sh\<lparr>dataCache := map_option (\<lambda>m. snd (map_erase t m)) (dataCache sh)\<rparr>) t"
  using empty_uncached [of sh]
  by (auto simp: uncached_def map_erase_def erase_key_def map_of_delete the_cache_def split: option.splits)

lemma call_GetData_cache: "call_GetData tag p sh = (pc', sh') \<Longrightarrow> dataCache sh' = dataCache sh"
  by (auto simp: call_GetData_def dest: ptr_GetData_frame split: prod.splits sum.splits)

lemma call_Add_cache:
  assumes "call_Add now p m sh = (pc', sh')" "dataCache sh = Some m" "p < length (items sh)" "t \<noteq> ptr_GetTag p sh" "uncached sh t"
  shows "uncached sh' t"
  using assms
  by (auto simp: call_Add_def Let_def uncached_def the_cache_def map_add_def map_of_update ptr_GetTag_Touch split: if_splits sum.splits)

lemma call_step_keys:
  assumes "call_step inp (pc, sh) = (pc', sh')" "call_ok sh (Some p, pc)" "t \<noteq> ptr_GetTag p sh" "uncached sh t"
  shows "uncached sh' t"
proof (cases pc)
  case (C_Have q)
  with assms call_GetData_cache [of None q sh pc' sh'] no_new_keys_same [of sh' sh] call_Add_cache [of "in_now inp q" q _ sh pc' sh' t] show ?thesis
    by (auto simp: no_new_keys_def split: option.splits)
next
  case (C_Fetch s)
  have "dataCache sh' = dataCache sh"
    using assms(1) C_Fetch by (auto split: sum.splits option.splits dest: call_GetData_cache)
  then show ?thesis using assms(4) no_new_keys_same by (auto simp: no_new_keys_def)
next
  case (C_Sending tag s)
  have "dataCache sh' = dataCache sh"
    using assms(1) C_Sending by (auto split: sum.splits option.splits dest: client_Send_frame)
  then show ?thesis using assms(4) no_new_keys_same by (auto simp: no_new_keys_def)
next
  case (C_Failed s)
  with assms(1,4) no_new_keys_erase [of sh s] show ?thesis by (auto simp: no_new_keys_def)
qed (use assms in \<open>auto split: sum.splits\<close>)

lemma call_GetData_clean:
  "call_GetData tag q sh = (pc', sh') \<Longrightarrow> (tag = None \<Longrightarrow> dataCache sh = None) \<Longrightarrow> call_clean sh' (Some p, pc')"
  using call_GetData_cache [of tag q sh pc' sh']
  by (auto simp: call_GetData_def on_error_def uncached_none split: prod.splits sum.splits option.splits)

lemma call_step_clean:
  assumes "call_step inp (pc, sh) = (pc', sh')" "call_ok sh (Some p, pc)" "call_clean sh (Some p, pc)" "cache_ok sh"
  shows "call_clean sh' (Some p, pc')"
proof (cases pc)
  case (C_Have q)
  then have q: "q = p" "p < length (items sh)" "uncached sh (ptr_GetTag p sh)" using assms by simp_all
  show ?thesis
  proof (cases "dataCache sh")
    case None
    with C_Have assms(1) have "call_GetData None q sh = (pc', sh')" by simp
    from call_GetData_clean [OF this] None show ?thesis by blast
  next
    case (Some m)
    with C_Have assms(1) q show ?thesis
      by (auto simp: call_Add_def Let_def ptr_GetTag_Touch uncached_def the_cache_def split: sum.splits)
  qed
next
  case (C_Lookup t)
  with assms empty_uncached [OF assms(4)] show ?thesis
    by (auto simp: cache_Get_def map_get_def uncached_def the_cache_def split: sum.splits option.splits if_splits)
next
  case (C_Fetch t)
  with assms(1) show ?thesis
    by (auto split: sum.splits option.splits dest: call_GetData_clean)
next
  case (C_Sending tag s)
  with assms show ?thesis
    by (cases tag) (auto simp: on_error_def uncached_none split: sum.splits option.splits dest!: client_Send_frame)
next
  case (C_Failed t)
  with assms(1,2) erased_uncached [OF assms(4), of t] show ?thesis by (auto simp: ptr_GetTag_def)
qed (use assms in \<open>auto split: sum.splits\<close>)

section \<open>The invariant of the logger\<close>

definition returned_true :: "(item_ptr \<times> call_pc) list \<Rightarrow> nat" where
  "returned_true cs = length (filter (\<lambda>c. snd c = C_Done True) cs)"

text \<open>Different calls have different items.\<close>

definition own_items :: "(item_ptr \<times> call_pc) list \<Rightarrow> bool" where
  "own_items cs \<longleftrightarrow> distinct (filter (\<lambda>v. v \<noteq> None) (map fst cs))"

lemma distinct_filter_nth:
  "distinct (filter P xs) \<Longrightarrow> i < length xs \<Longrightarrow> j < length xs \<Longrightarrow> xs ! i = xs ! j \<Longrightarrow> P (xs ! i) \<Longrightarrow> i = j"
proof (induction xs arbitrary: i j)
  case (Cons x xs)
  then show ?case by (cases i; cases j) (auto split: if_splits dest: nth_mem)
qed simp

lemma own_items_diff: "own_items cs \<Longrightarrow> i < length cs \<Longrightarrow> j < length cs \<Longrightarrow> i \<noteq> j \<Longrightarrow> fst (cs ! i) = Some p \<Longrightarrow> fst (cs ! j) \<noteq> Some p"
  unfolding own_items_def using distinct_filter_nth [of "\<lambda>v. v \<noteq> None" "map fst cs" i j] by auto

definition calls_ok :: "shared \<Rightarrow> (item_ptr \<times> call_pc) list \<Rightarrow> bool" where
  "calls_ok sh cs \<longleftrightarrow> own_items cs \<and> (\<forall>c \<in> set cs. call_ok sh c)
     \<and> (distinct (tag_list sh) \<longrightarrow> (\<forall>c \<in> set cs. call_clean sh c))"

text \<open>All items are made by \<open>SendDjson\<close>, so they have their text; composed, it is their frame.\<close>

definition framed_item :: "djson_item \<Rightarrow> bool" where
  "framed_item item \<longleftrightarrow> m_schemaAndData item \<noteq> [] \<and> m_djsonData item \<in> {[], item_frame item}"

definition framed :: "shared \<Rightarrow> bool" where
  "framed sh \<longleftrightarrow> (\<forall>q < length (items sh). framed_item (items sh ! q))"

lemma framed_kept: "item_kept item item' \<Longrightarrow> framed_item item \<Longrightarrow> framed_item item'"
  by (auto simp: item_kept_def framed_item_def)

lemma framed_evolves: "framed sh \<Longrightarrow> evolves sh sh' \<Longrightarrow> length (items sh') = length (items sh) \<Longrightarrow> framed sh'"
  using framed_kept by (auto simp: framed_def evolves_def)

definition ss_ok :: "socket_system \<Rightarrow> bool" where
  "ss_ok ss \<longleftrightarrow> shared_ok (ss_shared ss) \<and> framed (ss_shared ss) \<and> calls_ok (ss_shared ss) (ss_calls ss)
     \<and> (\<forall>r. sl_dataResender (ss_logger ss) = Some r \<longrightarrow> rs_pc_ok (ss_shared ss) (rs_pc r))
     \<and> sl_totalSend (ss_logger ss) = returned_true (ss_calls ss)
     \<and> (m_stopClient (sockClient (ss_shared ss)) \<longrightarrow> sl_stopRead (ss_logger ss) \<and> list_all call_over (ss_calls ss))"

lemma distinct_prefix: "prefix xs ys \<Longrightarrow> distinct ys \<Longrightarrow> distinct xs"
  by (auto simp: prefix_def)

lemma evolves_distinct: "evolves sh sh' \<Longrightarrow> distinct (tag_list sh') \<Longrightarrow> distinct (tag_list sh)"
  using distinct_prefix by (auto simp: evolves_def)

lemma call_clean_kept:
  assumes "evolves sh sh'" "call_ok sh c" "call_clean sh c"
    "\<And>p. fst c = Some p \<Longrightarrow> uncached sh (ptr_GetTag p sh) \<Longrightarrow> uncached sh' (ptr_GetTag p sh)"
  shows "call_clean sh' c"
proof (cases c)
  case (Pair v pc)
  show ?thesis
  proof (cases v)
    case (Some p)
    with assms(2) Pair have "p < length (items sh)" by simp
    note evolves_tag [OF assms(1) this]
    with assms(3,4) Pair Some show ?thesis by (auto simp: call_clean_iff)
  qed (use Pair in simp)
qed

text \<open>A step of a worker thread.\<close>

lemma calls_ok_worker:
  assumes "calls_ok sh cs" "evolves sh sh'" "no_new_keys sh sh'"
  shows "calls_ok sh' cs"
  using assms call_ok_evolves [OF assms(2)] call_clean_kept [OF assms(2)] evolves_distinct [OF assms(2)]
  unfolding calls_ok_def no_new_keys_def by blast

text \<open>A step of one of the calls.\<close>

lemma calls_ok_move:
  assumes "calls_ok sh cs" "shared_ok sh" "i < length cs" "cs ! i = (v, pc)" "call_step inp (pc, sh) = (pc', sh')"
    "(\<forall>r \<in> set (in_sends inp). \<not> sr_stop r) \<or> call_over (v, pc)"
  shows "calls_ok sh' (cs[i := (v, pc')]) \<and> shared_ok sh' \<and> evolves sh sh' \<and> m_stopClient (sockClient sh') = m_stopClient (sockClient sh)"
proof -
  have ok: "call_ok sh (v, pc)" using assms(1,3,4) by (metis calls_ok_def nth_mem)
  note step = call_step_ok [OF assms(5,2) ok assms(6)]
  then have ev: "evolves sh sh'" by blast
  have own: "own_items cs" "own_items (cs[i := (v, pc')])"
    using assms(1,3,4) map_update_same [of fst "(v, pc')" cs i] by (simp_all add: calls_ok_def own_items_def)
  have "call_ok sh' c" if "c \<in> set (cs[i := (v, pc')])" for c
  proof (cases "c = (v, pc')")
    case False
    then have "c \<in> set cs" using that set_update_subset_insert by fastforce
    with assms(1) have "call_ok sh c" by (simp add: calls_ok_def)
    then show ?thesis by (rule call_ok_evolves [OF ev])
  qed (use step in simp)
  then have oks: "\<forall>c \<in> set (cs[i := (v, pc')]). call_ok sh' c" by blast
  have "call_clean sh' (cs[i := (v, pc')] ! j)" if d: "distinct (tag_list sh')" and j: "j < length cs" for j
  proof -
    have clean: "call_clean sh (cs ! k)" if "k < length cs" for k
      using assms(1) evolves_distinct [OF ev d] that by (simp add: calls_ok_def)
    show ?thesis
    proof (cases "j = i")
      case True
      with step clean [OF assms(3)] call_step_clean [OF assms(5)] ok assms(2-4) show ?thesis
        by (cases v) (auto simp: shared_ok_def split: bool.splits)
    next
      case False
      have "uncached sh' (ptr_GetTag p sh)" if "fst (cs ! j) = Some p" "uncached sh (ptr_GetTag p sh)" for p
      proof (cases v)
        case (Some q)
        have "call_ok sh (cs ! j)" using assms(1) j by (simp add: calls_ok_def)
        then have pq: "p < length (items sh)" "q < length (items sh)" "p \<noteq> q"
          using call_ok_live that(1) ok own_items_diff [OF own(1) assms(3) j] assms(4) Some False by auto
        then have "ptr_GetTag p sh \<noteq> ptr_GetTag q sh"
          using evolves_distinct [OF ev d] by (simp add: ptr_GetTag_tag_list tag_list_length nth_eq_iff_index_eq)
        from call_step_keys [OF assms(5) ok [unfolded Some] this that(2)] show ?thesis .
      qed (use ok assms(5) that in auto)
      moreover have "call_ok sh (cs ! j)" using assms(1) j by (simp add: calls_ok_def)
      ultimately show ?thesis using call_clean_kept [OF ev _ clean [OF j]] False by simp
    qed
  qed
  then have "distinct (tag_list sh') \<longrightarrow> (\<forall>c \<in> set (cs[i := (v, pc')]). call_clean sh' c)"
    by (simp add: all_set_conv_all_nth)
  with own oks step show ?thesis by (simp add: calls_ok_def)
qed

text \<open>A call that begins.\<close>

lemma calls_ok_begin:
  assumes "calls_ok sh cs" "cache_ok sh" "sh' = sh\<lparr>items := items sh @ [item]\<rparr>"
  shows "calls_ok sh' (cs @ [(Some (length (items sh)), C_Have (length (items sh)))])" (is "calls_ok _ (_ @ [?c])")
proof -
  have ev: "evolves sh sh'" using assms(3) by (simp add: evolves_def tag_list_def nth_append)
  have same: "dataCache sh' = dataCache sh" using assms(3) by simp
  have "Some (length (items sh)) \<notin> fst ` set cs"
    using assms(1) call_ok_live by (fastforce simp: calls_ok_def)
  then have "own_items (cs @ [?c])"
    using assms(1) by (simp add: calls_ok_def own_items_def)
  moreover have "\<forall>c \<in> set cs. call_ok sh' c" using assms(1) call_ok_evolves [OF ev] by (auto simp: calls_ok_def)
  moreover have "call_ok sh' ?c" using assms(3) by simp
  moreover have "call_clean sh' c" if d: "distinct (tag_list sh')" and c: "c \<in> set (cs @ [?c])" for c
  proof (cases "c = ?c")
    case True
    have "uncached sh (GetTag item)"
    proof (cases "dataCache sh")
      case (Some m)
      have "GetTag item \<notin> set (tag_list sh)" using d assms(3) by (simp add: tag_list_def)
      with assms(2) Some have "map_of m (GetTag item) = None"
        by (auto simp: cache_ok_def) (metis not_Some_eq nth_mem)
      with Some show ?thesis by (simp add: uncached_def the_cache_def)
    qed (simp add: uncached_none)
    with True assms(3) show ?thesis by (simp add: ptr_GetTag_def uncached_def the_cache_def)
  next
    case False
    with assms(1) c evolves_distinct [OF ev d] have "call_ok sh c" "call_clean sh c" by (auto simp: calls_ok_def)
    then show ?thesis
      by (rule call_clean_kept [OF ev]) (simp add: uncached_def the_cache_same [OF same])
  qed
  ultimately show ?thesis by (auto simp: calls_ok_def)
qed

lemma no_new_keys_shrinks: "shrinks ks sh sh' \<Longrightarrow> no_new_keys sh sh'"
  by (simp add: shrinks_def no_new_keys_def uncached_def without_def)

lemma no_new_keys_sub: "cache_sub (dataCache sh) (dataCache sh') \<Longrightarrow> no_new_keys sh sh'"
  using cache_sub_dom [of sh sh'] by (fastforce simp: no_new_keys_def uncached_def)

lemma on_record_evolves:
  assumes "evolves sh sh'" "on_record sh s"
  shows "on_record sh' s"
proof -
  obtain q where q: "q < length (items sh)" "m_djsonData (items sh ! q) = s" "s \<noteq> []"
    using assms(2) by (auto simp: on_record_def in_set_conv_nth)
  with evolves_message [OF assms(1)] have "m_djsonData (items sh' ! q) = s" by simp
  moreover have "items sh' ! q \<in> set (items sh')" using q(1) evolves_length [OF assms(1)] by simp
  ultimately show ?thesis using q(3) by (auto simp: on_record_def)
qed

lemma rs_pc_ok_evolves: "evolves sh sh' \<Longrightarrow> rs_pc_ok sh pc \<Longrightarrow> rs_pc_ok sh' pc"
  using evolves_length [of sh sh'] on_record_evolves [of sh sh'] by (cases pc) (auto simp: all_live_def)

lemma ss_ok_reader:
  assumes "ss_ok ss"
  shows "ss_ok (ss\<lparr>ss_logger := sl_reader_thread stop1 stop2 polls reads (ss_logger ss)\<rparr>)"
proof -
  let ?sl = "ss_logger ss"
  obtain run sh' where t: "reader_step stop1 stop2 polls reads (sl_sockReader ?sl, sl_shared ?sl) = (run, sh')" by fastforce
  note ok = reader_step_ok [OF t] and ev = reader_step_evolves [OF t]
  have "framed sh'" using framed_evolves [of "sl_shared ?sl" sh'] assms ev reader_step_frame(2) [OF t] by (simp add: ss_ok_def)
  moreover
  have "calls_ok sh' (ss_calls ss)"
    using calls_ok_worker [OF _ _ no_new_keys_sub [OF reader_step_frame(1) [OF t]]] assms ev by (simp add: ss_ok_def)
  ultimately show ?thesis
    using assms t ok ev rs_pc_ok_evolves [of "sl_shared ?sl" sh'] by (simp add: ss_ok_def sl_reader_thread_def)
qed

lemma ss_ok_resender:
  assumes "ss_ok ss"
  shows "ss_ok (ss\<lparr>ss_logger := sl_resender_thread inp (ss_logger ss)\<rparr>)"
proof (cases "sl_dataResender (ss_logger ss)")
  case None
  with assms show ?thesis by (simp add: sl_resender_thread_def)
next
  case (Some r)
  let ?sh = "ss_shared ss"
  obtain r' sh' where t: "resender_step inp (r, ?sh) = (r', sh')" by fastforce
  have "shared_ok ?sh" "rs_pc_ok ?sh (rs_pc r)" using assms Some by (simp_all add: ss_ok_def)
  from resender_step_ok [OF this, of inp] t
  have ok: "shared_ok sh'" "rs_pc_ok sh' (rs_pc r')" "no_new_keys ?sh sh'" "same_items ?sh sh'"
    by (auto simp: resender_step_spec_def no_new_keys_same no_new_keys_shrinks split: resender_pc.splits simp del: resender_step.simps)
  note ev = resender_step_evolves [OF t]
  have "calls_ok sh' (ss_calls ss)" using calls_ok_worker [OF _ _ ok(3)] assms ev by (simp add: ss_ok_def)
  moreover have "framed sh'" using framed_evolves [of ?sh sh'] assms ev ok(4) by (simp add: ss_ok_def same_items_def)
  ultimately show ?thesis
    using assms Some t ok ev by (simp add: ss_ok_def sl_resender_thread_def del: resender_step.simps)
qed

lemma call_GetData_length: "call_GetData tag p sh = (pc', sh') \<Longrightarrow> length (items sh') = length (items sh)"
  by (auto simp: call_GetData_def dest: ptr_GetData_frame split: prod.splits sum.splits)

lemma call_step_length: "call_step inp (pc, sh) = (pc', sh') \<Longrightarrow> length (items sh') = length (items sh)"
  by (cases pc) (auto simp: call_Add_def Let_def split: option.splits prod.splits sum.splits
      dest: call_GetData_length client_Send_frame)

lemma returned_true_update:
  assumes "i < length cs" "cs ! i = (v, pc)" "pc = C_Done True \<Longrightarrow> pc' = C_Done True"
  shows "returned_true (cs[i := (v, pc')]) = returned_true cs + (if pc' = C_Done True \<and> pc \<noteq> C_Done True then 1 else 0)"
  using assms
proof (induction cs arbitrary: i)
  case (Cons c cs)
  then show ?case by (cases i) (auto simp: returned_true_def)
qed simp

lemma call_step_count: "call_step inp (pc, sh) = (pc', sh') \<Longrightarrow> pc' = C_Done True \<longleftrightarrow> pc = C_Count \<or> pc = C_Done True"
  by (cases pc) (auto simp: call_GetData_def call_Add_def on_error_def Let_def split: option.splits prod.splits sum.splits)

lemma ss_ok_move:
  assumes "ss_ok ss" "i < length (ss_calls ss)" "sees_flag inp (ss_shared ss)"
  shows "ss_ok (call_move i inp ss)"
proof -
  let ?sh = "ss_shared ss" and ?sl = "ss_logger ss"
  obtain v pc where vpc: "ss_calls ss ! i = (v, pc)" by fastforce
  obtain pc' sh' where t: "call_step inp (pc, ?sh) = (pc', sh')" by fastforce
  let ?cs = "(ss_calls ss)[i := (v, pc')]"
  have over: "(\<forall>r \<in> set (in_sends inp). \<not> sr_stop r) \<or> call_over (v, pc)"
    using assms vpc by (auto simp: sees_flag_def ss_ok_def list_all_length)
  have ok: "calls_ok ?sh (ss_calls ss)" "shared_ok ?sh" using assms(1) by (simp_all add: ss_ok_def)
  note step = calls_ok_move [OF ok assms(2) vpc t over]
  have "framed sh'"
    using framed_evolves [of ?sh sh'] assms(1) step call_step_length [OF t] by (simp add: ss_ok_def)
  moreover have "rs_pc_ok sh' (rs_pc r)" if "sl_dataResender ?sl = Some r" for r
    using assms(1) that step rs_pc_ok_evolves [of ?sh sh'] by (simp add: ss_ok_def)
  moreover have "list_all call_over ?cs" if "m_stopClient (sockClient sh')"
  proof -
    have all: "list_all call_over (ss_calls ss)" using assms(1) step that by (simp add: ss_ok_def)
    with assms(2) vpc have "call_over (v, pc)" by (metis list_all_length)
    with t have "call_over (v, pc')" by (auto simp: call_over_def)
    with all show ?thesis by (auto simp: list_all_length nth_update)
  qed
  moreover have "returned_true ?cs = returned_true (ss_calls ss) + (if pc = C_Count then 1 else 0)"
    using returned_true_update [OF assms(2) vpc, of pc'] call_step_count [OF t] by auto
  ultimately show ?thesis
    using assms(1) step vpc t by (simp add: ss_ok_def call_move_def Let_def)
qed

lemma ss_ok_begin:
  assumes "ss_ok ss" "\<not> sl_stopRead (ss_logger ss)"
  shows "ss_ok (call_begin now source sad ss)"
proof (cases "source = [] \<or> sad = []")
  case True
  with assms show ?thesis
    by (auto simp: ss_ok_def call_begin_def calls_ok_def own_items_def returned_true_def)
next
  case False
  let ?sh = "ss_shared ss"
  obtain item c' where new: "new_djson_item_with now source sad (ss_counter ss) = (item, c')" by fastforce
  let ?sh' = "?sh\<lparr>items := items ?sh @ [item]\<rparr>"
  have eq: "call_begin now source sad ss = ss\<lparr>ss_counter := c',
      ss_logger := (ss_logger ss)\<lparr>sl_shared := ?sh', sl_started := True\<rparr>,
      ss_calls := ss_calls ss @ [(Some (length (items ?sh)), C_Have (length (items ?sh)))]\<rparr>"
    using False new by (simp add: call_begin_def alloc_item_def with_shared_def)
  have ok: "calls_ok ?sh (ss_calls ss)" "shared_ok ?sh" "\<not> m_stopClient (sockClient ?sh)"
    using assms by (auto simp: ss_ok_def)
  have "framed ?sh'"
    using assms(1) fresh_item_alloc [OF new] False by (auto simp: ss_ok_def framed_def framed_item_def nth_append less_Suc_eq)
  moreover have "shared_ok ?sh'" using shared_ok_alloc [OF ok(2), of item] by (simp add: alloc_item_def)
  moreover have "evolves ?sh ?sh'" by (simp add: evolves_def tag_list_def nth_append)
  moreover note calls_ok_begin [OF ok(1) _ refl, of item]
  ultimately show ?thesis
    using assms(1) ok(2,3) unfolding eq ss_ok_def
    by (auto simp: shared_ok_def returned_true_def intro: rs_pc_ok_evolves)
qed

lemma ss_ok_destructor:
  assumes "ss_ok ss" "list_all call_over (ss_calls ss)"
  shows "ss_ok (ss\<lparr>ss_logger := sl_destructor (ss_logger ss)\<rparr>)"
proof -
  let ?sh = "ss_shared ss"
  let ?sh' = "?sh\<lparr>sockClient := client_Stop (sockClient ?sh)\<rparr>"
  have ev: "evolves ?sh ?sh'" by (rule evolves_items) simp_all
  have "calls_ok ?sh' (ss_calls ss)"
    using calls_ok_worker [OF _ ev no_new_keys_same] assms(1) by (simp add: ss_ok_def)
  with assms rs_pc_ok_evolves [OF ev] framed_evolves [OF _ ev] show ?thesis
    by (auto simp: ss_ok_def sl_destructor_def shared_ok_client resender_Stop_def)
qed

lemma ss_ok_step: "ss_step ss ss' \<Longrightarrow> ss_ok ss \<Longrightarrow> ss_ok ss'"
proof (induction rule: ss_step.induct)
  case (other_item ss)
  then show ?case by (simp add: ss_ok_def)
qed (simp_all add: ss_ok_begin ss_ok_move ss_ok_reader ss_ok_resender ss_ok_destructor)

lemma ss_ok_init:
  "new_socket_logger socketFile ackMS resendMS connMS ids = Inr sl \<Longrightarrow> ss_ok (new_socket_system sl c)"
  by (auto simp: new_socket_logger_def new_socket_system_def ss_ok_def shared_ok_def cache_ok_def cmap_wf_def keys_def
      wire_ok_def framed_def calls_ok_def own_items_def returned_true_def new_data_resender_def new_unix_client_def unix_client_def
      split: sum.splits if_splits)

theorem ss_reachable_ok: "ss_reachable ss \<Longrightarrow> ss_ok ss"
  by (induction rule: ss_reachable.induct) (auto intro: ss_ok_init ss_ok_step)

section \<open>From the start of a call to its end\<close>

definition same_call :: "nat \<Rightarrow> socket_system \<Rightarrow> socket_system \<Rightarrow> bool" where
  "same_call i ss ss' \<longleftrightarrow> evolves (ss_shared ss) (ss_shared ss')
     \<and> (i < length (ss_calls ss) \<longrightarrow> i < length (ss_calls ss') \<and> fst (ss_calls ss' ! i) = fst (ss_calls ss ! i))"

lemma same_call_trans: "same_call i a b \<Longrightarrow> same_call i b c \<Longrightarrow> same_call i a c"
  by (auto simp: same_call_def intro: evolves_trans)

lemma ss_step_same_call:
  assumes "ss_step ss ss'" "ss_ok ss"
  shows "same_call i ss ss'"
  using assms
proof (induction rule: ss_step.induct)
  case (call ss now source sad)
  show ?case
    by (auto simp: same_call_def call_begin_def with_shared_def alloc_item_def evolves_def tag_list_def nth_append split: prod.split)
next
  case (move j ss inp)
  obtain v pc where vpc: "ss_calls ss ! j = (v, pc)" by fastforce
  obtain pc' sh' where t: "call_step inp (pc, ss_shared ss) = (pc', sh')" by fastforce
  have "(\<forall>r \<in> set (in_sends inp). \<not> sr_stop r) \<or> call_over (v, pc)"
    using move vpc by (auto simp: sees_flag_def ss_ok_def list_all_length)
  from calls_ok_move [OF _ _ move(1) vpc t this] move(3)
  have "evolves (ss_shared ss) sh'" by (simp add: ss_ok_def)
  then show ?case using vpc t by (auto simp: same_call_def call_move_def Let_def nth_update)
next
  case (reader ss stop1 stop2 polls reads)
  then show ?case
    using reader_step_evolves [of stop1 stop2 polls reads "sl_sockReader (ss_logger ss)" "ss_shared ss"]
    by (simp add: same_call_def sl_reader_thread_def split: prod.split)
next
  case (resender ss inp)
  then show ?case
    using resender_step_evolves [of inp _ "ss_shared ss"]
    by (auto simp: same_call_def sl_resender_thread_def simp del: resender_step.simps split: prod.split option.split)
next
  case (destructor ss)
  then show ?case by (auto simp: same_call_def sl_destructor_def intro: evolves_items)
qed (simp add: same_call_def)

lemma ss_steps_same_call:
  "ss_step\<^sup>*\<^sup>* ss ss' \<Longrightarrow> ss_ok ss \<Longrightarrow> same_call i ss ss' \<and> ss_ok ss'"
proof (induction rule: rtranclp_induct)
  case (step y z)
  then show ?case using ss_step_same_call ss_ok_step same_call_trans by blast
qed (simp add: same_call_def)

text \<open>A call that has begun with arguments that are not empty.\<close>

lemma call_begin_item:
  assumes "source \<noteq> []" "sad \<noteq> []"
  obtains item where "ss_calls (call_begin now source sad ss) ! length (ss_calls ss)
      = (Some (length (items (ss_shared ss))), C_Have (length (items (ss_shared ss))))"
    "length (ss_calls (call_begin now source sad ss)) = length (ss_calls ss) + 1"
    "items (ss_shared (call_begin now source sad ss)) = items (ss_shared ss) @ [item]"
    "GetTag item = to_string (unat (ss_counter ss + 1))" "m_schemaAndData item \<noteq> []"
    "item_frame item = djson_frame (djson_payload source (to_string (unat (ss_counter ss + 1))) sad)"
proof -
  obtain item c where new: "new_djson_item_with now source sad (ss_counter ss) = (item, c)" by fastforce
  note f = fresh_item_alloc [OF new]
  show thesis
    by (rule that [of item]) (use assms new f in \<open>simp_all add: call_begin_def alloc_item_def with_shared_def item_frame_def\<close>)
qed

text \<open>A call from its start to its end.\<close>

lemma call_outcome:
  assumes "ss_reachable ss" "\<not> sl_stopRead (ss_logger ss)" "source \<noteq> []" "sad \<noteq> []"
    "ss_step\<^sup>*\<^sup>* (call_begin now source sad ss) ss'" "distinct (tag_list (ss_shared ss'))"
    "snd (ss_calls ss' ! length (ss_calls ss)) = C_Done b"
  shows "if b
    then c_str (djson_frame (djson_payload source (to_string (unat (ss_counter ss + 1))) sad)) \<in> set (wire (ss_shared ss'))
    else map_of (the_cache (ss_shared ss')) (to_string (unat (ss_counter ss + 1))) = None"
proof -
  let ?ss = "call_begin now source sad ss" and ?i = "length (ss_calls ss)" and ?p = "length (items (ss_shared ss))"
  obtain item where item: "ss_calls ?ss ! ?i = (Some ?p, C_Have ?p)" "length (ss_calls ?ss) = ?i + 1"
    "items (ss_shared ?ss) = items (ss_shared ss) @ [item]" "GetTag item = to_string (unat (ss_counter ss + 1))"
    "m_schemaAndData item \<noteq> []"
    "item_frame item = djson_frame (djson_payload source (to_string (unat (ss_counter ss + 1))) sad)"
    by (rule call_begin_item [OF assms(3,4), of now ss])
  have "ss_ok ?ss" by (rule ss_reachable_ok [OF ss_reachable.step [OF assms(1) ss_step.call [OF assms(2)]]])
  from ss_steps_same_call [OF assms(5) this, of ?i]
  have ev: "evolves (ss_shared ?ss) (ss_shared ss')" and ok: "ss_ok ss'"
    and i: "?i < length (ss_calls ss')" "fst (ss_calls ss' ! ?i) = Some ?p"
    using item(1,2) by (simp_all add: same_call_def)
  let ?sh = "ss_shared ss'"
  have c: "ss_calls ss' ! ?i = (Some ?p, C_Done b)" using i assms(7) by (simp add: prod_eq_iff)
  with ok i(1) assms(6) have call: "call_ok ?sh (Some ?p, C_Done b)" "call_clean ?sh (Some ?p, C_Done b)"
    by (metis ss_ok_def calls_ok_def nth_mem)+
  have tag: "ptr_GetTag ?p ?sh = to_string (unat (ss_counter ss + 1))"
    using evolves_tag [OF ev, of ?p] item(3,4) by (simp add: ptr_GetTag_def)
  show ?thesis
  proof (cases b)
    case True
    with call(1) obtain s q where s: "c_str s \<in> set (wire ?sh)" "s \<noteq> []" "q < length (items ?sh)"
      "ptr_GetTag q ?sh = ptr_GetTag ?p ?sh" "m_djsonData (items ?sh ! q) = s" "?p < length (items ?sh)"
      by (auto simp: carried_def message_of_def)
    then have "q = ?p"
      using assms(6) by (simp add: ptr_GetTag_tag_list tag_list_length nth_eq_iff_index_eq)
    moreover have "framed_item (items ?sh ! ?p)" using ok s(6) by (simp add: ss_ok_def framed_def)
    moreover have "item_frame (items ?sh ! ?p) = item_frame item"
      using ev item(3,5) by (simp add: evolves_def item_kept_def nth_append)
    ultimately show ?thesis using True s(1,2,5) item(6) by (simp add: framed_item_def)
  next
    case False
    with call(2) tag show ?thesis by (simp add: uncached_def)
  qed
qed

section \<open>The machine and the function\<close>

text \<open>
  \<open>sl_SendData\<close> describes a call as a function, with the other threads as functions for three
  moments. They run when the machine arrives at these.
\<close>

definition interfere :: "interference \<Rightarrow> call_pc \<times> shared \<Rightarrow> call_pc \<times> shared" where
  "interfere env st =
     (case st of (pc, sh) \<Rightarrow> (pc,
        case pc of C_Lookup t \<Rightarrow> if_added env sh | C_Fetch t \<Rightarrow> if_found env sh | C_Failed t \<Rightarrow> if_failed env sh | _ \<Rightarrow> sh))"

fun call_run :: "nat \<Rightarrow> thread_input \<Rightarrow> interference \<Rightarrow> call_pc \<times> shared \<Rightarrow> call_pc \<times> shared" where
  "call_run 0 inp env st = st"
| "call_run (Suc n) inp env st = call_run n inp env (interfere env (call_step inp st))"

lemma call_run_done: "call_run n inp env (C_Done b, sh) = (C_Done b, sh)"
  by (induction n) (simp_all add: interfere_def)

lemma call_run_stuck: "client_Send s inp sh = None \<Longrightarrow> call_run n inp env (C_Sending tag s, sh) = (C_Sending tag s, sh)"
  by (induction n) (simp_all add: interfere_def)

definition given_up :: "interference \<Rightarrow> string option \<Rightarrow> shared \<Rightarrow> shared" where
  "given_up env tag sh =
     (case tag of
        None \<Rightarrow> sh
      | Some t \<Rightarrow> (let sh' = if_failed env sh in sh'\<lparr>dataCache := map_option (\<lambda>m. snd (map_erase t m)) (dataCache sh')\<rparr>))"

lemma call_run_failed:
  "call_run (Suc n) inp env (interfere env (on_error tag, sh)) = (C_Done False, given_up env tag sh)"
  by (cases tag) (simp_all add: on_error_def interfere_def given_up_def Let_def call_run_done)

text \<open>From \<open>GetData\<close> on.\<close>

lemma call_run_send:
  "case Send_item q inp sh of
     None \<Rightarrow> \<exists>s. fst (call_run (Suc (Suc n)) inp env (interfere env (call_GetData tag q sh))) = C_Sending tag s
   | Some (Inr _, sh') \<Rightarrow> call_run (Suc (Suc n)) inp env (interfere env (call_GetData tag q sh)) = (C_Done True, sh')
   | Some (Inl e, sh') \<Rightarrow> call_run (Suc (Suc n)) inp env (interfere env (call_GetData tag q sh)) = (C_Done False, given_up env tag sh')"
proof -
  obtain r sh1 where g: "ptr_GetData q sh = (r, sh1)" by fastforce
  show ?thesis
  proof (cases r)
    case (Inl e)
    with g show ?thesis by (simp add: Send_item_def call_GetData_def call_run_failed del: call_run.simps)
  next
    case (Inr s)
    have at: "interfere env (call_GetData tag q sh) = (C_Sending tag s, sh1)"
      using g Inr by (simp add: call_GetData_def interfere_def)
    show ?thesis
    proof (cases "client_Send s inp sh1")
      case None
      from call_run_stuck [OF this] None g Inr at show ?thesis by (simp add: Send_item_def del: call_run.simps)
    next
      case (Some x)
      obtain r' sh2 where x: "x = (r', sh2)" by fastforce
      show ?thesis
      proof (cases r')
        case (Inl e)
        have "call_run (Suc (Suc n)) inp env (C_Sending tag s, sh1) = call_run (Suc n) inp env (interfere env (on_error tag, sh2))"
          using Some x Inl by simp
        also have "\<dots> = (C_Done False, given_up env tag sh2)" by (rule call_run_failed)
        finally show ?thesis using Some x Inl g Inr at by (simp add: Send_item_def del: call_run.simps)
      next
        case (Inr u)
        with Some x g \<open>r = Inr s\<close> at show ?thesis by (simp add: Send_item_def interfere_def call_run_done)
      qed
    qed
  qed
qed

text \<open>The other threads keep the invariant and do not remove the cache itself.\<close>

definition lawful :: "interference \<Rightarrow> bool" where
  "lawful env \<longleftrightarrow> (\<forall>sh. shared_ok sh \<and> dataCache sh \<noteq> None \<longrightarrow>
     shared_ok (if_added env sh) \<and> dataCache (if_added env sh) \<noteq> None \<and>
     shared_ok (if_found env sh) \<and> dataCache (if_found env sh) \<noteq> None)"

lemma call_Add_step:
  assumes "dataCache sh = Some m" "shared_ok sh" "p < length (items sh)"
    "map_add (ptr_GetTag p (ptr_Touch now p sh)) (Some p) m = Inr m'"
  shows "shared_ok ((ptr_Touch now p sh)\<lparr>dataCache := Some m'\<rparr>)"
proof -
  have "shared_ok (ptr_Touch now p sh)"
    by (rule shared_ok_same [OF assms(2)]) (simp_all add: same_items_def ptr_Touch_record)
  with cache_ok_add [OF _ _ assms(4)] assms(1,3) show ?thesis by (simp add: shared_ok_def)
qed

section \<open>Properties\<close>

text \<open>
  C6: \<open>SocketLogger\<close> under any interleaving. Whatever the order in which any number of calls
  of \<open>SendDjson\<close>, the reader, the resender and the destructor take their steps, no call
  dereferences a null pointer, every cached entry is an item under its own tag, everything on
  the wire is a part of a composed message, and the count of sends is the number of calls that
  returned true.
\<close>

theorem socket_calls_safe:
  assumes "ss_reachable ss"
  shows "(\<forall>c \<in> set (ss_calls ss). snd c \<noteq> C_Null_Deref) \<and> cache_ok (ss_shared ss) \<and> wire_ok (ss_shared ss)
    \<and> sl_totalSend (ss_logger ss) = length (filter (\<lambda>c. snd c = C_Done True) (ss_calls ss))"
proof -
  note ok = ss_reachable_ok [OF assms]
  have "snd c \<noteq> C_Null_Deref" if "c \<in> set (ss_calls ss)" for c
  proof -
    have "call_ok (ss_shared ss) c" using ok that by (simp add: ss_ok_def calls_ok_def)
    then show ?thesis by (cases c; cases "fst c") auto
  qed
  with ok show ?thesis by (simp add: ss_ok_def shared_ok_def returned_true_def)
qed

definition sample_system :: socket_system where
  "sample_system = new_socket_system sample_socket_logger 0"

definition sample_calls :: "thread_input list \<Rightarrow> socket_system" where
  "sample_calls inps = fold (call_move 0) inps (call_begin 0 ''s'' ''D'' sample_system)"

lemma sample_system_reachable: "ss_reachable sample_system"
proof -
  have "\<exists>sl. new_socket_logger ''/s'' 1000 10 1000 [] = Inr sl"
    by (simp add: new_socket_logger_def new_unix_client_def UnixSockAddr_def sun_path_size_def new_data_resender_def)
  then show ?thesis
    by (auto simp: sample_system_def sample_socket_logger_def dest: ss_reachable.init)
qed

lemma moves_step:
  "0 < length (ss_calls ss) \<Longrightarrow> list_all (\<lambda>inp. \<forall>r \<in> set (in_sends inp). \<not> sr_stop r) inps \<Longrightarrow>
   ss_step\<^sup>*\<^sup>* ss (fold (call_move 0) inps ss)"
proof (induction inps arbitrary: ss)
  case (Cons inp inps)
  have "ss_step ss (call_move 0 inp ss)"
    by (rule ss_step.move) (use Cons.prems in \<open>auto simp: sees_flag_def\<close>)
  moreover have "ss_step\<^sup>*\<^sup>* (call_move 0 inp ss) (fold (call_move 0) inps (call_move 0 inp ss))"
    by (rule Cons.IH) (use Cons.prems in \<open>simp_all add: call_move_def Let_def split_beta\<close>)
  ultimately show ?case by (simp add: converse_rtranclp_into_rtranclp)
qed simp

lemma reachable_steps: "ss_step\<^sup>*\<^sup>* ss ss' \<Longrightarrow> ss_reachable ss \<Longrightarrow> ss_reachable ss'"
  by (induction rule: rtranclp_induct) (auto intro: ss_reachable.step)

lemma sample_calls_steps:
  "ss_step\<^sup>*\<^sup>* (call_begin 0 ''s'' ''D'' sample_system) (sample_calls (replicate n (good_input 20)))"
  unfolding sample_calls_def
  by (rule moves_step) (auto simp: call_begin_def list_all_iff good_input_def accepting_def Let_def split: prod.split)

lemma sample_begin: "ss_step sample_system (call_begin 0 ''s'' ''D'' sample_system)"
proof (rule ss_step.call)
  show "\<not> sl_stopRead (ss_logger sample_system)" by code_simp
qed

theorem socket_calls_safe_witness:
  "sl_totalSend (ss_logger (sample_calls (replicate 5 (good_input 20)))) = 1"
proof -
  have "ss_reachable (sample_calls (replicate 5 (good_input 20)))"
    using reachable_steps [OF sample_calls_steps] sample_begin sample_system_reachable ss_reachable.step by blast
  note socket_calls_safe [OF this]
  moreover have "map snd (ss_calls (sample_calls (replicate 5 (good_input 20)))) = [C_Done True]" by code_simp
  ultimately show ?thesis by (auto simp: Cons_eq_map_conv)
qed

text \<open>
  C3: what the result of \<open>SendDjson\<close> promises, under any interleaving. Let a call begin with
  arguments that are not empty and let it and all other threads run on in any way. If the call
  has returned true then the whole message made of its arguments and its tag has been sent. If
  it has returned false then its tag leads to nothing in the cache, so the resender will not
  find it: the caller may retry. Tags are distinct among up to \<open>2^64\<close> items.
\<close>

theorem SendDjson_promise:
  assumes "ss_reachable ss" "\<not> sl_stopRead (ss_logger ss)" "source \<noteq> []" "sad \<noteq> []"
    "ss_step\<^sup>*\<^sup>* (call_begin now source sad ss) ss'" "distinct (tag_list (ss_shared ss'))"
    "snd (ss_calls ss' ! length (ss_calls ss)) = C_Done b"
  shows "if b
    then c_str (djson_frame (djson_payload source (to_string (unat (ss_counter ss + 1))) sad)) \<in> set (wire (ss_shared ss'))
    else map_of (the_cache (ss_shared ss')) (to_string (unat (ss_counter ss + 1))) = None"
  by (rule call_outcome [OF assms])

theorem SendDjson_promise_witness:
  "c_str (djson_frame (djson_payload ''s'' ''1'' ''D'')) \<in> set (wire (ss_shared (sample_calls (replicate 5 (good_input 20)))))"
proof -
  let ?ss = "sample_calls (replicate 5 (good_input 20))"
  have e: "map snd (ss_calls ?ss) = [C_Done True]" "tag_list (ss_shared ?ss) = [''1'']" "ss_calls sample_system = []"
    "ss_counter sample_system = 0" "sl_stopRead (ss_logger sample_system) = False"
    by code_simp+
  have "to_string (unat (0 + 1 :: 64 word)) = ''1''" by (simp add: to_string.simps)
  with SendDjson_promise [OF sample_system_reachable _ _ _ sample_calls_steps [of 5], of True] e show ?thesis
    by (auto simp: Cons_eq_map_conv)
qed

lemma call_run_is_SendData:
  assumes "shared_ok (sl_shared sl)" "p < length (items (sl_shared sl))" "lawful env"
  shows "case sl_SendData (Some p) inp env sl of
      None \<Rightarrow> \<exists>tag s. fst (call_run 5 inp env (C_Have p, sl_shared sl)) = C_Sending tag s
    | Some (Inr _, sl') \<Rightarrow> call_run 5 inp env (C_Have p, sl_shared sl) = (C_Done True, sl_shared sl')
    | Some (Inl e, sl') \<Rightarrow> call_run 5 inp env (C_Have p, sl_shared sl) = (C_Done False, sl_shared sl')"
proof -
  let ?sh = "sl_shared sl"
  have run: "call_run 5 inp env st = call_run 4 inp env (interfere env (call_step inp st))"
    "call_run 4 inp env st = call_run 3 inp env (interfere env (call_step inp st))"
    "call_run 3 inp env st = call_run 2 inp env (interfere env (call_step inp st))" for st
    by (simp_all add: eval_nat_numeral)
  have two: "call_run 2 = call_run (Suc (Suc 0))" by (simp add: eval_nat_numeral)
  show ?thesis
  proof (cases "dataCache ?sh")
    case None
    then have "call_run 5 inp env (C_Have p, ?sh) = call_run 4 inp env (interfere env (call_GetData None p ?sh))"
      by (simp add: run(1) del: call_run.simps)
    with call_run_send [where n = 2 and q = p and sh = ?sh and tag = None and inp = inp and env = env] None show ?thesis
      by (auto simp: sl_SendData_def Let_def given_up_def simp del: call_run.simps split: option.splits prod.splits sum.splits)
  next
    case (Some m)
    let ?sh1 = "ptr_Touch (in_now inp p) p ?sh"
    let ?t = "ptr_GetTag p ?sh1"
    show ?thesis
    proof (cases "map_add ?t (Some p) m")
      case (Inl e)
      with Some show ?thesis
        by (simp add: sl_SendData_def run(1) call_Add_def Let_def interfere_def call_run_done del: call_run.simps)
    next
      case (Inr m')
      let ?sh2 = "if_added env (?sh1\<lparr>dataCache := Some m'\<rparr>)"
      let ?sh3 = "if_found env ?sh2"
      have ok2: "shared_ok ?sh2" "dataCache ?sh2 \<noteq> None"
        using call_Add_step [OF Some assms(1,2) Inr] assms(3) by (simp_all add: lawful_def)
      then have ok3: "shared_ok ?sh3" "dataCache ?sh3 \<noteq> None" using assms(3) by (simp_all add: lawful_def)
      have added: "interfere env (call_step inp (C_Have p, ?sh)) = (C_Lookup ?t, ?sh2)"
        using Some Inr by (simp add: call_Add_def Let_def interfere_def)
      show ?thesis
      proof (cases "cache_Get ?t ?sh2")
        case (Inl e)
        with Some Inr added show ?thesis
          by (simp add: sl_SendData_def run(1,2) Let_def interfere_def call_run_done del: call_run.simps)
      next
        case found: (Inr v)
        then have found': "interfere env (call_step inp (C_Lookup ?t, ?sh2)) = (C_Fetch ?t, ?sh3)"
          by (simp add: interfere_def)
        show ?thesis
        proof (cases "cache_Get ?t ?sh3")
          case (Inl e)
          have "call_run 5 inp env (C_Have p, ?sh) = call_run (Suc 1) inp env (interfere env (on_error (Some ?t), ?sh3))"
            using added found' Inl by (simp add: run two on_error_def del: call_run.simps)
          then have "call_run 5 inp env (C_Have p, ?sh) = (C_Done False, given_up env (Some ?t) ?sh3)"
            by (simp only: call_run_failed)
          with Inl found Inr Some show ?thesis by (simp add: sl_SendData_def Let_def given_up_def)
        next
          case (Inr v')
          from cache_Get_found [OF ok3(1) Inr ok3(2)] obtain q where q: "v' = Some q" by metis
          have "call_run 5 inp env (C_Have p, ?sh) = call_run (Suc (Suc 0)) inp env (interfere env (call_GetData (Some ?t) q ?sh3))"
            using added found' Inr q by (simp add: run two del: call_run.simps)
          with call_run_send [where n = 0 and q = q and sh = ?sh3 and tag = "Some ?t" and inp = inp and env = env]
            Inr q found \<open>map_add ?t (Some p) m = Inr m'\<close> Some
          show ?thesis
            by (auto simp: sl_SendData_def Let_def given_up_def simp del: call_run.simps split: option.splits prod.splits sum.splits)
        qed
      qed
    qed
  qed
qed

lemma sl_SendData_frame:
  assumes "sl_SendData (Some p) inp env sl = Some (res, sl')"
  shows "sl' = sl\<lparr>sl_started := True, sl_shared := sl_shared sl',
    sl_totalSend := sl_totalSend sl + (case res of Inl e \<Rightarrow> 0 | Inr _ \<Rightarrow> 1)\<rparr>"
  using assms by (auto simp: sl_SendData_def Let_def split: option.splits sum.splits prod.splits)

text \<open>
  The only call of a logger, with its moves as in the interleaving and the other threads as
  functions at the three moments.
\<close>

definition only_call :: "item_ptr \<Rightarrow> call_pc \<Rightarrow> socket_logger \<Rightarrow> counter \<Rightarrow> socket_system" where
  "only_call v pc sl c = \<lparr>ss_logger = sl, ss_counter = c, ss_calls = [(v, pc)]\<rparr>"

fun system_run :: "nat \<Rightarrow> thread_input \<Rightarrow> interference \<Rightarrow> socket_system \<Rightarrow> socket_system" where
  "system_run 0 inp env ss = ss"
| "system_run (Suc n) inp env ss =
     (let ss' = call_move 0 inp ss
      in system_run n inp env (with_shared ss' (snd (interfere env (snd (ss_calls ss' ! 0), ss_shared ss')))))"

lemma interfere_pc: "fst (interfere env (pc, sh)) = pc"
  by (simp add: interfere_def)

lemma call_step_done:
  "pc \<noteq> C_Count \<Longrightarrow> fst (call_step inp (pc, sh)) = C_Done True \<Longrightarrow> pc = C_Done True"
  by (cases pc) (auto simp: call_GetData_def call_Add_def on_error_def Let_def split: option.splits sum.splits prod.splits)

lemma system_run_call:
  "system_run n inp env (only_call v pc sl c) =
    (case call_run n inp env (pc, sl_shared sl) of (pc', sh') \<Rightarrow>
       only_call v pc' (sl\<lparr>sl_shared := sh',
         sl_totalSend := sl_totalSend sl + (if pc' = C_Done True \<and> pc \<noteq> C_Done True then 1 else 0)\<rparr>) c)"
proof (induction n arbitrary: pc sl)
  case 0
  then show ?case by simp
next
  case (Suc n)
  obtain pc1 sh1 where step: "call_step inp (pc, sl_shared sl) = (pc1, sh1)" by fastforce
  let ?sh1 = "snd (interfere env (pc1, sh1))"
  let ?sl1 = "sl\<lparr>sl_shared := ?sh1, sl_totalSend := (if pc = C_Count then sl_totalSend sl + 1 else sl_totalSend sl)\<rparr>"
  have int: "interfere env (pc1, sh1) = (pc1, ?sh1)" by (simp add: prod_eq_iff interfere_pc)
  let ?t = "if pc = C_Count then sl_totalSend sl + 1 else sl_totalSend sl"
  have "call_move 0 inp (only_call v pc sl c) = only_call v pc1 (sl\<lparr>sl_shared := sh1, sl_totalSend := ?t\<rparr>) c"
    by (simp add: call_move_def only_call_def step)
  moreover have "with_shared (only_call v pc1 (sl\<lparr>sl_shared := sh1, sl_totalSend := ?t\<rparr>) c) ?sh1 = only_call v pc1 ?sl1 c"
    by (cases sl) (simp add: with_shared_def only_call_def)
  ultimately have "system_run (Suc n) inp env (only_call v pc sl c) = system_run n inp env (only_call v pc1 ?sl1 c)"
    by (simp add: only_call_def)
  moreover have "call_run (Suc n) inp env (pc, sl_shared sl) = call_run n inp env (pc1, ?sh1)"
    using int by (simp add: step)
  moreover have "pc = C_Count \<Longrightarrow> pc1 = C_Done True" "pc = C_Done True \<Longrightarrow> pc1 = C_Done True"
    "pc1 = C_Done True \<Longrightarrow> pc = C_Count \<or> pc = C_Done True"
    using step call_step_done [of pc inp "sl_shared sl"] by auto
  moreover have "fst (call_run n inp env (C_Done True, sh)) = C_Done True" for sh by (simp add: call_run_done)
  ultimately show ?case
    using Suc.IH [of pc1 ?sl1] by (cases "pc1 = C_Done True") (auto simp: call_run_done split: prod.split)
qed

text \<open>
  C35: the machine and the function agree. A call of \<open>SendData\<close> for an existing item of a logger whose
  shared state is in order, run as the only call, with what the other threads do put in at the
  three moments the function \<open>sl_SendData\<close> has for it, where they keep that order and the
  cache, ends in the result and the logger the function gives, the count of sends included;
  it is still sending where the function has no result.
\<close>

theorem call_is_SendData:
  assumes "shared_ok (sl_shared sl)" "p < length (items (sl_shared sl))" "lawful env"
  shows "case sl_SendData (Some p) inp env sl of
      None \<Rightarrow> \<exists>tag s. snd (ss_calls (system_run 5 inp env (only_call (Some p) (C_Have p) (sl\<lparr>sl_started := True\<rparr>) c)) ! 0) = C_Sending tag s
    | Some (res, sl') \<Rightarrow>
        system_run 5 inp env (only_call (Some p) (C_Have p) (sl\<lparr>sl_started := True\<rparr>) c)
          = only_call (Some p) (C_Done (case res of Inl e \<Rightarrow> False | Inr _ \<Rightarrow> True)) sl' c"
proof (cases "sl_SendData (Some p) inp env sl")
  case None
  with call_run_is_SendData [OF assms, of inp] show ?thesis
    unfolding system_run_call by (auto simp: only_call_def split_beta simp del: call_run.simps)
next
  case (Some x)
  obtain res sl' where x: "x = (res, sl')" by fastforce
  have "call_run 5 inp env (C_Have p, sl_shared sl) = (C_Done (case res of Inl e \<Rightarrow> False | Inr _ \<Rightarrow> True), sl_shared sl')"
    using call_run_is_SendData [OF assms, of inp] Some x by (cases res) (simp_all del: call_run.simps)
  moreover note sl_SendData_frame [OF Some [unfolded x]]
  ultimately show ?thesis
    using Some x by (cases res) (simp_all add: system_run_call del: call_run.simps system_run.simps)
qed

definition erased_early :: interference where
  "erased_early = quiet_threads\<lparr>if_added :=
     (\<lambda>sh. sh\<lparr>dataCache := map_option (\<lambda>m. snd (map_erase ''1'' m)) (dataCache sh)\<rparr>)\<rparr>"

definition one_item_logger :: socket_logger where
  "one_item_logger = sample_socket_logger\<lparr>sl_shared := snd (alloc_item sample_item (sl_shared sample_socket_logger))\<rparr>"

lemma erased_early_lawful: "lawful erased_early"
proof -
  have "shared_ok (sh\<lparr>dataCache := Some (snd (map_erase k m))\<rparr>)" if "shared_ok sh" "dataCache sh = Some m" for sh k m
    using cache_ok_erase [OF _ that(2)] that(1) by (simp add: shared_ok_def)
  then show ?thesis by (auto simp: lawful_def erased_early_def quiet_threads_def)
qed

theorem call_is_SendData_witness:
  "\<exists>sl'. system_run 5 (good_input 20) erased_early (only_call (Some 0) (C_Have 0) (one_item_logger\<lparr>sl_started := True\<rparr>) 1)
     = only_call (Some 0) (C_Done False) sl' 1"
proof -
  have "ss_ok sample_system" by (rule ss_reachable_ok [OF sample_system_reachable])
  then have "shared_ok (sl_shared one_item_logger)"
    using shared_ok_alloc by (simp add: ss_ok_def sample_system_def new_socket_system_def one_item_logger_def)
  moreover have "0 < length (items (sl_shared one_item_logger))" by (simp add: one_item_logger_def alloc_item_def)
  moreover have "map_option (\<lambda>x. isl (fst x)) (sl_SendData (Some 0) (good_input 20) erased_early one_item_logger) = Some True"
    by code_simp
  then obtain e sl' where "sl_SendData (Some 0) (good_input 20) erased_early one_item_logger = Some (Inl e, sl')"
    by (auto simp: isl_def)
  ultimately show ?thesis
    using call_is_SendData [of one_item_logger 0 erased_early "good_input 20" 1] erased_early_lawful
    by (auto simp del: system_run.simps)
qed

text \<open>How many steps a call has left.\<close>

fun call_rank :: "call_pc \<Rightarrow> nat" where
  "call_rank (C_Have p) = 5"
| "call_rank (C_Lookup t) = 4"
| "call_rank (C_Fetch t) = 3"
| "call_rank (C_Sending tag s) = 2"
| "call_rank C_Count = 1"
| "call_rank (C_Failed t) = 1"
| "call_rank C_Null_Deref = 0"
| "call_rank (C_Done b) = 0"

lemma on_error_rank: "call_rank (on_error tag) < 2"
  by (simp add: on_error_def split: option.split)

lemma call_GetData_rank: "call_rank (fst (call_GetData tag p sh)) < 3"
  using on_error_rank [of tag] by (auto simp: call_GetData_def split: prod.split sum.split)

lemma call_Add_rank: "call_rank (fst (call_Add now p m sh)) < 5"
  by (simp add: call_Add_def Let_def split: sum.split)

lemma call_step_rank:
  assumes "\<forall>b. pc \<noteq> C_Done b" "pc \<noteq> C_Null_Deref" "\<forall>tag s. pc = C_Sending tag s \<longrightarrow> client_Send s inp sh \<noteq> None"
  shows "call_rank (fst (call_step inp (pc, sh))) < call_rank pc"
proof (cases pc)
  case (C_Have p)
  with call_GetData_rank [of None p sh] call_Add_rank [of "in_now inp p" p _ sh] show ?thesis
    by (auto split: option.split)
next
  case (C_Fetch t)
  with call_GetData_rank [of "Some t" _ sh] show ?thesis by (auto split: sum.split option.split)
next
  case (C_Sending tag s)
  with assms(3) on_error_rank [of tag] show ?thesis by (auto split: sum.split)
qed (use assms in \<open>auto split: sum.split\<close>)

text \<open>
  C26: a call ends. Each step a call takes brings it nearer to its end, which is at most five
  steps from its start, as long as the call of \<open>Send\<close> it is in returns; the other threads do
  not move it.
\<close>

theorem call_makes_progress:
  assumes "ss_reachable ss" "i < length (ss_calls ss)" "\<not> call_over (ss_calls ss ! i)"
    "\<forall>tag s. snd (ss_calls ss ! i) = C_Sending tag s \<longrightarrow> client_Send s inp (ss_shared ss) \<noteq> None"
  shows "call_rank (snd (ss_calls (call_move i inp ss) ! i)) < call_rank (snd (ss_calls ss ! i))
    \<and> call_rank (snd (ss_calls ss ! i)) \<le> 5"
proof -
  obtain v pc where vpc: "ss_calls ss ! i = (v, pc)" by fastforce
  have "call_ok (ss_shared ss) (v, pc)"
    using ss_reachable_ok [OF assms(1)] assms(2) vpc unfolding ss_ok_def calls_ok_def by (metis nth_mem)
  then have "pc \<noteq> C_Null_Deref" by (cases v) auto
  moreover have "\<forall>b. pc \<noteq> C_Done b" using assms(3) vpc by (simp add: call_over_def)
  ultimately have "call_rank (fst (call_step inp (pc, ss_shared ss))) < call_rank pc"
    using call_step_rank assms(4) vpc by simp
  moreover have "call_rank pc \<le> 5" by (cases pc) simp_all
  ultimately show ?thesis using assms(2) vpc by (simp add: call_move_def Let_def split_beta)
qed

theorem call_makes_progress_witness:
  "call_rank (snd (ss_calls (call_move 0 (good_input 20) (call_begin 0 ''s'' ''D'' sample_system)) ! 0)) < 5"
proof -
  let ?ss = "call_begin 0 ''s'' ''D'' sample_system"
  have "map snd (ss_calls ?ss) = [C_Have 0]" by code_simp
  moreover from this have "length (ss_calls ?ss) = 1" by (metis length_map length_Cons list.size(3) One_nat_def)
  ultimately have e: "0 < length (ss_calls ?ss)" "snd (ss_calls ?ss ! 0) = C_Have 0" by (auto simp: Cons_eq_map_conv)
  with call_makes_progress [OF ss_reachable.step [OF sample_system_reachable sample_begin], of 0 "good_input 20"]
  show ?thesis by (simp add: call_over_def)
qed

text \<open>
  A call that returned false may all the same have been sent and acknowledged: after \<open>Add\<close> the
  resender sends the item, the reader forgets it on its acknowledgement, and the lookup throws.
  The state is reachable; a caller that retries, as its comment expects, sends the event twice.
\<close>

definition resender_move :: "thread_input \<Rightarrow> socket_system \<Rightarrow> socket_system" where
  "resender_move inp ss = ss\<lparr>ss_logger := sl_resender_thread inp (ss_logger ss)\<rparr>"

definition reader_move :: "poll_res list \<Rightarrow> read_sys list \<Rightarrow> socket_system \<Rightarrow> socket_system" where
  "reader_move polls reads ss = ss\<lparr>ss_logger := sl_reader_thread False False polls reads (ss_logger ss)\<rparr>"

definition sent_not_acked :: socket_system where
  "sent_not_acked = fold resender_move (replicate 8 (good_input 20))
     (call_move 0 (good_input 20) (call_begin 0 ''s'' ''D'' sample_system))"

definition sent_then_false :: socket_system where
  "sent_then_false = call_move 0 (good_input 20)
     (reader_move [] [] (reader_move [Poll_Ok POLLIN 0] [Read_Ok (''1:0'' @ [newline])] sent_not_acked))"

lemma good_input_sees [simp]: "sees_flag (good_input n) sh"
  by (auto simp: sees_flag_def good_input_def accepting_def)

lemma started_resender [simp]: "sl_started (ss_logger (resender_move inp ss)) = sl_started (ss_logger ss)"
  by (simp add: resender_move_def sl_resender_thread_def split: option.split prod.split)

lemma resender_moves_reachable:
  "ss_reachable ss \<Longrightarrow> sl_started (ss_logger ss) \<Longrightarrow>
   ss_reachable (fold resender_move (replicate n (good_input k)) ss)
   \<and> sl_started (ss_logger (fold resender_move (replicate n (good_input k)) ss))"
proof (induction n arbitrary: ss)
  case (Suc n)
  have "ss_reachable (resender_move (good_input k) ss)"
    unfolding resender_move_def by (rule ss_reachable.step [OF Suc.prems(1) ss_step.resender]) (use Suc.prems in simp_all)
  then show ?case using Suc.IH [of "resender_move (good_input k) ss"] Suc.prems(2) by (simp del: fold_replicate)
qed simp

lemma reader_move_reachable:
  "ss_reachable ss \<Longrightarrow> sl_started (ss_logger ss) \<Longrightarrow> ss_reachable (reader_move polls reads ss)"
  unfolding reader_move_def by (rule ss_reachable.step [OF _ ss_step.reader]) simp_all

lemma started_reader [simp]: "sl_started (ss_logger (reader_move polls reads ss)) = sl_started (ss_logger ss)"
  by (simp add: reader_move_def sl_reader_thread_def split: prod.split)

theorem false_though_sent_reachable:
  "ss_reachable sent_then_false \<and> map snd (ss_calls sent_then_false) = [C_Done False]
   \<and> wire (ss_shared sent_then_false) = [item_frame sample_item] \<and> dataCache (ss_shared sent_then_false) = Some []"
proof -
  let ?added = "call_move 0 (good_input 20) (call_begin 0 ''s'' ''D'' sample_system)"
  let ?read = "reader_move [Poll_Ok POLLIN 0] [Read_Ok (''1:0'' @ [newline])] sent_not_acked"
  let ?acked = "reader_move [] [] ?read"
  have l: "length (ss_calls (call_begin 0 ''s'' ''D'' sample_system)) = 1" "sl_started (ss_logger ?added)" "length (ss_calls ?acked) = 1"
    by code_simp+
  have "ss_reachable ?added"
    by (rule ss_reachable.step [OF ss_reachable.step [OF sample_system_reachable sample_begin]])
       (rule ss_step.move, use l(1) good_input_sees in simp_all)
  from resender_moves_reachable [OF this l(2), of 8 20]
  have "ss_reachable sent_not_acked" "sl_started (ss_logger sent_not_acked)"
    unfolding sent_not_acked_def by simp_all
  then have "ss_reachable ?acked"
    by (intro reader_move_reachable) simp_all
  then have "ss_reachable sent_then_false"
    unfolding sent_then_false_def by (rule ss_reachable.step [OF _ ss_step.move]) (use l(3) good_input_sees in simp_all)
  moreover have "map snd (ss_calls sent_then_false) = [C_Done False]" "wire (ss_shared sent_then_false) = [item_frame sample_item]"
    "dataCache (ss_shared sent_then_false) = Some []"
    by code_simp+
  ultimately show ?thesis by simp
qed

end
