(* ===== verification/Json_Text.thy ===== *)
theory Json_Text
  imports Mdsd_Prelude
begin

text \<open>
  The JSON that mdsd messages are made of: words (numbers, \<open>true\<close>, \<open>false\<close>), strings and
  arrays, without spaces. \<open>print_json\<close> writes a value with the escapes of Ruby's
  \<open>JSON.generate\<close>; \<open>parse_json\<close> is the receiver's side, the JSON grammar restricted to these
  values. The round trip \<open>parse_print\<close> is what the message theorems rest on.
\<close>

section \<open>Characters\<close>

abbreviation backslash :: char where "backslash \<equiv> CHR 0x5C"

definition control :: "char \<Rightarrow> bool" where
  "control c \<longleftrightarrow> (of_char c :: nat) < 32"

definition word_char :: "char \<Rightarrow> bool" where
  "word_char c \<longleftrightarrow>
     is_digit c \<or> c \<in> set ''+-.abcdefghijklmnopqrstuvwxyzABCDEFGHIJKLMNOPQRSTUVWXYZ''"

definition hex_digits :: string where
  "hex_digits = ''0123456789abcdef''"

definition hex_digit :: "nat \<Rightarrow> char" where
  "hex_digit d = hex_digits ! d"

definition hex_val :: "char \<Rightarrow> nat option" where
  "hex_val c = find_char c hex_digits"

lemma hex_val_digit: "d < 16 \<Longrightarrow> hex_val (hex_digit d) = Some d"
proof -
  have "\<forall>d \<in> set [0..<16]. hex_val (hex_digit d) = Some d" by code_simp
  then show "d < 16 \<Longrightarrow> hex_val (hex_digit d) = Some d" by simp
qed

section \<open>Strings\<close>

text \<open>The escapes \<open>JSON.generate\<close> uses, and with the slash those a reader accepts.\<close>

definition short_escapes :: "(char \<times> char) list" where
  "short_escapes =
     [(dquote, dquote), (backslash, backslash), (newline, CHR ''n''), (CHR 0x0D, CHR ''r''),
      (CHR 0x09, CHR ''t''), (CHR 0x0C, CHR ''f''), (CHR 0x08, CHR ''b'')]"

definition escape_char :: "char \<Rightarrow> string" where
  "escape_char c =
     (case map_of short_escapes c of
        Some e \<Rightarrow> [backslash, e]
      | None \<Rightarrow>
          if control c
          then [backslash, CHR ''u'', CHR ''0'', CHR ''0'',
                hex_digit (of_char c div 16), hex_digit (of_char c mod 16)]
          else [c])"

definition print_string :: "string \<Rightarrow> string" where
  "print_string s = dquote # concat (map escape_char s) @ [dquote]"

definition read_escape :: "string \<Rightarrow> (char \<times> string) option" where
  "read_escape cs =
     (case cs of
        [] \<Rightarrow> None
      | e # r \<Rightarrow>
          if e = CHR ''u''
          then (case r of
                  h1 # h2 # h3 # h4 # r' \<Rightarrow>
                    (case those (map hex_val [h1, h2, h3, h4]) of
                       None \<Rightarrow> None
                     | Some ds \<Rightarrow>
                         (let n = foldl (\<lambda>a d. 16 * a + d) 0 ds
                          in if n < 128 then Some (char_of n, r') else None))
                | _ \<Rightarrow> None)
          else if e = CHR ''/'' then Some (e, r)
          else map_option (\<lambda>c. (c, r)) (map_of (map prod.swap short_escapes) e))"

text \<open>One character of a string, written as itself or escaped; \<open>None\<close> at its end.\<close>

definition read_char :: "string \<Rightarrow> (char \<times> string) option" where
  "read_char s =
     (case s of
        [] \<Rightarrow> None
      | c # cs \<Rightarrow>
          if c = dquote \<or> control c then None
          else if c = backslash then read_escape cs
          else Some (c, cs))"

lemma read_char_progress: "read_char s = Some (c, r) \<Longrightarrow> length r < length s"
  by (auto simp: read_char_def read_escape_def Let_def split: list.splits if_splits option.splits)

function read_string :: "string \<Rightarrow> (string \<times> string) option" where
  "read_string s =
     (case s of
        [] \<Rightarrow> None
      | c # cs \<Rightarrow>
          if c = dquote then Some ([], cs)
          else (case read_char s of
                  None \<Rightarrow> None
                | Some (x, r) \<Rightarrow> map_option (\<lambda>(t, r'). (x # t, r')) (read_string r)))"
  by pat_completeness auto
termination
  by (relation "measure length") (auto dest: read_char_progress)

declare read_string.simps [simp del]

lemma read_escaped: "read_char (escape_char c @ r) = Some (c, r)"
proof (cases "map_of short_escapes c")
  case (Some e)
  then show ?thesis
    by (auto simp: escape_char_def short_escapes_def read_char_def read_escape_def control_def split: if_splits)
next
  case None
  then have c: "c \<noteq> dquote" "c \<noteq> backslash" by (auto simp: short_escapes_def split: if_splits)
  show ?thesis
  proof (cases "control c")
    case True
    then have n: "(of_char c :: nat) < 32" by (simp add: control_def)
    have "hex_val CHR ''0'' = Some 0" by code_simp
    moreover have "16 * (of_char c div 16) + of_char c mod 16 = (of_char c :: nat)" by simp
    ultimately show ?thesis
      using None True n
      by (simp add: escape_char_def read_char_def read_escape_def control_def hex_val_digit)
  qed (use None c in \<open>simp add: escape_char_def read_char_def\<close>)
qed

lemma escape_char_start: "\<exists>x xs. escape_char c = x # xs \<and> x \<noteq> dquote"
  by (auto simp: escape_char_def short_escapes_def split: option.split)

lemma read_print_string: "read_string (concat (map escape_char s) @ dquote # r) = Some (s, r)"
proof (induction s)
  case Nil
  then show ?case by (simp add: read_string.simps)
next
  case (Cons c s)
  obtain x xs where x: "escape_char c = x # xs" "x \<noteq> dquote" using escape_char_start by blast
  show ?case
    using Cons.IH read_escaped [of c "concat (map escape_char s) @ dquote # r"] x
    by (subst read_string.simps) simp
qed

text \<open>A text that needs no escapes is its own JSON.\<close>

definition clean :: "string \<Rightarrow> bool" where
  "clean s \<longleftrightarrow> list_all (\<lambda>c. c \<noteq> dquote \<and> c \<noteq> backslash \<and> \<not> control c) s"

lemma escape_clean: "clean s \<Longrightarrow> concat (map escape_char s) = s"
  by (induction s) (auto simp: clean_def escape_char_def short_escapes_def control_def)

lemma print_clean: "clean s \<Longrightarrow> print_string s = dquote # s @ [dquote]"
  by (simp add: print_string_def escape_clean)

lemma print_string_no_control: "c \<in> set (print_string s) \<Longrightarrow> \<not> control c"
proof -
  have hex: "\<not> control (hex_digit d)" if "d < 16" for d
  proof -
    have "\<forall>d \<in> set [0..<16]. \<not> control (hex_digit d)" by code_simp
    with that show ?thesis by simp
  qed
  have "\<not> control c" if "c \<in> set (escape_char x)" for x
  proof (cases "map_of short_escapes x = None \<and> control x")
    case True
    then have "(of_char x :: nat) < 32" by (simp add: control_def)
    then have "(of_char x :: nat) div 16 < 16" by arith
    with True that hex [of "of_char x div 16"] hex [of "of_char x mod 16"] show ?thesis
      by (auto simp: escape_char_def) (simp_all add: control_def)
  next
    case False
    with that show ?thesis
      by (auto simp: escape_char_def short_escapes_def control_def split: option.splits if_splits)
  qed
  then show "c \<in> set (print_string s) \<Longrightarrow> \<not> control c"
    by (auto simp: print_string_def control_def)
qed

section \<open>Values\<close>

datatype json =
    J_Word string
  | J_Str string
  | J_Arr "json list"

fun comma_sep :: "string list \<Rightarrow> string" where
  "comma_sep [] = []"
| "comma_sep [x] = x"
| "comma_sep (x # y # ys) = x @ CHR '','' # comma_sep (y # ys)"

fun print_json :: "json \<Rightarrow> string" where
  "print_json (J_Word w) = w"
| "print_json (J_Str s) = print_string s"
| "print_json (J_Arr js) = ''['' @ comma_sep (map print_json js) @ '']''"

fun readable :: "json \<Rightarrow> bool" where
  "readable (J_Word w) = (w \<noteq> [] \<and> list_all word_char w)"
| "readable (J_Str s) = True"
| "readable (J_Arr js) = list_all readable js"

text \<open>
  The reader. Its first argument bounds the nesting of the calls; \<open>parse_json\<close> supplies the
  length of the text, which is always enough (\<open>parse_print\<close>).
\<close>

fun parse_value :: "nat \<Rightarrow> string \<Rightarrow> (json \<times> string) option"
  and parse_items :: "nat \<Rightarrow> string \<Rightarrow> (json list \<times> string) option" where
  "parse_value 0 s = None"
| "parse_value (Suc n) s =
     (case s of
        [] \<Rightarrow> None
      | c # cs \<Rightarrow>
          if c = dquote then map_option (\<lambda>(t, r). (J_Str t, r)) (read_string cs)
          else if c = CHR ''[''
          then (if cs \<noteq> [] \<and> hd cs = CHR '']'' then Some (J_Arr [], tl cs)
                else map_option (\<lambda>(js, r). (J_Arr js, r)) (parse_items n cs))
          else (let w = takeWhile word_char s
                in if w = [] then None else Some (J_Word w, drop (length w) s)))"
| "parse_items 0 s = None"
| "parse_items (Suc n) s =
     (case parse_value n s of
        None \<Rightarrow> None
      | Some (j, r) \<Rightarrow>
          if r = [] then None
          else if hd r = CHR '','' then map_option (\<lambda>(js, r'). (j # js, r')) (parse_items n (tl r))
          else if hd r = CHR '']'' then Some ([j], tl r)
          else None)"

definition parse_json :: "string \<Rightarrow> (json \<times> string) option" where
  "parse_json s = parse_value (length s) s"

section \<open>The round trip\<close>

text \<open>The nesting a value needs, and the texts that can follow it.\<close>

fun need_items :: "nat list \<Rightarrow> nat" where
  "need_items [] = 0"
| "need_items (n # ns) = Suc (max n (need_items ns))"

fun need :: "json \<Rightarrow> nat" where
  "need (J_Arr js) = Suc (need_items (map need js))"
| "need _ = 1"

definition ends_word :: "string \<Rightarrow> bool" where
  "ends_word r \<longleftrightarrow> r = [] \<or> \<not> word_char (hd r)"

lemma separators_not_word [simp]:
  "\<not> word_char CHR '',''" "\<not> word_char CHR '']''" "\<not> word_char CHR ''[''" "\<not> word_char dquote"
  by (simp_all add: word_char_def is_digit_def)

lemma takeWhile_word: "list_all word_char w \<Longrightarrow> ends_word r \<Longrightarrow> takeWhile word_char (w @ r) = w"
  by (cases r) (auto simp: ends_word_def list_all_iff takeWhile_tail)

lemma print_start: "readable j \<Longrightarrow> \<exists>c cs. print_json j = c # cs \<and> c \<noteq> CHR '']''"
  by (cases j) (auto simp: print_string_def neq_Nil_conv)

lemma comma_sep_Cons: "ys \<noteq> [] \<Longrightarrow> comma_sep (x # ys) = x @ CHR '','' # comma_sep ys"
  by (cases ys) auto

lemma items_start:
  "js \<noteq> [] \<Longrightarrow> list_all readable js \<Longrightarrow> \<exists>c cs. comma_sep (map print_json js) = c # cs \<and> c \<noteq> CHR '']''"
  using print_start [of "hd js"] by (cases js rule: list.exhaust; cases "tl js") (auto simp: comma_sep_Cons)

lemma parse_print_fuel:
  "(readable j \<and> need j \<le> n \<and> ends_word r \<longrightarrow> parse_value n (print_json j @ r) = Some (j, r))
   \<and> (js \<noteq> [] \<and> list_all readable js \<and> need_items (map need js) \<le> n \<longrightarrow>
        parse_items n (comma_sep (map print_json js) @ CHR '']'' # r) = Some (js, r))"
proof (induction n arbitrary: j js r)
  case 0
  then show ?case by (cases j; cases js) auto
next
  case (Suc n)
  have items: "parse_items (Suc n) (comma_sep (map print_json js) @ CHR '']'' # r) = Some (js, r)"
    if js: "js \<noteq> []" "list_all readable js" "need_items (map need js) \<le> Suc n"
  proof -
    obtain x xs where x: "js = x # xs" using js(1) by (cases js) auto
    show ?thesis
    proof (cases "xs = []")
      case True
      have "parse_value n (print_json x @ CHR '']'' # r) = Some (x, CHR '']'' # r)"
        using Suc.IH [of x "CHR '']'' # r"] js x by (simp add: ends_word_def)
      with x True show ?thesis by simp
    next
      case False
      let ?rest = "CHR '','' # comma_sep (map print_json xs) @ CHR '']'' # r"
      have "parse_value n (print_json x @ ?rest) = Some (x, ?rest)"
        using Suc.IH [of x ?rest] js x by (simp add: ends_word_def)
      moreover have "parse_items n (comma_sep (map print_json xs) @ CHR '']'' # r) = Some (xs, r)"
        using Suc.IH [of _ r xs] js x False by simp
      ultimately show ?thesis using x False by (simp add: comma_sep_Cons)
    qed
  qed
  have "parse_value (Suc n) (print_json j @ r) = Some (j, r)"
    if j: "readable j" "need j \<le> Suc n" "ends_word r"
  proof (cases j)
    case (J_Word w)
    with j have "takeWhile word_char (w @ r) = w" by (simp add: takeWhile_word)
    moreover obtain c cs where c: "w = c # cs" "word_char c" using j J_Word by (cases w) auto
    moreover have "c \<noteq> dquote" "c \<noteq> CHR ''[''" using c(2) by auto
    ultimately show ?thesis using J_Word by (simp add: Let_def)
  next
    case (J_Str s)
    then show ?thesis by (simp add: print_string_def read_print_string)
  next
    case (J_Arr js')
    show ?thesis
    proof (cases "js' = []")
      case False
      obtain c cs where c: "comma_sep (map print_json js') = c # cs" "c \<noteq> CHR '']''"
        using items_start [of js'] False j J_Arr by auto
      have "parse_items n (comma_sep (map print_json js') @ CHR '']'' # r) = Some (js', r)"
        using Suc.IH [of _ r js'] False j J_Arr by simp
      with J_Arr c show ?thesis by simp
    qed (use J_Arr in simp)
  qed
  with items show ?case by blast
qed

lemma need_length: "readable j \<Longrightarrow> need j \<le> length (print_json j)"
proof (induction j)
  case (J_Arr js)
  have "list_all readable js \<Longrightarrow> (\<And>j. j \<in> set js \<Longrightarrow> need j \<le> length (print_json j)) \<Longrightarrow>
      need_items (map need js) \<le> Suc (length (comma_sep (map print_json js)))" for js
  proof (induction js)
    case (Cons j js)
    then have "need j \<le> length (print_json j)"
      "need_items (map need js) \<le> Suc (length (comma_sep (map print_json js)))" by auto
    then show ?case by (cases "js = []") (auto simp: comma_sep_Cons)
  qed simp
  from this [of js] J_Arr show ?case by (auto simp: list_all_iff)
qed (auto simp: print_string_def Suc_le_eq)

text \<open>Reading back what was printed, with anything behind it that does not continue a word.\<close>

lemma parse_print: "readable j \<Longrightarrow> ends_word r \<Longrightarrow> parse_json (print_json j @ r) = Some (j, r)"
  using parse_print_fuel [of j "length (print_json j @ r)" r] need_length [of j]
  by (simp add: parse_json_def)

lemma parse_print_all: "readable j \<Longrightarrow> parse_json (print_json j) = Some (j, [])"
  using parse_print [of j "[]"] by (simp add: ends_word_def)

text \<open>No control characters, in particular neither NUL nor newline, are ever printed.\<close>

lemma comma_sep_set: "c \<in> set (comma_sep xs) \<Longrightarrow> c = CHR '','' \<or> (\<exists>x \<in> set xs. c \<in> set x)"
  by (induction xs rule: comma_sep.induct) auto

lemma word_char_no_control: "word_char c \<Longrightarrow> \<not> control c"
  by (auto simp: word_char_def is_digit_def control_def)

lemma print_json_no_control: "readable j \<Longrightarrow> c \<in> set (print_json j) \<Longrightarrow> \<not> control c"
proof (induction j)
  case (J_Word w)
  then show ?case by (auto simp: list_all_iff dest: word_char_no_control)
next
  case (J_Arr js)
  then have "c = CHR ''['' \<or> c = CHR '']'' \<or> c = CHR '','' \<or> (\<exists>j \<in> set js. c \<in> set (print_json j))"
    using comma_sep_set [of c "map print_json js"] by auto
  with J_Arr show ?case by (auto simp: control_def list_all_iff)
qed (use print_string_no_control in auto)

section \<open>Numbers\<close>

definition read_nat :: "string \<Rightarrow> nat option" where
  "read_nat w = (if w \<noteq> [] \<and> list_all is_digit w then Some (dec_val w) else None)"

definition read_int :: "string \<Rightarrow> int option" where
  "read_int w =
     (if w \<noteq> [] \<and> hd w = CHR ''-'' then map_option (\<lambda>n. - int n) (read_nat (tl w))
      else map_option int (read_nat w))"

lemma read_nat_to_string [simp]: "read_nat (to_string n) = Some n"
  by (simp add: read_nat_def to_string_digits dec_val_to_string)

lemma read_int_to_string_int [simp]: "read_int (to_string_int i) = Some i"
proof (cases "i < 0")
  case False
  have "hd (to_string (nat i)) \<noteq> CHR ''-''"
    using to_string_digits [of "nat i"] by (cases "to_string (nat i)") (auto simp: is_digit_def)
  with False show ?thesis by (simp add: read_int_def to_string_int_def)
qed (simp add: read_int_def to_string_int_def)

lemma word_to_string: "to_string n \<noteq> [] \<and> list_all word_char (to_string n)"
  using to_string_digits [of n] by (auto simp: list_all_iff word_char_def)

lemma word_to_string_int: "to_string_int i \<noteq> [] \<and> list_all word_char (to_string_int i)"
  using word_to_string by (simp add: to_string_int_def) (simp add: word_char_def)

end
