(* ===== verification/Djson_Message.thy ===== *)
theory Djson_Message
  imports Djson_Item Json_Text
begin

text \<open>
  The messages of \<open>Djson_Item\<close> as JSON. The class comment of \<open>DjsonLogItem.h\<close> promises an
  array of source, message id, schema id, schema array and data array; here the composed
  text is parsed back into that structure, and every value is shown to have the type its
  schema column names.
\<close>

section \<open>What a field means\<close>

fun value_type :: "add_value \<Rightarrow> string" where
  "value_type (VBool b) = ''FT_BOOL''"
| "value_type (VInt32 v) = ''FT_INT32''"
| "value_type (VUInt32 v) = ''FT_INT64''"
| "value_type (VInt64 v) = ''FT_INT64''"
| "value_type (VDouble txt) = ''FT_DOUBLE''"
| "value_type (VTime secs nsecs) = ''FT_TIME''"
| "value_type (VCStr p) = ''FT_STRING''"
| "value_type (VString s) = ''FT_STRING''"

fun value_json :: "add_value \<Rightarrow> json" where
  "value_json (VBool b) = J_Word (if b then ''true'' else ''false'')"
| "value_json (VInt32 v) = J_Word (to_string_int (sint v))"
| "value_json (VUInt32 v) = J_Word (to_string (unat v))"
| "value_json (VInt64 v) = J_Word (to_string_int (sint v))"
| "value_json (VDouble txt) = J_Word txt"
| "value_json (VTime secs nsecs) = J_Arr [J_Word (to_string (unat secs)), J_Word (to_string (unat nsecs))]"
| "value_json (VCStr p) = J_Str (case p of None \<Rightarrow> [] | Some s \<Rightarrow> c_str s)"
| "value_json (VString s) = J_Str s"

text \<open>
  \<open>AddData\<close> does not escape: the text of a string field must need no escapes. A double is
  printed as a word.
\<close>

fun clean_value :: "add_value \<Rightarrow> bool" where
  "clean_value (VDouble txt) = (txt \<noteq> [] \<and> list_all word_char txt)"
| "clean_value (VCStr p) = (case p of None \<Rightarrow> False | Some s \<Rightarrow> clean (c_str s))"
| "clean_value (VString s) = clean s"
| "clean_value _ = True"

text \<open>Whether a value is of a column's type.\<close>

definition int_between :: "int \<Rightarrow> int \<Rightarrow> json \<Rightarrow> bool" where
  "int_between lo hi j =
     (case j of
        J_Word w \<Rightarrow> (case read_int w of None \<Rightarrow> False | Some i \<Rightarrow> lo \<le> i \<and> i < hi)
      | _ \<Rightarrow> False)"

definition has_type :: "string \<Rightarrow> json \<Rightarrow> bool" where
  "has_type t j \<longleftrightarrow>
     (if t = ''FT_BOOL'' then j \<in> {J_Word ''true'', J_Word ''false''}
      else if t = ''FT_INT32'' then int_between (- (2 ^ 31)) (2 ^ 31) j
      else if t = ''FT_INT64'' then int_between (- (2 ^ 63)) (2 ^ 63) j
      else if t = ''FT_DOUBLE'' then (case j of J_Word w \<Rightarrow> True | _ \<Rightarrow> False)
      else if t = ''FT_TIME''
      then (case j of
              J_Arr [secs, nsecs] \<Rightarrow> int_between 0 (2 ^ 64) secs \<and> int_between 0 (2 ^ 32) nsecs
            | _ \<Rightarrow> False)
      else t = ''FT_STRING'' \<and> (case j of J_Str s \<Rightarrow> True | _ \<Rightarrow> False))"

definition typed_field :: "item_info \<Rightarrow> bool" where
  "typed_field i \<longleftrightarrow> (case parse_json (ii_value i) of Some (j, []) \<Rightarrow> has_type (ii_type i) j | _ \<Rightarrow> False)"

fun add_fields :: "(string \<times> add_value) list \<Rightarrow> djson_item \<Rightarrow> djson_item result" where
  "add_fields [] item = Inr item"
| "add_fields ((n, v) # fs) item = (case AddData n v item of Inl e \<Rightarrow> Inl e | Inr item' \<Rightarrow> add_fields fs item')"

section \<open>Lemmas\<close>

lemma read_int_nonneg: "read_int (to_string n) = Some (int n)"
  using read_int_to_string_int [of "int n"] by (simp add: to_string_int_def)

lemma value_readable: "clean_value v \<Longrightarrow> readable (value_json v)"
  using word_to_string word_to_string_int by (cases v) (auto simp: word_char_def)

lemma unat_bounds: "int (unat (v :: 32 word)) < 2 ^ 32" "int (unat (w :: 64 word)) < 2 ^ 64"
proof -
  have "uint v < 2 ^ LENGTH(32)" "uint w < 2 ^ LENGTH(64)" by (rule unsigned_less)+
  then show "int (unat v) < 2 ^ 32" "int (unat w) < 2 ^ 64" by simp_all
qed

lemma sint_bounds:
  "- (2 ^ 31) \<le> sint (v :: 32 word)" "sint v < 2 ^ 31" "- (2 ^ 63) \<le> sint (w :: 64 word)" "sint w < 2 ^ 63"
  using sint_ge [of v] sint_lt [of v] sint_ge [of w] sint_lt [of w] by simp_all

lemma value_has_type: "clean_value v \<Longrightarrow> has_type (value_type v) (value_json v)"
proof (cases v)
  case (VUInt32 w)
  have "(0 :: int) \<le> uint w" by simp
  then have "- (2 ^ 63) \<le> uint w" by (rule order_trans [rotated]) simp
  with unat_bounds(1) [of w] have "- (2 ^ 63) \<le> int (unat w) \<and> int (unat w) < 2 ^ 63"
    by (simp flip: uint_nat)
  with VUInt32 show ?thesis by (simp only: value_json.simps value_type.simps has_type_def int_between_def) (simp add: read_int_nonneg)
next
  case (VTime secs nsecs)
  then show ?thesis using unat_bounds(2) [of secs] unat_bounds(1) [of nsecs]
    by (simp add: has_type_def int_between_def read_int_nonneg)
qed (use sint_bounds in \<open>simp_all add: has_type_def int_between_def\<close>)

lemma AddData_value:
  "clean_value v \<Longrightarrow> AddData n v item = Inr (append_info n (value_type v) (print_json (value_json v)) item)"
  by (cases v) (auto simp: add_string_def print_clean split: option.splits)

definition field_info :: "string \<times> add_value \<Rightarrow> item_info" where
  "field_info f = \<lparr>ii_name = fst f, ii_type = value_type (snd f), ii_value = print_json (value_json (snd f))\<rparr>"

lemma add_fields_svlist:
  "\<forall>f \<in> set fs. clean_value (snd f) \<Longrightarrow>
   add_fields fs item = Inr (item\<lparr>m_svlist := m_svlist item @ map field_info fs\<rparr>)"
  by (induction fs arbitrary: item) (auto simp: AddData_value append_info_def field_info_def)

lemma comma_loop_Cons:
  "comma_loop f (x # xs) = f x @ (if xs = [] then [] else CHR '','' # comma_loop f xs)"
proof (cases "xs = []")
  case False
  have "[0..<length (x # xs)] = 0 # map Suc [0..<length xs]"
    by (simp add: map_Suc_upt upt_conv_Cons del: upt_Suc)
  moreover have "(Suc i \<noteq> length (x # xs) - 1) = (i \<noteq> length xs - 1)" for i
    using False by (cases xs) auto
  ultimately show ?thesis
    using False by (simp add: comma_loop_def o_def)
qed (simp add: comma_loop_def)

lemma comma_loop_sep: "comma_loop f xs = comma_sep (map f xs)"
  by (induction xs) (auto simp: comma_loop_Cons comma_sep_Cons comma_loop_def [of f "[]"])

lemma ComposeDataValue_json:
  "ComposeDataValue (map field_info fs) = print_json (J_Arr (map (\<lambda>f. value_json (snd f)) fs))"
  by (simp add: ComposeDataValue_def comma_loop_sep o_def field_info_def)

definition column_json :: "string \<times> add_value \<Rightarrow> json" where
  "column_json f = J_Arr [J_Str (fst f), J_Str (value_type (snd f))]"

lemma clean_type: "clean (value_type v)"
  by (cases v) (simp_all add: clean_def control_def)

lemma ComposeSchemaArray_json:
  assumes "\<forall>f \<in> set fs. clean (fst f)"
  shows "ComposeSchemaArray (map field_info fs) = print_json (J_Arr (map column_json fs)) @ '',''"
proof -
  have "[CHR ''['', dquote] @ fst f @ [dquote, CHR '','', dquote] @ value_type (snd f) @ [dquote, CHR '']'']
      = print_json (column_json f)" if "f \<in> set fs" for f
    using assms that by (simp add: column_json_def print_clean clean_type)
  then show ?thesis
    by (simp add: ComposeSchemaArray_def comma_loop_sep o_def field_info_def cong: map_cong)
qed

text \<open>The payload of a message as a JSON value.\<close>

definition message_json :: "string \<Rightarrow> string \<Rightarrow> 64 word \<Rightarrow> (string \<times> add_value) list \<Rightarrow> json" where
  "message_json source tag ident fs =
     J_Arr [J_Str source, J_Word tag, J_Word (to_string (unat ident)),
            J_Arr (map column_json fs), J_Arr (map (\<lambda>f. value_json (snd f)) fs)]"

lemma payload_json:
  assumes "clean source" "\<forall>f \<in> set fs. clean (fst f)"
  shows "djson_payload source tag
      (to_string (unat ident) @ '','' @ ComposeSchemaArray (map field_info fs) @ ComposeDataValue (map field_info fs))
    = print_json (message_json source tag ident fs)"
  using assms
  by (simp add: djson_payload_def message_json_def ComposeDataValue_json ComposeSchemaArray_json print_clean)

lemma message_readable:
  "list_all word_char tag \<Longrightarrow> tag \<noteq> [] \<Longrightarrow> \<forall>f \<in> set fs. clean_value (snd f) \<Longrightarrow>
   readable (message_json source tag ident fs)"
  using word_to_string value_readable by (auto simp: message_json_def column_json_def list_all_iff)

lemma fields_plain:
  "\<forall>f \<in> set fs. CHR ''F'' \<notin> set (fst f) \<Longrightarrow> plain_schema (map field_info fs)"
proof -
  have "value_type v \<in> set ft_types" for v by (cases v) (simp_all add: ft_types_def)
  then show "\<forall>f \<in> set fs. CHR ''F'' \<notin> set (fst f) \<Longrightarrow> plain_schema (map field_info fs)"
    by (auto simp: plain_schema_def field_info_def)
qed

lemma new_item_sel:
  "m_source (fst (new_djson_item now source c)) = source"
  "m_svlist (fst (new_djson_item now source c)) = []"
  "m_djsonData (fst (new_djson_item now source c)) = []"
  "m_schemaAndData (fst (new_djson_item now source c)) = []"
  "GetTag (fst (new_djson_item now source c)) = to_string (unat (c + 1))"
  by (simp_all add: new_djson_item_def new_log_item_def make_djson_item_def GetTag_def Let_def)

lemma composed_message:
  assumes "fs \<noteq> []" "clean source" "schema_cache_ok m"
    and "\<forall>f \<in> set fs. clean (fst f) \<and> CHR ''F'' \<notin> set (fst f) \<and> clean_value (snd f)"
  shows "\<exists>item s item' m' ident p.
    add_fields fs (fst (new_djson_item now source c)) = Inr item
    \<and> GetData item m = Inr (s, item', m')
    \<and> decode_frame s = Some (p, [])
    \<and> parse_json p = Some (message_json source (to_string (unat (c + 1))) ident fs, [])"
proof -
  let ?new = "fst (new_djson_item now source c)"
  let ?item = "?new\<lparr>m_svlist := map field_info fs\<rparr>"
  have "\<forall>f \<in> set fs. clean_value (snd f)" using assms(4) by blast
  from add_fields_svlist [OF this] have add: "add_fields fs ?new = Inr ?item"
    by (simp only: new_item_sel append_Nil)
  have plain: "plain_item ?item"
    using assms(1,4) by (simp add: plain_item_def new_item_sel fields_plain)
  from GetData_plain [OF assms(3) this] obtain ident item' m' where
    get: "GetData ?item m = Inr (item_message ?item ident, item', m')" by blast
  let ?j = "message_json source (to_string (unat (c + 1))) ident fs"
  have tag: "GetTag ?item = to_string (unat (c + 1))"
    using new_item_sel(5) [of now source c] by (simp add: GetTag_def)
  have "item_message ?item ident = djson_frame (print_json ?j)"
    using payload_json [of source fs "to_string (unat (c + 1))" ident] assms(2,4)
    by (simp add: item_message_def tag new_item_sel)
  moreover have "readable ?j"
    using assms(4) word_to_string by (intro message_readable) auto
  ultimately show ?thesis
    using add get djson.dec_enc parse_print_all by (metis)
qed

section \<open>Properties\<close>



text \<open>
  \<open>AddData\<close> keeps, for every field of an item, that its text is one JSON value of the type its
  column names.
\<close>

lemma AddData_typed:
  assumes "list_all typed_field (m_svlist item)" "clean_value v" "AddData n v item = Inr item'"
  shows "list_all typed_field (m_svlist item')"
proof -
  have "parse_json (print_json (value_json v)) = Some (value_json v, [])"
    by (rule parse_print_all [OF value_readable [OF assms(2)]])
  then have "typed_field (field_info (n, v))"
    using value_has_type [OF assms(2)] by (simp add: typed_field_def field_info_def)
  with assms show ?thesis
    by (auto simp: AddData_value append_info_def field_info_def)
qed



text \<open>
  A quote in a string breaks the message. \<open>AddData\<close> puts quotes around a string but does not
  escape it: the one field \<open>x","y\<close> of a one-column schema arrives as two values.
\<close>

theorem unescaped_quote_splits_value:
  "case AddData ''m'' (VString [CHR ''x'', dquote, CHR '','', dquote, CHR ''y'']) (fst (new_djson_item 0 ''s'' 0)) of
     Inl e \<Rightarrow> False
   | Inr item \<Rightarrow> length (m_svlist item) = 1
      \<and> parse_json (ComposeDataValue (m_svlist item)) = Some (J_Arr [J_Str ''x'', J_Str ''y''], [])"
  by code_simp

end
