(* ===== verification/Trace_Log.thy ===== *)
theory Trace_Log
  imports Socket_Client
begin

text \<open>
  \<open>src/src/outmdsd/Trace.h\<close>, \<open>Trace.cc\<close>, \<open>TraceMacros.h\<close>, \<open>FileTracer.cc\<close>,
  \<open>SyslogTracer.cc\<close> and \<open>src/src/outmdsdrb/outmdsd_log.cxx\<close>: the log. The static members
  of \<open>Trace\<close> are the record \<open>trace\<close>; the installed tracer is seen through the texts its
  \<open>WriteLog\<close> is given.
\<close>

section \<open>Levels\<close>

datatype trace_level = Trace | Debug | Info | Warning | Error | Fatal

text \<open>The underlying integer of the \<open>enum class\<close>, by which its values are compared.\<close>

fun level_num :: "trace_level \<Rightarrow> nat" where
  "level_num Trace = 0"
| "level_num Debug = 1"
| "level_num Info = 2"
| "level_num Warning = 3"
| "level_num Error = 4"
| "level_num Fatal = 5"

lemma level_num_inject: "level_num a = level_num b \<longleftrightarrow> a = b"
  by (cases a; cases b) simp_all

instantiation trace_level :: linorder
begin

definition less_eq_trace_level :: "trace_level \<Rightarrow> trace_level \<Rightarrow> bool" where
  "less_eq_trace_level a b \<longleftrightarrow> level_num a \<le> level_num b"

definition less_trace_level :: "trace_level \<Rightarrow> trace_level \<Rightarrow> bool" where
  "less_trace_level a b \<longleftrightarrow> level_num a < level_num b"

instance
  by standard (auto simp: less_eq_trace_level_def less_trace_level_def level_num_inject)

end

definition GetLevelStrTable :: "(trace_level \<times> string) list" where
  "GetLevelStrTable =
     [(Trace, ''trace''), (Debug, ''debug''), (Info, ''info''),
      (Warning, ''warn''), (Error, ''error''), (Fatal, ''fatal'')]"

definition GetStr2LevelTable :: "(string \<times> trace_level) list" where
  "GetStr2LevelTable =
     [(''trace'', Trace), (''debug'', Debug), (''info'', Info),
      (''warn'', Warning), (''error'', Error), (''fatal'', Fatal)]"

definition TraceLevel2Str :: "trace_level \<Rightarrow> string" where
  "TraceLevel2Str level =
     (case map_of GetLevelStrTable level of
        Some s \<Rightarrow> s
      | None \<Rightarrow> ''TraceLevel_'' @ to_string (level_num level))"

definition TraceLevelFromStr :: "string \<Rightarrow> trace_level" where
  "TraceLevelFromStr level =
     (case map_of GetStr2LevelTable level of
        Some l \<Rightarrow> l
      | None \<Rightarrow> Warning)"

section \<open>Writing a line\<close>

record tracer =
  t_file :: string
  t_lines :: "string list"

record trace =
  s_minLevel :: trace_level
  s_logger :: "tracer option"

definition initial_trace :: trace where
  "initial_trace = \<lparr>s_minLevel = Info, s_logger = None\<rparr>"

definition SetTracer :: "tracer option \<Rightarrow> trace \<Rightarrow> unit result \<times> trace" where
  "SetTracer tracerObj st =
     (case tracerObj of
        None \<Rightarrow> (Inl (Invalid_Argument ''SetTracer: TracerObj cannot be NULL''), st)
      | Some t \<Rightarrow> (Inr (), st\<lparr>s_logger := Some t\<rparr>))"

definition SetTraceLevel :: "trace_level \<Rightarrow> trace \<Rightarrow> trace" where
  "SetTraceLevel level st = st\<lparr>s_minLevel := level\<rparr>"

definition GetTraceLevel :: "trace \<Rightarrow> trace_level" where
  "GetTraceLevel st = s_minLevel st"

declare GetTraceLevel_def [simp]

definition SetTraceLevel_str :: "string \<Rightarrow> trace \<Rightarrow> trace" where
  "SetTraceLevel_str level st = SetTraceLevel (TraceLevelFromStr level) st"

definition GetFileBasename :: "string \<Rightarrow> string" where
  "GetFileBasename filepath =
     (case find_last_char CHR ''/'' filepath of
        None \<Rightarrow> filepath
      | Some p \<Rightarrow> drop (p + 1) filepath)"

text \<open>\<open>gmtime_r\<close>'s broken-down time as numbers, and the microseconds of \<open>gettimeofday\<close>.\<close>

record tm =
  tm_year :: nat
  tm_mon :: nat
  tm_mday :: nat
  tm_hour :: nat
  tm_min :: nat
  tm_sec :: nat

definition setw0 :: "nat \<Rightarrow> nat \<Rightarrow> string" where
  "setw0 w n = replicate (w - length (to_string n)) CHR ''0'' @ to_string n"

definition GetTimeNow :: "tm \<times> nat \<Rightarrow> string result" where
  "GetTimeNow now =
     (case now of (zulu, usec) \<Rightarrow>
        let buf = to_string (tm_year zulu) @ ''-'' @ setw0 2 (tm_mon zulu) @ ''-'' @ setw0 2 (tm_mday zulu) @ ''T''
               @ setw0 2 (tm_hour zulu) @ '':'' @ setw0 2 (tm_min zulu) @ '':'' @ setw0 2 (tm_sec zulu)
        in if 128 \<le> length buf then Inl (Runtime_Error ''strftime() failed'')
           else Inr (buf @ ''.'' @ setw0 6 usec @ ''0Z''))"

definition log_line :: "string \<Rightarrow> string \<Rightarrow> string \<Rightarrow> int \<Rightarrow> string \<Rightarrow> string" where
  "log_line now levelStr basename lineNumber msg =
     c_str now @ '': '' @ c_str levelStr @ '' '' @ c_str basename @ '':'' @ to_string_int lineNumber @ '' ''
     @ c_str msg @ [newline]"

text \<open>\<open>snprintf\<close> into a buffer of the given size.\<close>

definition snprintf :: "nat \<Rightarrow> string \<Rightarrow> string" where
  "snprintf n txt = take (n - 1) txt"

text \<open>
  \<open>WriteLog\<close>; \<open>None\<close> is the dereference of the null \<open>s_logger\<close> before \<open>SetTracer\<close>. The text
  handed to the tracer is appended to its lines.
\<close>

definition WriteLog ::
  "trace_level \<Rightarrow> string \<Rightarrow> string \<Rightarrow> int \<Rightarrow> tm \<times> nat \<Rightarrow> trace \<Rightarrow> trace option"
where
  "WriteLog traceLevel msg filename lineNumber now st =
     (if traceLevel < s_minLevel st then Some st
      else case GetTimeNow now of
             Inl e \<Rightarrow> Some st
           | Inr t \<Rightarrow>
               (case s_logger st of
                  None \<Rightarrow> None
                | Some lg \<Rightarrow>
                    Some (st\<lparr>s_logger := Some (lg\<lparr>t_lines := t_lines lg
                      @ [snprintf 1024 (log_line t (TraceLevel2Str traceLevel) (GetFileBasename filename) lineNumber msg)]\<rparr>)\<rparr>)))"

text \<open>The macro \<open>Log\<close>, and the scope objects of \<open>ADD_INFO_TRACE\<close> and its siblings.\<close>

definition Log :: "trace_level \<Rightarrow> string \<Rightarrow> string \<Rightarrow> int \<Rightarrow> tm \<times> nat \<Rightarrow> trace \<Rightarrow> trace option" where
  "Log level message file line now st =
     (if level \<ge> GetTraceLevel st then WriteLog level message file line now st else Some st)"

definition Trace_enter :: "trace_level \<Rightarrow> string \<Rightarrow> string \<Rightarrow> int \<Rightarrow> tm \<times> nat \<Rightarrow> trace \<Rightarrow> trace option" where
  "Trace_enter level func srcFilename lineNumber now st =
     (if level \<ge> s_minLevel st then WriteLog level (''Entering '' @ func) srcFilename lineNumber now st else Some st)"

definition Trace_leave :: "trace_level \<Rightarrow> string \<Rightarrow> string \<Rightarrow> int \<Rightarrow> tm \<times> nat \<Rightarrow> trace \<Rightarrow> trace option" where
  "Trace_leave level func srcFilename lineNumber now st =
     (if level \<ge> s_minLevel st then WriteLog level (''Leaving '' @ func) srcFilename lineNumber now st else Some st)"

section \<open>Tracers\<close>

record file_tracer =
  m_filepath :: string
  m_fd :: nat

text \<open>
  The constructor of \<open>FileTracer\<close>: what \<open>open\<close> answers for a path, with or without \<open>O_CREAT\<close>, is
  given.
\<close>

definition new_file_tracer :: "string \<Rightarrow> bool \<Rightarrow> (string \<Rightarrow> bool \<Rightarrow> sys) \<Rightarrow> file_tracer result" where
  "new_file_tracer filepath createIfNotExists os_open =
     (if filepath = [] then Inl (Invalid_Argument ''FileTracer: invalid empty filepath parameter'')
      else case os_open (c_str filepath) createIfNotExists of
             Sys_Err e \<Rightarrow> Inl (System_Error e (''open '' @ filepath @ '' failed''))
           | Sys_Ok fd \<Rightarrow> Inr \<lparr>m_filepath = filepath, m_fd = fd\<rparr>)"

text \<open>
  \<open>FileTracer::WriteLog\<close> over the answers of \<open>write\<close>: the outcome (\<open>None\<close> while the loop
  goes on) and the bytes written.
\<close>

fun write_loop :: "string \<Rightarrow> string \<Rightarrow> nat \<Rightarrow> sys list \<Rightarrow> unit result option \<times> string" where
  "write_loop path msg bytesleft [] = (if bytesleft = 0 then Some (Inr ()) else None, [])"
| "write_loop path msg bytesleft (r # rs) =
     (if bytesleft = 0 then (Some (Inr ()), [])
      else case r of
             Sys_Err e \<Rightarrow>
               if e \<noteq> EINTR then (Some (Inl (System_Error e (''write() '' @ path @ '' failed''))), [])
               else write_loop path msg bytesleft rs
           | Sys_Ok rtn \<Rightarrow>
               (let (res, more) = write_loop path msg (bytesleft - rtn) rs
                in (res, take rtn (drop (length msg - bytesleft) msg) @ more)))"

definition FileTracer_WriteLog :: "file_tracer \<Rightarrow> string \<Rightarrow> sys list \<Rightarrow> unit result option \<times> string" where
  "FileTracer_WriteLog ft msg rs = write_loop (m_filepath ft) msg (length msg) rs"

text \<open>Syslog priorities (\<open>syslog.h\<close>), and the one a \<open>SyslogTracer\<close> is constructed with.\<close>

definition LOG_CRIT :: int where "LOG_CRIT = 2"
definition LOG_ERR :: int where "LOG_ERR = 3"
definition LOG_WARNING :: int where "LOG_WARNING = 4"
definition LOG_INFO :: int where "LOG_INFO = 6"
definition LOG_DEBUG :: int where "LOG_DEBUG = 7"

definition GetLevelTable :: "(trace_level \<times> int) list" where
  "GetLevelTable =
     [(Trace, LOG_DEBUG), (Debug, LOG_DEBUG), (Info, LOG_INFO),
      (Warning, LOG_WARNING), (Error, LOG_ERR), (Fatal, LOG_CRIT)]"

definition TraceLevel2SyslogLevel :: "trace \<Rightarrow> int" where
  "TraceLevel2SyslogLevel st =
     (case map_of GetLevelTable (GetTraceLevel st) of
        Some l \<Rightarrow> l
      | None \<Rightarrow> LOG_DEBUG)"

record syslog_tracer =
  m_logLevel :: int
  syslog_lines :: "(int \<times> string) list"

definition new_syslog_tracer :: "trace \<Rightarrow> syslog_tracer" where
  "new_syslog_tracer st = \<lparr>m_logLevel = TraceLevel2SyslogLevel st, syslog_lines = []\<rparr>"

definition SyslogTracer_WriteLog :: "string \<Rightarrow> syslog_tracer \<Rightarrow> syslog_tracer" where
  "SyslogTracer_WriteLog msg t = t\<lparr>syslog_lines := syslog_lines t @ [(m_logLevel t, c_str msg)]\<rparr>"

section \<open>The entry points for Ruby\<close>

definition InitLogger :: "string \<Rightarrow> bool \<Rightarrow> (string \<Rightarrow> bool \<Rightarrow> sys) \<Rightarrow> trace \<Rightarrow> unit result \<times> trace" where
  "InitLogger logFilePath createIfNotExists os_open st =
     (case new_file_tracer logFilePath createIfNotExists os_open of
        Inl e \<Rightarrow> (Inl e, st)
      | Inr ft \<Rightarrow> SetTracer (Some \<lparr>t_file = m_filepath ft, t_lines = []\<rparr>) st)"

definition SetLogLevel :: "string \<Rightarrow> trace \<Rightarrow> trace" where
  "SetLogLevel level st = SetTraceLevel_str level st"

section \<open>Lemmas\<close>

text \<open>The guard in the macro repeats that of \<open>WriteLog\<close>.\<close>

lemma Log_WriteLog: "Log level msg file line now st = WriteLog level msg file line now st"
  by (simp add: Log_def WriteLog_def not_le)

lemma write_loop_prefix:
  "bytesleft \<le> length msg \<Longrightarrow> write_loop path msg bytesleft rs = (res, acc) \<Longrightarrow>
     prefix acc (drop (length msg - bytesleft) msg)
     \<and> (res = Some (Inr ()) \<longrightarrow> acc = drop (length msg - bytesleft) msg)
     \<and> (\<forall>e. res = Some (Inl e) \<longrightarrow> (\<exists>n txt. e = System_Error n txt \<and> n \<noteq> EINTR))"
proof (induction rs arbitrary: bytesleft res acc)
  case Nil
  then show ?case by (auto split: if_splits)
next
  case (Cons r rs)
  show ?case
  proof (cases "bytesleft = 0")
    case True
    with Cons.prems show ?thesis by auto
  next
    case False
    show ?thesis
    proof (cases r)
      case (Sys_Ok n)
      let ?d = "drop (length msg - bytesleft) msg"
      obtain more where m: "write_loop path msg (bytesleft - n) rs = (res, more)" "acc = take n ?d @ more"
        using Cons.prems False Sys_Ok by (auto split: prod.splits)
      have "drop (length msg - (bytesleft - n)) msg = drop n ?d"
        using Cons.prems(1) by (cases "n \<le> bytesleft") (simp_all add: add.commute)
      with Cons.IH [OF _ m(1)] Cons.prems(1)
      have ih: "prefix more (drop n ?d)" "res = Some (Inr ()) \<longrightarrow> more = drop n ?d"
        "\<forall>e. res = Some (Inl e) \<longrightarrow> (\<exists>n txt. e = System_Error n txt \<and> n \<noteq> EINTR)" by simp_all
      have "prefix (take n ?d @ more) (take n ?d @ drop n ?d)" using ih(1) by (simp only: same_prefix_prefix)
      then have "prefix acc ?d" unfolding m(2) append_take_drop_id .
      moreover have "acc = ?d" if "res = Some (Inr ())"
        using ih(2) that unfolding m(2) by (metis append_take_drop_id)
      ultimately show ?thesis using ih(3) by blast
    next
      case (Sys_Err e)
      with Cons.prems False Cons.IH [OF Cons.prems(1)] show ?thesis by (auto split: if_splits)
    qed
  qed
qed

fun write_progress :: "sys \<Rightarrow> nat" where
  "write_progress (Sys_Ok n) = (if 0 < n then 1 else 0)"
| "write_progress (Sys_Err e) = 0"

lemma write_loop_returns:
  "\<forall>r\<in>set rs. r = Sys_Err EINTR \<or> (\<exists>n. r = Sys_Ok n) \<Longrightarrow> bytesleft \<le> sum_list (map write_progress rs)
   \<Longrightarrow> fst (write_loop path msg bytesleft rs) = Some (Inr ())"
proof (induction rs arbitrary: bytesleft)
  case (Cons r rs)
  show ?case
  proof (cases r)
    case (Sys_Ok n)
    have "bytesleft - n \<le> sum_list (map write_progress rs)"
      using Cons.prems(2) Sys_Ok by (auto split: if_splits)
    with Cons.IH [of "bytesleft - n"] Cons.prems(1) Sys_Ok show ?thesis by (simp add: split_beta)
  next
    case (Sys_Err e)
    with Cons.IH [of bytesleft] Cons.prems show ?thesis by auto
  qed
qed simp

section \<open>Properties\<close>

text \<open>
  The names of the levels. Every level is recovered from its name, and a text that is not
  a level's name means \<open>Warning\<close>.
\<close>

theorem level_names_roundtrip:
  "TraceLevelFromStr (TraceLevel2Str l) = l
   \<and> (TraceLevel2Str (TraceLevelFromStr s) = s \<or> TraceLevelFromStr s = Warning)"
proof -
  have "TraceLevelFromStr (TraceLevel2Str l) = l"
    by (cases l) (simp_all add: TraceLevel2Str_def TraceLevelFromStr_def GetLevelStrTable_def GetStr2LevelTable_def)
  then show ?thesis
    by (auto simp: TraceLevel2Str_def TraceLevelFromStr_def GetLevelStrTable_def GetStr2LevelTable_def)
qed

text \<open>
  One line per message. With a tracer installed, \<open>Log\<close> adds exactly one line when the
  level is at least the minimum, the composed line cut to 1023 bytes, and none otherwise;
  the minimum level and the earlier lines stay.
\<close>

theorem log_adds_one_line:
  assumes "s_logger st = Some lg" "GetTimeNow now = Inr t"
  shows "\<exists>added. Log level msg file line now st = Some (st\<lparr>s_logger := Some (lg\<lparr>t_lines := t_lines lg @ added\<rparr>)\<rparr>)
    \<and> (if s_minLevel st \<le> level
       then added = [take 1023 (log_line t (TraceLevel2Str level) (GetFileBasename file) line msg)]
       else added = [])"
  using assms by (cases "s_minLevel st \<le> level") (simp_all add: Log_WriteLog WriteLog_def snprintf_def not_le)

definition sample_trace :: trace where
  "sample_trace = snd (InitLogger ''/l'' True (\<lambda>_ _. Sys_Ok 5) initial_trace)"

definition sample_time :: "tm \<times> nat" where
  "sample_time = (\<lparr>tm_year = 2017, tm_mon = 1, tm_mday = 2, tm_hour = 3, tm_min = 4, tm_sec = 5\<rparr>, 6)"

theorem log_adds_one_line_witness:
  "\<exists>added. Log Debug ''m'' ''/a/b.cc'' 7 sample_time sample_trace
     = Some (sample_trace\<lparr>s_logger := Some (\<lparr>t_file = ''/l'', t_lines = [] @ added\<rparr>)\<rparr>) \<and> added = []"
proof -
  have "s_logger sample_trace = Some \<lparr>t_file = ''/l'', t_lines = []\<rparr>" "\<not> s_minLevel sample_trace \<le> Debug"
    "GetTimeNow sample_time = Inr ''2017-01-02T03:04:05.0000060Z''"
    by code_simp+
  with log_adds_one_line [OF this(1,3), of Debug "''m''" "''/a/b.cc''" 7] show ?thesis by simp
qed

text \<open>
  What a \<open>FileTracer\<close> writes. However the kernel splits it, the file has received a
  prefix of the message, all of it when \<open>WriteLog\<close> returns; an interrupted \<open>write\<close> is never
  an error; and when none but interrupted calls fail, as many calls that write something as
  the message has bytes make it return.
\<close>

theorem file_write_exact:
  assumes "FileTracer_WriteLog ft msg rs = (res, written)"
  shows "prefix written msg \<and> (res = Some (Inr ()) \<longrightarrow> written = msg)
    \<and> (\<forall>e. res = Some (Inl e) \<longrightarrow> (\<exists>n txt. e = System_Error n txt \<and> n \<noteq> EINTR))
    \<and> ((\<forall>r\<in>set rs. r = Sys_Err EINTR \<or> (\<exists>n. r = Sys_Ok n)) \<and> length msg \<le> sum_list (map write_progress rs) \<longrightarrow> res = Some (Inr ()))"
proof -
  have l: "write_loop (m_filepath ft) msg (length msg) rs = (res, written)"
    using assms by (simp add: FileTracer_WriteLog_def)
  show ?thesis
    using write_loop_prefix [OF order_refl l] write_loop_returns [of rs "length msg" "m_filepath ft" msg] l by simp
qed

theorem file_write_exact_witness:
  "prefix ''ab'' ''abc'' \<and> (\<exists>n txt. System_Error 28 (''write() '' @ ''/l'' @ '' failed'') = System_Error n txt \<and> n \<noteq> EINTR)"
  using file_write_exact [of "\<lparr>m_filepath = ''/l'', m_fd = 5\<rparr>" "''abc''" "[Sys_Ok 1, Sys_Err EINTR, Sys_Ok 1, Sys_Err 28]"
      "Some (Inl (System_Error 28 (''write() '' @ ''/l'' @ '' failed'')))" "''ab''"]
  by (simp add: FileTracer_WriteLog_def EINTR_def)

end
