(* ===== verification/Plugin_Message.thy ===== *)
theory Plugin_Message
  imports Json_Text
begin

text \<open>
  \<open>src/src/fluent-plugin-mdsd/lib/fluent/plugin/out_mdsd.rb\<close>, first part: the classes
  \<open>SchemaManager\<close> and \<open>MdsdMsgMaker\<close> of the Fluentd output plugin, which turn a record into
  the schema-and-data text of a message. The regular expression engine is the argument
  \<open>rx\<close> (the text of the first match); the texts Ruby's \<open>to_s\<close> and \<open>to_json\<close> give for floats
  and containers are part of the values.
\<close>

section \<open>Ruby values\<close>

text \<open>
  A string is its bytes in UTF-8. An integer's class is \<open>Integer\<close> from Ruby 2.4 on, before
  that one of the other two. The last constructor is any other class, with its name and
  what \<open>to_s\<close> returns; \<open>Rb_Hash\<close> holds what \<open>to_s\<close> and what \<open>to_json\<close> return.
\<close>

datatype int_class = Integer | Fixnum | Bignum

datatype rb_value =
    Rb_True
  | Rb_False
  | Rb_Nil
  | Rb_Integer int_class int
  | Rb_Float string
  | Rb_Time int int
  | Rb_String string
  | Rb_Array string
  | Rb_Hash string string
  | Rb_Range string
  | Rb_Other string string

text \<open>A hash with string keys keeps the order of insertion; assigning to a key keeps its place.\<close>

type_synonym rb_record = "(string \<times> rb_value) list"

definition hash_set :: "string \<Rightarrow> rb_value \<Rightarrow> rb_record \<Rightarrow> rb_record" where
  "hash_set k v r = AList.update k v r"

fun class_name :: "rb_value \<Rightarrow> string" where
  "class_name Rb_True = ''TrueClass''"
| "class_name Rb_False = ''FalseClass''"
| "class_name Rb_Nil = ''NilClass''"
| "class_name (Rb_Integer Integer i) = ''Integer''"
| "class_name (Rb_Integer Fixnum i) = ''Fixnum''"
| "class_name (Rb_Integer Bignum i) = ''Bignum''"
| "class_name (Rb_Float t) = ''Float''"
| "class_name (Rb_Time s n) = ''Time''"
| "class_name (Rb_String s) = ''String''"
| "class_name (Rb_Array t) = ''Array''"
| "class_name (Rb_Hash t j) = ''Hash''"
| "class_name (Rb_Range t) = ''Range''"
| "class_name (Rb_Other c t) = c"

text \<open>
  What is raised: by \<open>JSON.generate\<close>, by \<open>handle_record\<close>, and by an operation that an object of a
  wrong class does not have (\<open>NoMethodError\<close>, \<open>TypeError\<close>).
\<close>

datatype rb_error =
    Generator_Error
  | Send_Failed string
  | Wrong_Class

type_synonym 'a rb_result = "rb_error + 'a"

text \<open>
  UTF-8 as \<open>JSON.generate\<close> checks it (RFC 3629): no overlong forms, surrogates, or code
  points above \<open>10FFFF\<close>.
\<close>

definition continuation :: "char \<Rightarrow> bool" where
  "continuation c \<longleftrightarrow> 128 \<le> (of_char c :: nat) \<and> (of_char c :: nat) < 192"

text \<open>How many continuation bytes follow, and the bounds of the first of them.\<close>

definition utf8_lead :: "nat \<Rightarrow> (nat \<times> nat \<times> nat) option" where
  "utf8_lead b =
     (if b < 128 then Some (0, 128, 192)
      else if 194 \<le> b \<and> b < 224 then Some (1, 128, 192)
      else if b = 224 then Some (2, 160, 192)
      else if b = 237 then Some (2, 128, 160)
      else if 225 \<le> b \<and> b < 240 then Some (2, 128, 192)
      else if b = 240 then Some (3, 144, 192)
      else if 241 \<le> b \<and> b < 244 then Some (3, 128, 192)
      else if b = 244 then Some (3, 128, 144)
      else None)"

fun valid_utf8 :: "string \<Rightarrow> bool" where
  "valid_utf8 [] = True"
| "valid_utf8 (c # cs) =
     (case utf8_lead (of_char c) of
        None \<Rightarrow> False
      | Some (n, lo, hi) \<Rightarrow>
          n \<le> length cs
          \<and> (n = 0 \<or> lo \<le> (of_char (hd cs) :: nat) \<and> (of_char (hd cs) :: nat) < hi)
          \<and> list_all continuation (take n cs)
          \<and> valid_utf8 (drop n cs))"

text \<open>\<open>String#length\<close> counts characters.\<close>

definition rb_length :: "string \<Rightarrow> nat" where
  "rb_length s = length (filter (\<lambda>c. \<not> continuation c) s)"

text \<open>\<open>JSON.generate\<close> of a string (json 2, which accepts a top-level string).\<close>

definition json_generate :: "string \<Rightarrow> string rb_result" where
  "json_generate s = (if valid_utf8 s then Inr (print_string s) else Inl Generator_Error)"

section \<open>\<open>SchemaManager\<close>\<close>

record schema_manager =
  schemaHash :: "(string \<times> (nat \<times> string)) list"
  schema_id :: nat

definition new_schema_manager :: schema_manager where
  "new_schema_manager = \<lparr>schemaHash = [], schema_id = 0\<rparr>"

definition rb2mdsdType :: "(string \<times> string) list" where
  "rb2mdsdType =
     [(''TrueClass'', ''FT_BOOL''),
      (''FalseClass'', ''FT_BOOL''),
      (''Integer'', ''FT_INT64''),
      (''Fixnum'', ''FT_INT64''),
      (''Bignum'', ''FT_INT64''),
      (''Float'', ''FT_DOUBLE''),
      (''Time'', ''FT_TIME''),
      (''String'', ''FT_STRING'')]"

definition mdsd_typestr :: "rb_value \<Rightarrow> string" where
  "mdsd_typestr v = (case map_of rb2mdsdType (class_name v) of None \<Rightarrow> ''FT_STRING'' | Some t \<Rightarrow> t)"

fun schema_key_loop :: "string \<Rightarrow> rb_record \<Rightarrow> string" where
  "schema_key_loop key_str [] = key_str"
| "schema_key_loop key_str ((key, val) # r) =
     schema_key_loop (key_str @ key @ '','' @ class_name val @ '','') r"

definition get_schema_key :: "rb_record \<Rightarrow> string" where
  "get_schema_key r = schema_key_loop [] r"

fun new_schema_loop :: "int \<Rightarrow> string \<Rightarrow> rb_record \<Rightarrow> string" where
  "new_schema_loop time_field_index schema_str [] = schema_str"
| "new_schema_loop time_field_index schema_str ((key, val) # r) =
     new_schema_loop time_field_index
       ((if schema_str = [] then schema_str @ ''['' @ to_string_int time_field_index @ '',''
         else schema_str @ '','')
        @ [CHR ''['', dquote] @ key @ [dquote, CHR '','', dquote] @ mdsd_typestr val @ [dquote, CHR '']'']) r"

definition get_new_schema :: "rb_record \<Rightarrow> string" where
  "get_new_schema r = new_schema_loop (int (length r) - 1) [] r @ '']''"

definition get_new_schema_id :: "schema_manager \<Rightarrow> nat \<times> schema_manager" where
  "get_new_schema_id sm = (schema_id sm + 1, sm\<lparr>schema_id := schema_id sm + 1\<rparr>)"

definition get_schema_info :: "rb_record \<Rightarrow> schema_manager \<Rightarrow> (nat \<times> string) \<times> schema_manager" where
  "get_schema_info r sm =
     (let hashkey = get_schema_key r
      in case map_of (schemaHash sm) hashkey of
           Some v \<Rightarrow> (v, sm)
         | None \<Rightarrow>
             (let (new_schema_id, sm') = get_new_schema_id sm;
                  new_schema = (new_schema_id, get_new_schema r)
              in (new_schema, sm'\<lparr>schemaHash := AList.update hashkey new_schema (schemaHash sm')\<rparr>)))"

definition sm_size :: "schema_manager \<Rightarrow> nat" where
  "sm_size sm = length (schemaHash sm)"

section \<open>\<open>MdsdMsgMaker\<close>\<close>

text \<open>The formatted value; \<open>hashtojson\<close> is the configuration of the maker.\<close>

fun get_value_by_type :: "bool \<Rightarrow> rb_value \<Rightarrow> string rb_result" where
  "get_value_by_type hashtojson (Rb_String s) = json_generate s"
| "get_value_by_type hashtojson (Rb_Array t) = json_generate t"
| "get_value_by_type hashtojson (Rb_Hash t j) = (if hashtojson then json_generate j else json_generate t)"
| "get_value_by_type hashtojson (Rb_Range t) = json_generate t"
| "get_value_by_type hashtojson (Rb_Time s n) =
     Inr (''['' @ to_string_int s @ '','' @ to_string_int n @ '']'')"
| "get_value_by_type hashtojson Rb_Nil = json_generate ''null''"
| "get_value_by_type hashtojson Rb_True = Inr ''true''"
| "get_value_by_type hashtojson Rb_False = Inr ''false''"
| "get_value_by_type hashtojson (Rb_Integer c i) = Inr (to_string_int i)"
| "get_value_by_type hashtojson (Rb_Float t) = Inr t"
| "get_value_by_type hashtojson (Rb_Other c t) = Inr t"

fun record_values_loop :: "bool \<Rightarrow> string \<Rightarrow> rb_record \<Rightarrow> string rb_result" where
  "record_values_loop hashtojson resultStr [] = Inr resultStr"
| "record_values_loop hashtojson resultStr ((key, val) # r) =
     (case get_value_by_type hashtojson val of
        Inl e \<Rightarrow> Inl e
      | Inr s \<Rightarrow> record_values_loop hashtojson ((if resultStr = [] then ''['' else resultStr @ '','') @ s) r)"

definition get_record_values :: "bool \<Rightarrow> rb_record \<Rightarrow> string rb_result" where
  "get_record_values hashtojson r =
     (case record_values_loop hashtojson [] r of Inl e \<Rightarrow> Inl e | Inr s \<Rightarrow> Inr (s @ '']''))"

text \<open>The schema is remembered also when formatting a value raises.\<close>

definition get_schema_value_str :: "bool \<Rightarrow> rb_record \<Rightarrow> schema_manager \<Rightarrow> string rb_result \<times> schema_manager" where
  "get_schema_value_str hashtojson r sm =
     (let (schema_obj, sm') = get_schema_info r sm
      in (case get_record_values hashtojson r of
            Inl e \<Rightarrow> Inl e
          | Inr vals \<Rightarrow> Inr (to_string (fst schema_obj) @ '','' @ snd schema_obj @ '','' @ vals), sm'))"

fun create_mdsd_source :: "(string \<Rightarrow> string \<Rightarrow> string option) \<Rightarrow> string \<Rightarrow> string list \<Rightarrow> string" where
  "create_mdsd_source rx tag [] = tag"
| "create_mdsd_source rx tag (regex # regex_list) =
     (case rx regex tag of
        Some m \<Rightarrow> m
      | None \<Rightarrow> create_mdsd_source rx tag regex_list)"

section \<open>The schema cache\<close>

definition shape :: "rb_record \<Rightarrow> (string \<times> string) list" where
  "shape r = map (\<lambda>(k, v). (k, class_name v)) r"

text \<open>Field and class names without commas: the key can be taken apart again.\<close>

definition key_plain :: "rb_record \<Rightarrow> bool" where
  "key_plain r \<longleftrightarrow> list_all (\<lambda>(k, v). CHR '','' \<notin> set k \<and> CHR '','' \<notin> set (class_name v)) r"

lemma schema_key_loop_concat:
  "schema_key_loop acc r = acc @ concat (map (\<lambda>(k, c). k @ CHR '','' # c @ '','') (shape r))"
  by (induction acc r rule: schema_key_loop.induct) (simp_all add: shape_def)

lemma get_schema_key_shape: "get_schema_key r = concat (map (\<lambda>(k, c). k @ CHR '','' # c @ '','') (shape r))"
  by (simp add: get_schema_key_def schema_key_loop_concat)

lemma plain_key_inject:
  "key_plain r \<Longrightarrow> key_plain r' \<Longrightarrow> get_schema_key r = get_schema_key r' \<longleftrightarrow> shape r = shape r'"
proof (induction r arbitrary: r')
  case Nil
  then show ?case by (cases r') (auto simp: get_schema_key_shape shape_def)
next
  case (Cons f r)
  then show ?case
  proof (cases r')
    case (Cons f' r2)
    let ?key = "\<lambda>r. concat (map (\<lambda>(k, c). k @ CHR '','' # c @ '','') (shape r))"
    have plain: "CHR '','' \<notin> set (fst f)" "CHR '','' \<notin> set (fst f')"
      "CHR '','' \<notin> set (class_name (snd f))" "CHR '','' \<notin> set (class_name (snd f'))"
      "key_plain r" "key_plain r2"
      using Cons.prems Cons by (auto simp: key_plain_def split_beta)
    have "?key (f # r) = fst f @ CHR '','' # (class_name (snd f) @ CHR '','' # ?key r)"
      "?key (f' # r2) = fst f' @ CHR '','' # (class_name (snd f') @ CHR '','' # ?key r2)"
      by (simp_all add: shape_def split_beta)
    then have "?key (f # r) = ?key (f' # r2) \<longleftrightarrow>
        fst f = fst f' \<and> class_name (snd f) = class_name (snd f') \<and> ?key r = ?key r2"
      by (simp only: split_at_first [OF plain(1,2)] split_at_first [OF plain(3,4)])
    then show ?thesis
      using Cons.IH [OF plain(5,6)] Cons by (simp add: get_schema_key_shape) (auto simp: shape_def split_beta)
  qed (auto simp: get_schema_key_shape shape_def split_beta)
qed

text \<open>The schema text depends on the shape only.\<close>

definition shape_type :: "string \<Rightarrow> string" where
  "shape_type c = (case map_of rb2mdsdType c of None \<Rightarrow> ''FT_STRING'' | Some t \<Rightarrow> t)"

definition column_text :: "string \<times> string \<Rightarrow> string" where
  "column_text f = [CHR ''['', dquote] @ fst f @ [dquote, CHR '','', dquote] @ shape_type (snd f) @ [dquote, CHR '']'']"

lemma new_schema_loop_concat:
  "str \<noteq> [] \<Longrightarrow> new_schema_loop i str r = str @ concat (map (\<lambda>f. CHR '','' # column_text f) (shape r))"
  by (induction i str r rule: new_schema_loop.induct)
    (simp_all add: shape_def column_text_def mdsd_typestr_def shape_type_def)

lemma comma_sep_concat: "comma_sep (x # xs) = x @ concat (map (\<lambda>y. CHR '','' # y) xs)"
  by (induction xs arbitrary: x) simp_all

lemma get_new_schema_shape:
  "r \<noteq> [] \<Longrightarrow> get_new_schema r =
     ''['' @ comma_sep (to_string_int (int (length r) - 1) # map column_text (shape r)) @ '']''"
proof (cases r)
  case (Cons f r')
  obtain k v where f: "f = (k, v)" by (cases f)
  have "column_text (k, class_name v) = [CHR ''['', dquote] @ k @ [dquote, CHR '','', dquote] @ mdsd_typestr v @ [dquote, CHR '']'']"
    by (simp add: column_text_def mdsd_typestr_def shape_type_def)
  then show ?thesis
    using Cons f
    by (simp add: get_new_schema_def new_schema_loop_concat comma_sep_concat o_def) (simp add: shape_def)
qed simp

lemma same_schema: "shape r = shape r' \<Longrightarrow> get_new_schema r = get_new_schema r'"
proof (cases "r = []")
  case False
  assume eq: "shape r = shape r'"
  then have len: "length r = length r'" unfolding shape_def by (rule map_eq_imp_length_eq)
  with False have "r' \<noteq> []" by auto
  with eq len False show ?thesis by (simp add: get_new_schema_shape)
qed (simp add: shape_def)

text \<open>
  The invariant of the manager: ids do not exceed the counter, different keys have
  different ids, and every entry is the schema of a record with its key.
\<close>

definition schemas_ok :: "schema_manager \<Rightarrow> bool" where
  "schemas_ok sm \<longleftrightarrow>
     (\<forall>k i s. map_of (schemaHash sm) k = Some (i, s) \<longrightarrow>
        i \<le> schema_id sm \<and> (\<exists>r. key_plain r \<and> get_schema_key r = k \<and> get_new_schema r = s))
     \<and> (\<forall>k k' i s s'. map_of (schemaHash sm) k = Some (i, s) \<and> map_of (schemaHash sm) k' = Some (i, s') \<longrightarrow> k = k')"

lemma schemas_okD:
  assumes "schemas_ok sm" "map_of (schemaHash sm) k = Some (i, s)"
  shows "i \<le> schema_id sm" "\<exists>r. key_plain r \<and> get_schema_key r = k \<and> get_new_schema r = s"
    "map_of (schemaHash sm) k' = Some (i, s') \<Longrightarrow> k = k'"
  using assms unfolding schemas_ok_def by blast+

lemma schemas_ok_new: "schemas_ok new_schema_manager"
  by (simp add: schemas_ok_def new_schema_manager_def)

lemma get_schema_info_cases:
  assumes "get_schema_info r sm = (v, sm')"
  obtains (known) "map_of (schemaHash sm) (get_schema_key r) = Some v" "sm' = sm"
  | (fresh) "map_of (schemaHash sm) (get_schema_key r) = None" "v = (schema_id sm + 1, get_new_schema r)"
      "schema_id sm' = schema_id sm + 1"
      "map_of (schemaHash sm') = (map_of (schemaHash sm))(get_schema_key r \<mapsto> v)"
  using assms that
proof (cases "map_of (schemaHash sm) (get_schema_key r)")
  case None
  then have "v = (schema_id sm + 1, get_new_schema r)"
    "sm' = sm\<lparr>schema_id := schema_id sm + 1, schemaHash := AList.update (get_schema_key r) v (schemaHash sm)\<rparr>"
    using assms by (auto simp: get_schema_info_def get_new_schema_id_def Let_def)
  then show thesis using None by (intro fresh) (simp_all add: update_conv')
next
  case (Some x)
  then show thesis using assms by (intro known) (simp_all add: get_schema_info_def)
qed

lemma get_schema_info_holds: "get_schema_info r sm = (v, sm') \<Longrightarrow> map_of (schemaHash sm') (get_schema_key r) = Some v"
  by (erule get_schema_info_cases) simp_all

lemma get_schema_info_keeps:
  "get_schema_info r sm = (v, sm') \<Longrightarrow> map_of (schemaHash sm) k = Some x \<Longrightarrow> map_of (schemaHash sm') k = Some x"
  by (erule get_schema_info_cases) auto

lemma get_schema_info_ok:
  assumes "schemas_ok sm" "key_plain r" "get_schema_info r sm = (v, sm')"
  shows "schemas_ok sm'" and "snd v = get_new_schema r"
proof -
  have "schemas_ok sm' \<and> snd v = get_new_schema r"
    using assms(3)
  proof (cases rule: get_schema_info_cases)
    case known
    obtain i s where v: "v = (i, s)" by (cases v)
    then obtain r' where r': "key_plain r'" "get_schema_key r' = get_schema_key r" "get_new_schema r' = s"
      using known(1) schemas_okD(2) [OF assms(1)] by blast
    then have "get_new_schema r = s" using plain_key_inject [OF assms(2), of r'] same_schema by metis
    with known v assms(1) show ?thesis by simp
  next
    case fresh
    have "i \<noteq> schema_id sm + 1" if "map_of (schemaHash sm) k = Some (i, s)" for k i s
      using schemas_okD(1) [OF assms(1) that] by simp
    with assms(1,2) fresh show ?thesis
      by (auto simp: schemas_ok_def le_Suc_eq)
  qed
  then show "schemas_ok sm'" and "snd v = get_new_schema r" by simp_all
qed

definition info_run :: "rb_record list \<Rightarrow> schema_manager \<Rightarrow> schema_manager" where
  "info_run rs sm = fold (\<lambda>r sm. snd (get_schema_info r sm)) rs sm"

lemma info_run_ok:
  "schemas_ok sm \<Longrightarrow> \<forall>r \<in> set rs. key_plain r \<Longrightarrow> schemas_ok (info_run rs sm)
   \<and> (\<forall>k x. map_of (schemaHash sm) k = Some x \<longrightarrow> map_of (schemaHash (info_run rs sm)) k = Some x)"
proof (induction rs arbitrary: sm)
  case (Cons r rs)
  obtain v sm' where i: "get_schema_info r sm = (v, sm')" by fastforce
  have "schemas_ok sm'" by (rule get_schema_info_ok(1) [OF Cons.prems(1) _ i]) (use Cons.prems(2) in simp)
  with Cons i get_schema_info_keeps [OF i] show ?case by (simp add: info_run_def)
qed (simp add: info_run_def)

text \<open>
  Schema ids of the plugin. From a new schema manager, whatever records are formatted before,
  between and after, two records are given the same id exactly when they have the same
  field names and classes in the same order, and each is given its own schema text; names
  of fields and classes contain no comma.
\<close>

theorem plugin_schema_ids:
  assumes "\<forall>r \<in> set (rs @ r1 # rs' @ [r2]). key_plain r"
    and "get_schema_info r1 (info_run rs new_schema_manager) = ((i1, s1), sm1)"
    and "get_schema_info r2 (info_run rs' sm1) = ((i2, s2), sm2)"
  shows "(i1 = i2 \<longleftrightarrow> shape r1 = shape r2) \<and> s1 = get_new_schema r1 \<and> s2 = get_new_schema r2"
proof -
  have "schemas_ok (info_run rs new_schema_manager)"
    using info_run_ok [OF schemas_ok_new] assms(1) by simp
  note one = get_schema_info_ok [OF this _ assms(2)]
  have "schemas_ok (info_run rs' sm1)" and keep: "\<And>k x. map_of (schemaHash sm1) k = Some x \<Longrightarrow> map_of (schemaHash (info_run rs' sm1)) k = Some x"
    using info_run_ok one(1) assms(1) by auto
  note two = get_schema_info_ok [OF this(1) _ assms(3)]
  have "map_of (schemaHash sm2) (get_schema_key r1) = Some (i1, s1)"
    using get_schema_info_keeps [OF assms(3) keep] get_schema_info_holds [OF assms(2)] by blast
  moreover have "map_of (schemaHash sm2) (get_schema_key r2) = Some (i2, s2)"
    by (rule get_schema_info_holds [OF assms(3)])
  moreover have "schemas_ok sm2" using two(1) assms(1) by simp
  ultimately have "i1 = i2 \<longleftrightarrow> get_schema_key r1 = get_schema_key r2"
    using schemas_okD(3) by (metis Pair_inject option.inject)
  with plain_key_inject [of r1 r2] one two assms(1) show ?thesis by simp
qed

theorem plugin_schema_ids_witness:
  "\<exists>i1 i2 sm1 sm2. get_schema_info [(''a'', Rb_True)] new_schema_manager = ((i1, get_new_schema [(''a'', Rb_True)]), sm1)
     \<and> get_schema_info [(''a'', Rb_String ''x'')] sm1 = ((i2, get_new_schema [(''a'', Rb_String ''x'')]), sm2) \<and> i1 \<noteq> i2"
proof -
  let ?a = "[(''a'', Rb_True)]" and ?b = "[(''a'', Rb_String ''x'')]"
  let ?sm1 = "snd (get_schema_info ?a new_schema_manager)"
  let ?sm2 = "snd (get_schema_info ?b ?sm1)"
  have get: "get_schema_info ?a (info_run [] new_schema_manager) = ((1, get_new_schema ?a), ?sm1)"
    "get_schema_info ?b (info_run [] ?sm1) = ((2, get_new_schema ?b), ?sm2)"
    by code_simp+
  from plugin_schema_ids [OF _ get] have "1 \<noteq> (2 :: nat)"
    by (simp add: key_plain_def shape_def)
  moreover have "info_run [] sm = sm" for sm by (simp add: info_run_def)
  ultimately show ?thesis using get by metis
qed

section \<open>The text as JSON\<close>

text \<open>What a value means, and the values whose text is one JSON value.\<close>

fun rb_json :: "bool \<Rightarrow> rb_value \<Rightarrow> json" where
  "rb_json hashtojson Rb_True = J_Word ''true''"
| "rb_json hashtojson Rb_False = J_Word ''false''"
| "rb_json hashtojson Rb_Nil = J_Str ''null''"
| "rb_json hashtojson (Rb_Integer c i) = J_Word (to_string_int i)"
| "rb_json hashtojson (Rb_Float t) = J_Word t"
| "rb_json hashtojson (Rb_Time s n) = J_Arr [J_Word (to_string_int s), J_Word (to_string_int n)]"
| "rb_json hashtojson (Rb_String s) = J_Str s"
| "rb_json hashtojson (Rb_Array t) = J_Str t"
| "rb_json hashtojson (Rb_Hash t j) = J_Str (if hashtojson then j else t)"
| "rb_json hashtojson (Rb_Range t) = J_Str t"
| "rb_json hashtojson (Rb_Other c t) = J_Word t"

fun rb_value_ok :: "rb_value \<Rightarrow> bool" where
  "rb_value_ok (Rb_String s) = valid_utf8 s"
| "rb_value_ok (Rb_Array t) = valid_utf8 t"
| "rb_value_ok (Rb_Hash t j) = (valid_utf8 t \<and> valid_utf8 j)"
| "rb_value_ok (Rb_Range t) = valid_utf8 t"
| "rb_value_ok (Rb_Float t) = (t \<noteq> [] \<and> list_all word_char t)"
| "rb_value_ok (Rb_Other c t) = (t \<noteq> [] \<and> list_all word_char t)"
| "rb_value_ok _ = True"

definition record_ok :: "rb_record \<Rightarrow> bool" where
  "record_ok r \<longleftrightarrow> r \<noteq> [] \<and> list_all (\<lambda>(k, v). clean k \<and> CHR '','' \<notin> set k
     \<and> CHR '','' \<notin> set (class_name v) \<and> rb_value_ok v) r"

definition schema_json :: "rb_record \<Rightarrow> json" where
  "schema_json r = J_Arr (J_Word (to_string_int (int (length r) - 1))
     # map (\<lambda>(k, v). J_Arr [J_Str k, J_Str (mdsd_typestr v)]) r)"

definition values_json :: "bool \<Rightarrow> rb_record \<Rightarrow> json" where
  "values_json hashtojson r = J_Arr (map (\<lambda>(k, v). rb_json hashtojson v) r)"

lemma valid_null: "valid_utf8 ''null''"
  by (simp add: utf8_lead_def)

lemma get_value_json: "rb_value_ok v \<Longrightarrow> get_value_by_type h v = Inr (print_json (rb_json h v))"
  using valid_null by (cases v) (simp_all add: json_generate_def)

lemma rb_json_readable: "rb_value_ok v \<Longrightarrow> readable (rb_json h v)"
  using word_to_string_int by (cases v) (simp_all add: word_char_def)

lemma record_values_loop_concat:
  "list_all (\<lambda>(k, v). rb_value_ok v) r \<Longrightarrow> str \<noteq> [] \<Longrightarrow>
   record_values_loop h str r = Inr (str @ concat (map (\<lambda>f. CHR '','' # print_json (rb_json h (snd f))) r))"
  by (induction h str r rule: record_values_loop.induct) (simp_all add: get_value_json)

lemma record_okD:
  assumes "record_ok r"
  shows "r \<noteq> []" "key_plain r" "list_all (\<lambda>(k, v). rb_value_ok v) r" "list_all (\<lambda>(k, v). clean k) r"
  using assms by (auto simp: record_ok_def key_plain_def list_all_iff)

lemma get_record_values_json:
  assumes "record_ok r"
  shows "get_record_values h r = Inr (print_json (values_json h r))"
proof -
  obtain k v r' where r: "r = (k, v) # r'" using record_okD(1) [OF assms] by (cases r) auto
  with record_okD(3) [OF assms] show ?thesis
    by (simp add: get_record_values_def get_value_json record_values_loop_concat values_json_def
        comma_sep_concat o_def split_beta)
qed

lemma get_new_schema_json:
  assumes "record_ok r"
  shows "get_new_schema r = print_json (schema_json r)"
proof -
  have types: "clean (shape_type c)" for c
    by (simp add: shape_type_def rb2mdsdType_def clean_def control_def)
  have "column_text (k, class_name v) = print_json (J_Arr [J_Str k, J_Str (mdsd_typestr v)])"
    if "(k, v) \<in> set r" for k v
    using record_okD(4) [OF assms] that types [of "class_name v"]
    by (auto simp: column_text_def mdsd_typestr_def shape_type_def [symmetric] print_clean list_all_iff)
  then have "map column_text (shape r) = map (\<lambda>(k, v). print_json (J_Arr [J_Str k, J_Str (mdsd_typestr v)])) r"
    by (auto simp: shape_def)
  moreover have "map print_json (map (\<lambda>(k, v). J_Arr [J_Str k, J_Str (mdsd_typestr v)]) r)
      = map (\<lambda>(k, v). print_json (J_Arr [J_Str k, J_Str (mdsd_typestr v)])) r"
    by auto
  ultimately show ?thesis
    using record_okD(1) [OF assms] by (simp add: get_new_schema_shape schema_json_def del: map_map)
qed

lemma schema_readable: "readable (schema_json r)"
  using word_to_string_int by (auto simp: schema_json_def list_all_iff)

lemma values_readable: "record_ok r \<Longrightarrow> readable (values_json h r)"
  by (auto simp: values_json_def record_ok_def list_all_iff intro!: rb_json_readable)

text \<open>The whole text: id, schema, values, as \<open>MdsdMsgMaker\<close> joins them.\<close>

lemma get_schema_value_str_json:
  assumes "schemas_ok sm" "record_ok r"
  shows "\<exists>i sm'. get_schema_value_str h r sm =
      (Inr (to_string i @ '','' @ print_json (schema_json r) @ '','' @ print_json (values_json h r)), sm')
    \<and> schemas_ok sm'"
proof -
  obtain i s sm' where info: "get_schema_info r sm = ((i, s), sm')" by (metis prod.exhaust)
  have "s = print_json (schema_json r)" "schemas_ok sm'"
    using get_schema_info_ok [OF assms(1) record_okD(2) [OF assms(2)] info] get_new_schema_json [OF assms(2)]
    by simp_all
  then show ?thesis
    by (intro exI [of _ i] exI [of _ sm'])
      (simp add: get_schema_value_str_def info get_record_values_json [OF assms(2)])
qed

section \<open>Where it goes wrong\<close>

text \<open>
  A comma in a field name confuses the schema cache. The two fields \<open>a\<close> and \<open>b\<close> and the one
  field named \<open>a,String,b\<close> have the same key, so the second record is sent under the
  schema of the first: two columns for one value.
\<close>

theorem plugin_key_collision:
  "let two = [(''a'', Rb_String ''x''), (''b'', Rb_String ''y'')]; one = [(''a,String,b'', Rb_String ''z'')];
       (first, sm) = get_schema_info two new_schema_manager
   in get_schema_info one sm = (first, sm) \<and> snd first \<noteq> get_new_schema one"
  by code_simp

text \<open>
  The size limit counts characters. A record can pass a limit with up to four times as many
  bytes as the limit says: here the character \<open>U+1F600\<close>, four bytes, has length one.
\<close>

theorem length_counts_characters:
  "valid_utf8 (concat (replicate n [CHR 0xF0, CHR 0x9F, CHR 0x98, CHR 0x80]))
   \<and> rb_length (concat (replicate n [CHR 0xF0, CHR 0x9F, CHR 0x98, CHR 0x80])) = n
   \<and> length (concat (replicate n [CHR 0xF0, CHR 0x9F, CHR 0x98, CHR 0x80])) = 4 * n"
  by (induction n) (simp_all add: rb_length_def continuation_def utf8_lead_def)

text \<open>
  Values of other classes are not quoted. Their column has the type of a string, but their
  text is written as it is, which is no JSON string.
\<close>

theorem other_class_unquoted:
  "mdsd_typestr (Rb_Other ''Symbol'' ''sym'') = ''FT_STRING''
   \<and> get_value_by_type h (Rb_Other ''Symbol'' ''sym'') = Inr ''sym''
   \<and> parse_json ''sym'' = Some (J_Word ''sym'', [])"
  by (simp add: mdsd_typestr_def rb2mdsdType_def) code_simp

end
