(* ===== verification/Mdsd_Plugin.thy ===== *)
theory Mdsd_Plugin
  imports Socket_Logger Djson_Message Trace_Log Plugin_Message
begin

text \<open>
  \<open>src/src/fluent-plugin-mdsd/lib/fluent/plugin/out_mdsd.rb\<close>, second part: the class
  \<open>OutputMdsd\<close>, the caller of \<open>SocketLogger\<close>: its configuration, and the handling of a chunk
  record by record up to \<open>SendDjson\<close>. The chunk is a list of events here; how they are stored in it
  and read from it is in \<open>Plugin_Chunk\<close>.
\<close>

section \<open>\<open>OutputMdsd\<close>\<close>

text \<open>
  The configuration, with the four numbers of the logger as they arrive in C++, and the
  state: the schema manager, the logger, and the counter the logger's items are numbered by.
\<close>

record plugin_conf =
  djsonsocket :: string
  acktimeoutms :: "32 word"
  mdsd_tag_regex_patterns :: "string list"
  resend_interval_ms :: "32 word"
  conn_retry_timeout_ms :: "32 word"
  emit_timestamp_name :: string
  use_source_timestamp :: bool
  max_record_size :: int
  convert_hash_to_json :: bool

record plugin =
  schema_mgr :: schema_manager
  mdsdLogger :: socket_logger
  itemCounter :: counter

definition MDSD_MAX_RECORD_SIZE :: int where
  "MDSD_MAX_RECORD_SIZE = 128 * 1024 - 1"

definition configured_max_record_size :: "plugin_conf \<Rightarrow> int" where
  "configured_max_record_size conf = min (max_record_size conf) MDSD_MAX_RECORD_SIZE"

text \<open>
  \<open>configure\<close>, given Fluentd's log path and log level (a number) and the answers of \<open>open\<close>.
\<close>

definition configure ::
  "plugin_conf \<Rightarrow> string \<Rightarrow> nat \<Rightarrow> (string \<Rightarrow> bool \<Rightarrow> sys) \<Rightarrow> trace \<Rightarrow> counter \<Rightarrow> idmgr \<Rightarrow> plugin result \<times> trace"
where
  "configure conf log_path log_level os_open st c ids =
     (case InitLogger log_path True os_open st of
        (Inl e, st') \<Rightarrow> (Inl e, st')
      | (Inr _, st') \<Rightarrow>
          (let st'' = SetLogLevel (to_string log_level) st'
           in (case new_socket_logger (djsonsocket conf) (acktimeoutms conf) (resend_interval_ms conf)
                      (conn_retry_timeout_ms conf) ids of
                 Inl e \<Rightarrow> Inl e
               | Inr sl \<Rightarrow> Inr \<lparr>schema_mgr = new_schema_manager, mdsdLogger = sl, itemCounter = c\<rparr>, st'')))"

text \<open>What a call of \<open>SendDjson\<close> meets: the clock, the kernel, and the other threads.\<close>

record send_env =
  se_now :: int
  se_input :: thread_input
  se_threads :: interference

text \<open>An event of a decoded chunk, with \<open>Time.now\<close> when it is handled.\<close>

record event =
  ev_tag :: string
  ev_time :: int
  ev_record :: rb_record
  ev_clock :: "int \<times> int"
  ev_send :: send_env

definition record_too_large :: "plugin_conf \<Rightarrow> string \<Rightarrow> bool" where
  "record_too_large conf dataStr \<longleftrightarrow> configured_max_record_size conf < int (rb_length dataStr)"

text \<open>\<open>None\<close> while \<open>SendDjson\<close> has not returned.\<close>

definition handle_record ::
  "(string \<Rightarrow> string \<Rightarrow> string option) \<Rightarrow> plugin_conf \<Rightarrow> send_env \<Rightarrow> string \<Rightarrow> rb_record \<Rightarrow> plugin
   \<Rightarrow> (unit rb_result \<times> plugin) option"
where
  "handle_record rx conf env tag r p =
     (let mdsdSource = create_mdsd_source rx tag (mdsd_tag_regex_patterns conf);
          (msg, sm) = get_schema_value_str (convert_hash_to_json conf) r (schema_mgr p);
          p' = p\<lparr>schema_mgr := sm\<rparr>
      in case msg of
           Inl e \<Rightarrow> Some (Inl e, p')
         | Inr dataStr \<Rightarrow>
             if record_too_large conf dataStr then Some (Inr (), p')
             else (case SendDjson (se_now env) mdsdSource dataStr (se_input env) (se_threads env)
                          (mdsdLogger p', itemCounter p') of
                     None \<Rightarrow> None
                   | Some (success, sl, c) \<Rightarrow>
                       Some (if success then Inr () else Inl (Send_Failed tag),
                             p'\<lparr>mdsdLogger := sl, itemCounter := c\<rparr>)))"

definition emit_record :: "plugin_conf \<Rightarrow> event \<Rightarrow> rb_record" where
  "emit_record conf ev =
     hash_set (emit_timestamp_name conf)
       (if use_source_timestamp conf then Rb_Time (ev_time ev) 0
        else Rb_Time (fst (ev_clock ev)) (snd (ev_clock ev)))
       (ev_record ev)"

fun plugin_write ::
  "(string \<Rightarrow> string \<Rightarrow> string option) \<Rightarrow> plugin_conf \<Rightarrow> event list \<Rightarrow> plugin \<Rightarrow> (unit rb_result \<times> plugin) option"
where
  "plugin_write rx conf [] p = Some (Inr (), p)"
| "plugin_write rx conf (ev # chunk) p =
     (case handle_record rx conf (ev_send ev) (ev_tag ev) (emit_record conf ev) p of
        None \<Rightarrow> None
      | Some (Inl e, p') \<Rightarrow> Some (Inl e, p')
      | Some (Inr _, p') \<Rightarrow> plugin_write rx conf chunk p')"

section \<open>Lemmas\<close>

definition plugin_message :: "string \<Rightarrow> string \<Rightarrow> nat \<Rightarrow> bool \<Rightarrow> rb_record \<Rightarrow> json" where
  "plugin_message source tag i hashtojson r =
     J_Arr [J_Str source, J_Word tag, J_Word (to_string i), schema_json r, values_json hashtojson r]"

lemma plugin_payload:
  "clean source \<Longrightarrow> djson_payload source tag
      (to_string i @ '','' @ print_json (schema_json r) @ '','' @ print_json (values_json h r))
    = print_json (plugin_message source tag i h r)"
  by (simp add: djson_payload_def plugin_message_def print_clean)

lemma plugin_message_readable: "record_ok r \<Longrightarrow> readable (plugin_message source (to_string n) i h r)"
  using word_to_string schema_readable values_readable by (simp add: plugin_message_def)

lemma frame_no_nul:
  assumes "readable j"
  shows "c_str (djson_frame (print_json j)) = djson_frame (print_json j)"
proof -
  have "nul \<notin> set (print_json j)"
    using print_json_no_control [OF assms, of nul] by (auto simp: control_def)
  then show ?thesis by (simp add: c_str_id djson_frame_def)
qed

lemma hash_set_new: "k \<notin> fst ` set r \<Longrightarrow> hash_set k v r = r @ [(k, v)]"
  unfolding hash_set_def by (induction r) auto

text \<open>The texts of a chunk's records, up to the first that cannot be formatted.\<close>

fun chunk_texts :: "plugin_conf \<Rightarrow> event list \<Rightarrow> schema_manager \<Rightarrow> string list" where
  "chunk_texts conf [] sm = []"
| "chunk_texts conf (ev # chunk) sm =
     (case get_schema_value_str (convert_hash_to_json conf) (emit_record conf ev) sm of
        (Inl e, sm') \<Rightarrow> []
      | (Inr t, sm') \<Rightarrow> t # chunk_texts conf chunk sm')"

definition num_to_send :: "plugin_conf \<Rightarrow> string list \<Rightarrow> nat" where
  "num_to_send conf ts = length (filter (\<lambda>t. \<not> record_too_large conf t) ts)"

lemma num_to_send_simps [simp]:
  "num_to_send conf [] = 0"
  "num_to_send conf (t # ts) = (if record_too_large conf t then 0 else 1) + num_to_send conf ts"
  by (simp_all add: num_to_send_def)

lemma handle_record_ok:
  assumes "handle_record rx conf env tag r p = Some (Inr u, p')"
  obtains t where "get_schema_value_str (convert_hash_to_json conf) r (schema_mgr p) = (Inr t, schema_mgr p')"
    "sl_totalSend (mdsdLogger p') = sl_totalSend (mdsdLogger p) + num_to_send conf [t]"
proof -
  obtain msg sm where m: "get_schema_value_str (convert_hash_to_json conf) r (schema_mgr p) = (msg, sm)" by fastforce
  then show thesis
    using assms that
    by (auto simp: handle_record_def Let_def split: sum.splits if_splits option.splits prod.splits
        dest!: SendDjson_count)
qed

lemma handle_record_raise:
  "handle_record rx conf env tag r p = Some (Inl e, p') \<Longrightarrow>
   sl_totalSend (mdsdLogger p') = sl_totalSend (mdsdLogger p)"
  by (auto simp: handle_record_def Let_def split: sum.splits if_splits option.splits prod.splits
      dest!: SendDjson_count)

text \<open>What a record that was handled without an exception has left, when nobody interferes.\<close>

definition sendable :: "(string \<Rightarrow> string \<Rightarrow> string option) \<Rightarrow> plugin_conf \<Rightarrow> send_env \<Rightarrow> string \<Rightarrow> rb_record \<Rightarrow> bool" where
  "sendable rx conf env tag r \<longleftrightarrow> record_ok r \<and> clean (create_mdsd_source rx tag (mdsd_tag_regex_patterns conf))
     \<and> se_threads env = quiet_threads \<and> (\<forall>t \<in> set (in_sends (se_input env)). \<not> sr_stop t)"

definition tells :: "(string \<Rightarrow> string \<Rightarrow> string option) \<Rightarrow> plugin_conf \<Rightarrow> counter \<Rightarrow> string \<Rightarrow> rb_record \<Rightarrow> string \<Rightarrow> bool" where
  "tells rx conf c tag r payload \<longleftrightarrow> (\<exists>i. parse_json payload = Some (plugin_message
     (create_mdsd_source rx tag (mdsd_tag_regex_patterns conf)) (to_string (unat (c + 1))) i (convert_hash_to_json conf) r, []))"

lemma SendDjson_counter:
  "SendDjson now source sad inp env (sl, c) = Some (True, sl', c') \<Longrightarrow> c' = c + 1"
  by (auto simp: SendDjson_def alloc_item_def split: if_splits option.splits sum.splits prod.splits dest!: fresh_item_alloc)

lemma handle_record_sent:
  assumes "handle_record rx conf env tag r p = Some (Inr u, p')" "schemas_ok (schema_mgr p)" "sendable rx conf env tag r"
  obtains text' where "get_schema_value_str (convert_hash_to_json conf) r (schema_mgr p) = (Inr text', schema_mgr p')"
    "schemas_ok (schema_mgr p')"
    "if record_too_large conf text'
     then wire (sl_shared (mdsdLogger p')) = wire (sl_shared (mdsdLogger p)) \<and> itemCounter p' = itemCounter p
     else itemCounter p' = itemCounter p + 1 \<and> (\<exists>payload. tells rx conf (itemCounter p) tag r payload
       \<and> wire (sl_shared (mdsdLogger p')) = wire (sl_shared (mdsdLogger p)) @ [djson_frame payload])"
proof -
  let ?source = "create_mdsd_source rx tag (mdsd_tag_regex_patterns conf)" and ?h = "convert_hash_to_json conf"
  let ?tag = "to_string (unat (itemCounter p + 1))"
  have ok: "record_ok r" "clean ?source" "se_threads env = quiet_threads" "\<forall>t \<in> set (in_sends (se_input env)). \<not> sr_stop t"
    using assms(3) by (simp_all add: sendable_def)
  obtain i sm' where get: "get_schema_value_str ?h r (schema_mgr p) =
      (Inr (to_string i @ '','' @ print_json (schema_json r) @ '','' @ print_json (values_json ?h r)), sm')" (is "_ = (Inr ?text, _)")
    and sm: "schemas_ok sm'"
    using get_schema_value_str_json [OF assms(2) ok(1), of ?h] by blast
  have sm': "schema_mgr p' = sm'"
    using assms(1) get by (auto simp: handle_record_def Let_def split: if_splits option.splits prod.splits)
  show thesis
  proof (cases "record_too_large conf ?text")
    case True
    with assms(1) get have "p' = p\<lparr>schema_mgr := sm'\<rparr>" by (auto simp: handle_record_def Let_def)
    with True get sm show thesis by (intro that [of ?text]) simp_all
  next
    case False
    then obtain sl c where send: "SendDjson (se_now env) ?source ?text (se_input env) quiet_threads (mdsdLogger p, itemCounter p) = Some (True, sl, c)"
      "mdsdLogger p' = sl" "itemCounter p' = c"
      using assms(1) ok(3) get by (auto simp: handle_record_def Let_def split: option.splits if_splits)
    let ?j = "plugin_message ?source ?tag i ?h r"
    have "wire (sl_shared (mdsdLogger p')) = wire (sl_shared (mdsdLogger p)) @ [djson_frame (print_json ?j)]"
      using SendDjson_wire [OF send(1) ok(4)] send(2) plugin_payload [OF ok(2)] frame_no_nul [OF plugin_message_readable [OF ok(1)]] by metis
    moreover have "tells rx conf (itemCounter p) tag r (print_json ?j)"
      using parse_print_all [OF plugin_message_readable [OF ok(1)]] by (auto simp: tells_def)
    ultimately show thesis
      using False get sm sm' SendDjson_counter [OF send(1)] send(3) by (intro that [of ?text]) auto
  qed
qed

text \<open>The payloads of a chunk: one for each event whose text is not too large, under the next tags.\<close>

fun delivered :: "(string \<Rightarrow> string \<Rightarrow> string option) \<Rightarrow> plugin_conf \<Rightarrow> counter \<Rightarrow> event list \<Rightarrow> string list \<Rightarrow> bool" where
  "delivered rx conf c [] payloads = (payloads = [])"
| "delivered rx conf c (ev # evs) payloads =
     (\<exists>payload rest. payloads = payload # rest \<and> tells rx conf c (ev_tag ev) (emit_record conf ev) payload
        \<and> delivered rx conf (c + 1) evs rest)"

definition small_events :: "plugin_conf \<Rightarrow> event list \<Rightarrow> schema_manager \<Rightarrow> event list" where
  "small_events conf chunk sm =
     map fst (filter (\<lambda>(ev, t). \<not> record_too_large conf t) (zip chunk (chunk_texts conf chunk sm)))"

lemma plugin_write_sent:
  assumes "plugin_write rx conf chunk p = Some (Inr (), p')" "schemas_ok (schema_mgr p)"
    "list_all (\<lambda>ev. sendable rx conf (ev_send ev) (ev_tag ev) (emit_record conf ev)) chunk"
  shows "\<exists>payloads. wire (sl_shared (mdsdLogger p')) = wire (sl_shared (mdsdLogger p)) @ map djson_frame payloads
    \<and> delivered rx conf (itemCounter p) (small_events conf chunk (schema_mgr p)) payloads"
  using assms
proof (induction chunk arbitrary: p)
  case Nil
  then show ?case by (simp add: small_events_def)
next
  case (Cons ev chunk)
  then obtain p1 where h: "handle_record rx conf (ev_send ev) (ev_tag ev) (emit_record conf ev) p = Some (Inr (), p1)"
    and rest: "plugin_write rx conf chunk p1 = Some (Inr (), p')"
    by (auto split: option.splits sum.splits)
  have "sendable rx conf (ev_send ev) (ev_tag ev) (emit_record conf ev)" using Cons.prems(3) by simp
  from handle_record_sent [OF h Cons.prems(2) this] obtain text' where one:
    "get_schema_value_str (convert_hash_to_json conf) (emit_record conf ev) (schema_mgr p) = (Inr text', schema_mgr p1)"
    "schemas_ok (schema_mgr p1)"
    "if record_too_large conf text'
     then wire (sl_shared (mdsdLogger p1)) = wire (sl_shared (mdsdLogger p)) \<and> itemCounter p1 = itemCounter p
     else itemCounter p1 = itemCounter p + 1 \<and> (\<exists>payload. tells rx conf (itemCounter p) (ev_tag ev) (emit_record conf ev) payload
       \<and> wire (sl_shared (mdsdLogger p1)) = wire (sl_shared (mdsdLogger p)) @ [djson_frame payload])" .
  obtain payloads where IH: "wire (sl_shared (mdsdLogger p')) = wire (sl_shared (mdsdLogger p1)) @ map djson_frame payloads"
    "delivered rx conf (itemCounter p1) (small_events conf chunk (schema_mgr p1)) payloads"
    using Cons.IH [OF rest one(2)] Cons.prems(3) by auto
  show ?case
  proof (cases "record_too_large conf text'")
    case True
    with one IH show ?thesis by (auto simp: small_events_def)
  next
    case False
    with one(3) obtain payload where "tells rx conf (itemCounter p) (ev_tag ev) (emit_record conf ev) payload"
      "wire (sl_shared (mdsdLogger p1)) = wire (sl_shared (mdsdLogger p)) @ [djson_frame payload]" "itemCounter p1 = itemCounter p + 1"
      by auto
    with False one(1) IH show ?thesis
      by (intro exI [of _ "payload # payloads"]) (simp add: small_events_def)
  qed
qed

section \<open>Properties\<close>

text \<open>
  A record arrives as it was. The text made of a record, behind the source and the tag that
  \<open>DjsonLogItem\<close> puts in front, parses as the array of source, tag, schema id, the schema
  (the index of the time stamp, and name and type of every field), and the values in the
  order of the fields; strings are any valid UTF-8, control characters and quotes included.
\<close>

theorem plugin_message_parses:
  assumes "schemas_ok sm" "record_ok r" "clean source"
  shows "\<exists>i text sm'. get_schema_value_str h r sm = (Inr text, sm') \<and> schemas_ok sm'
    \<and> parse_json (djson_payload source (to_string n) text) = Some (plugin_message source (to_string n) i h r, [])"
  using get_schema_value_str_json [OF assms(1,2), of h] plugin_payload [OF assms(3)]
    parse_print_all [OF plugin_message_readable [OF assms(2)]]
  by metis

theorem plugin_message_parses_witness:
  "\<exists>i text sm'. get_schema_value_str False [(''m'', Rb_String [dquote, newline, CHR 0xC3, CHR 0xA9, nul]), (''t'', Rb_Time 7 0)]
      new_schema_manager = (Inr text, sm') \<and> schemas_ok sm'
    \<and> parse_json (djson_payload ''s'' (to_string 5) text)
      = Some (plugin_message ''s'' (to_string 5) i False
          [(''m'', Rb_String [dquote, newline, CHR 0xC3, CHR 0xA9, nul]), (''t'', Rb_Time 7 0)], [])"
  by (rule plugin_message_parses [OF schemas_ok_new])
    (simp_all add: record_ok_def clean_def control_def utf8_lead_def continuation_def)

text \<open>
  The time stamp is the column the schema points to. When the record has no field of the
  configured name, the time stamp becomes its last field, of type \<open>FT_TIME\<close>, and the index
  in front of the schema is that field's.
\<close>

theorem timestamp_column:
  assumes "emit_timestamp_name conf \<notin> fst ` set (ev_record ev)"
  shows "\<exists>secs nsecs. emit_record conf ev = ev_record ev @ [(emit_timestamp_name conf, Rb_Time secs nsecs)]
    \<and> get_new_schema (emit_record conf ev) =
        ''['' @ comma_sep (to_string (length (ev_record ev)) # map column_text (shape (ev_record ev))
          @ [column_text (emit_timestamp_name conf, ''Time'')]) @ '']''
    \<and> mdsd_typestr (Rb_Time secs nsecs) = ''FT_TIME''"
proof -
  obtain secs nsecs where e: "emit_record conf ev = ev_record ev @ [(emit_timestamp_name conf, Rb_Time secs nsecs)]"
    using assms by (cases "use_source_timestamp conf") (auto simp: emit_record_def hash_set_new)
  then have "get_new_schema (emit_record conf ev) =
        ''['' @ comma_sep (to_string (length (ev_record ev)) # map column_text (shape (ev_record ev))
          @ [column_text (emit_timestamp_name conf, ''Time'')]) @ '']''"
    by (simp add: get_new_schema_shape to_string_int_def) (simp add: shape_def)
  with e show ?thesis by (simp add: mdsd_typestr_def rb2mdsdType_def)
qed

definition sample_conf :: plugin_conf where
  "sample_conf = \<lparr>djsonsocket = ''/s'', acktimeoutms = 1000, mdsd_tag_regex_patterns = [], resend_interval_ms = 10,
     conn_retry_timeout_ms = 1000, emit_timestamp_name = ''ts'', use_source_timestamp = True,
     max_record_size = 1000, convert_hash_to_json = False\<rparr>"

definition sample_env :: send_env where
  "sample_env = \<lparr>se_now = 0, se_input = good_input 60, se_threads = quiet_threads\<rparr>"

definition sample_event :: "rb_record \<Rightarrow> event" where
  "sample_event r = \<lparr>ev_tag = ''s'', ev_time = 7, ev_record = r, ev_clock = (0, 0), ev_send = sample_env\<rparr>"

theorem timestamp_column_witness:
  "\<exists>secs nsecs. emit_record sample_conf (sample_event [(''a'', Rb_True)]) = [(''a'', Rb_True), (''ts'', Rb_Time secs nsecs)]"
  using timestamp_column [of sample_conf "sample_event [(''a'', Rb_True)]"]
  by (auto simp: sample_conf_def sample_event_def)

text \<open>
  Otherwise the index points elsewhere. A record that already has a field of that name keeps
  the field's place, and the index, which is always that of the last field, names another
  column: here the string \<open>m\<close>.
\<close>

theorem timestamp_not_last:
  "get_new_schema (emit_record sample_conf (sample_event [(''ts'', Rb_Nil), (''m'', Rb_String ''x'')]))
   = ''['' @ comma_sep [''1'', column_text (''ts'', ''Time''), column_text (''m'', ''String'')] @ '']''"
  by code_simp

text \<open>
  A chunk is handled record by record. If \<open>write\<close> returns, every record was formatted and each
  that is not too large was sent and counted once; if it raises, this happened to the
  records before the one that raised, which was not counted, and none after it was
  touched: Fluentd, which then retries the chunk, sends those before it once more.
\<close>

theorem plugin_write_records:
  assumes "plugin_write rx conf chunk p = Some (res, p')"
  shows "case res of
      Inr _ \<Rightarrow> length (chunk_texts conf chunk (schema_mgr p)) = length chunk
        \<and> sl_totalSend (mdsdLogger p') = sl_totalSend (mdsdLogger p) + num_to_send conf (chunk_texts conf chunk (schema_mgr p))
    | Inl e \<Rightarrow> (\<exists>n < length chunk. \<exists>q. plugin_write rx conf (take n chunk) p = Some (Inr (), q)
        \<and> handle_record rx conf (ev_send (chunk ! n)) (ev_tag (chunk ! n)) (emit_record conf (chunk ! n)) q = Some (Inl e, p')
        \<and> sl_totalSend (mdsdLogger p') = sl_totalSend (mdsdLogger p) + num_to_send conf (take n (chunk_texts conf chunk (schema_mgr p))))"
  using assms
proof (induction chunk arbitrary: p)
  case (Cons ev chunk)
  let ?h = "handle_record rx conf (ev_send ev) (ev_tag ev) (emit_record conf ev) p"
  show ?case
  proof (cases "\<exists>u p1. ?h = Some (Inr u, p1)")
    case True
    then obtain u p1 where h: "?h = Some (Inr u, p1)" by blast
    then obtain t where t: "get_schema_value_str (convert_hash_to_json conf) (emit_record conf ev) (schema_mgr p) = (Inr t, schema_mgr p1)"
      "sl_totalSend (mdsdLogger p1) = sl_totalSend (mdsdLogger p) + num_to_send conf [t]"
      by (rule handle_record_ok)
    have IH: "plugin_write rx conf chunk p1 = Some (res, p')" using Cons.prems h by simp
    show ?thesis
    proof (cases res)
      case (Inl e)
      with Cons.IH [OF IH] obtain n q where n: "n < length chunk" "plugin_write rx conf (take n chunk) p1 = Some (Inr (), q)"
        "handle_record rx conf (ev_send (chunk ! n)) (ev_tag (chunk ! n)) (emit_record conf (chunk ! n)) q = Some (Inl e, p')"
        "sl_totalSend (mdsdLogger p') = sl_totalSend (mdsdLogger p1) + num_to_send conf (take n (chunk_texts conf chunk (schema_mgr p1)))"
        by auto
      then show ?thesis using Inl h t by (auto intro!: exI [of _ "Suc n"] exI [of _ q])
    qed (use Cons.IH [OF IH] t in simp)
  next
    case False
    then obtain e where "?h = Some (Inl e, p')" "res = Inl e"
      using Cons.prems by (auto split: option.splits prod.splits sum.splits)
    with handle_record_raise show ?thesis by (auto intro!: exI [of _ 0])
  qed
qed auto

definition sample_plugin :: plugin where
  "sample_plugin = \<lparr>schema_mgr = new_schema_manager, mdsdLogger = sample_socket_logger, itemCounter = 0\<rparr>"

theorem plugin_write_records_witness:
  "\<exists>p'. plugin_write (\<lambda>_ _. None) sample_conf [sample_event [(''a'', Rb_True)], sample_event [(''b'', Rb_String [CHR 0xFF])]] sample_plugin
      = Some (Inl Generator_Error, p') \<and> sl_totalSend (mdsdLogger p') \<le> 1"
proof -
  let ?w = "plugin_write (\<lambda>_ _. None) sample_conf [sample_event [(''a'', Rb_True)], sample_event [(''b'', Rb_String [CHR 0xFF])]] sample_plugin"
  let ?ts = "chunk_texts sample_conf [sample_event [(''a'', Rb_True)], sample_event [(''b'', Rb_String [CHR 0xFF])]] (schema_mgr sample_plugin)"
  have e: "map_option fst ?w = Some (Inl Generator_Error)" "sl_totalSend (mdsdLogger sample_plugin) = 0"
    by code_simp+
  then obtain p' where w: "?w = Some (Inl Generator_Error, p')" by auto
  from plugin_write_records [OF w] e(2) obtain n where
    "n < Suc (Suc 0)" "sl_totalSend (mdsdLogger p') = num_to_send sample_conf (take n ?ts)"
    by (auto simp del: chunk_texts.simps plugin_write.simps)
  moreover have "num_to_send sample_conf (take n ?ts) \<le> n"
    unfolding num_to_send_def by (rule order_trans [OF length_filter_le]) simp
  ultimately have "sl_totalSend (mdsdLogger p') \<le> 1" by simp
  with w show ?thesis by blast
qed

text \<open>
  C12: from a chunk to the socket. When \<open>write\<close> returns for a chunk whose records are fit to be sent,
  the other threads do not interfere and nobody stops the client, the bytes sent meanwhile
  are a stream of messages, one for each record that is not too large, in their order: each
  decodes to a payload that parses to the record's source, its tag (the next one), its schema
  and its values.
\<close>

theorem plugin_chunk_delivered:
  assumes "plugin_write rx conf chunk p = Some (Inr (), p')" "schemas_ok (schema_mgr p)"
    "list_all (\<lambda>ev. sendable rx conf (ev_send ev) (ev_tag ev) (emit_record conf ev)) chunk"
  shows "\<exists>msgs payloads. wire (sl_shared (mdsdLogger p')) = wire (sl_shared (mdsdLogger p)) @ msgs
    \<and> decode_all decode_frame (concat msgs) = (payloads, [])
    \<and> delivered rx conf (itemCounter p) (small_events conf chunk (schema_mgr p)) payloads"
proof -
  obtain payloads where ps: "wire (sl_shared (mdsdLogger p')) = wire (sl_shared (mdsdLogger p)) @ map djson_frame payloads"
    "delivered rx conf (itemCounter p) (small_events conf chunk (schema_mgr p)) payloads"
    using plugin_write_sent [OF assms] by blast
  have "decode_all decode_frame (concat (map djson_frame payloads)) = (payloads, [])"
    using djson.decode_all_stream [of payloads "[]"] decode_frame_Nil by simp
  with ps show ?thesis by blast
qed

theorem plugin_chunk_delivered_witness:
  "\<exists>p' msgs payload. plugin_write (\<lambda>_ _. None) sample_conf [sample_event [(''a'', Rb_True)]] sample_plugin = Some (Inr (), p')
    \<and> wire (sl_shared (mdsdLogger p')) = wire (sl_shared (mdsdLogger sample_plugin)) @ msgs
    \<and> decode_all decode_frame (concat msgs) = ([payload], [])
    \<and> tells (\<lambda>_ _. None) sample_conf 0 ''s'' [(''a'', Rb_True), (''ts'', Rb_Time 7 0)] payload"
proof -
  let ?ev = "sample_event [(''a'', Rb_True)]"
  have e: "map_option fst (plugin_write (\<lambda>_ _. None) sample_conf [?ev] sample_plugin) = Some (Inr ())"
    "map (record_too_large sample_conf) (chunk_texts sample_conf [?ev] (schema_mgr sample_plugin)) = [False]"
    "emit_record sample_conf ?ev = [(''a'', Rb_True), (''ts'', Rb_Time 7 0)]" "itemCounter sample_plugin = 0"
    by code_simp+
  from e(2) have small: "small_events sample_conf [?ev] (schema_mgr sample_plugin) = [?ev]"
    unfolding small_events_def map_eq_Cons_conv by (elim exE conjE) simp
  from e(1)
  obtain p' where h: "plugin_write (\<lambda>_ _. None) sample_conf [?ev] sample_plugin = Some (Inr (), p')" by auto
  have "list_all (\<lambda>ev. sendable (\<lambda>_ _. None) sample_conf (ev_send ev) (ev_tag ev) (emit_record sample_conf ev)) [?ev]"
    unfolding list.pred_inject e(3)
    by (simp add: sendable_def sample_event_def sample_conf_def sample_env_def record_ok_def clean_def control_def
        good_input_def accepting_def)
  from plugin_chunk_delivered [OF h _ this] have "\<exists>msgs payload. wire (sl_shared (mdsdLogger p')) = wire (sl_shared (mdsdLogger sample_plugin)) @ msgs
    \<and> decode_all decode_frame (concat msgs) = ([payload], [])
    \<and> tells (\<lambda>_ _. None) sample_conf 0 ''s'' [(''a'', Rb_True), (''ts'', Rb_Time 7 0)] payload"
    using small e(3,4) by (auto simp: sample_plugin_def schemas_ok_new) (auto simp: sample_event_def)
  with h show ?thesis by blast
qed

text \<open>
  The configured log level has no effect. Fluentd's level is a number, and the number's text
  is not among the names \<open>TraceLevelFromStr\<close> knows: whatever it is, the library logs
  from \<open>Warning\<close> on.
\<close>

theorem plugin_log_level:
  assumes "configure conf log_path log_level (\<lambda>_ _. Sys_Ok fd) st c ids = (res, st')" "log_path \<noteq> []"
  shows "s_minLevel st' = Warning"
proof -
  have "TraceLevelFromStr (to_string n) = Warning" for n
    using to_string_digits [of n]
    by (auto simp: TraceLevelFromStr_def GetStr2LevelTable_def is_digit_def)
  with assms show ?thesis
    by (auto simp: configure_def InitLogger_def SetLogLevel_def SetTracer_def SetTraceLevel_str_def
        SetTraceLevel_def new_file_tracer_def Let_def split: sum.splits prod.splits)
qed

theorem plugin_log_level_witness:
  "s_minLevel (snd (configure sample_conf ''/l'' 0 (\<lambda>_ _. Sys_Ok 5) initial_trace 0 [])) = Warning"
  by (rule plugin_log_level [OF prod.collapse [symmetric]]) simp

end
