(* ===== verification/Plugin_Chunk.thy ===== *)
theory Plugin_Chunk
  imports Mdsd_Plugin
begin

text \<open>
  \<open>src/src/fluent-plugin-mdsd/lib/fluent/plugin/out_mdsd.rb\<close>, third part: \<open>format\<close>, which makes
  the bytes of an event that Fluentd appends to a chunk of its buffer, and \<open>write\<close> on the bytes of
  a chunk. The packing of an array as MessagePack and the iteration over the arrays of a chunk
  are the arguments \<open>pack\<close> and \<open>unpack\<close>.
\<close>

section \<open>Packed events\<close>

text \<open>
  The elements of the arrays. Each array begins with the tag, a string; a block with more
  parameters than the array has elements gets \<open>nil\<close> for the others.
\<close>

datatype mp_value = Mp_Nil | Mp_Int int | Mp_Hash rb_record

type_synonym mp_row = "string \<times> mp_value list"

definition format_row :: "plugin_conf \<Rightarrow> string \<Rightarrow> int \<Rightarrow> rb_record \<Rightarrow> mp_row" where
  "format_row conf tag time record' =
     (if use_source_timestamp conf then (tag, [Mp_Int time, Mp_Hash record'])
      else (tag, [Mp_Hash record']))"

definition mdsd_format :: "(mp_row \<Rightarrow> string) \<Rightarrow> plugin_conf \<Rightarrow> string \<Rightarrow> int \<Rightarrow> rb_record \<Rightarrow> string" where
  "mdsd_format pack conf tag time record' = pack (format_row conf tag time record')"

definition block_param :: "mp_value list \<Rightarrow> nat \<Rightarrow> mp_value" where
  "block_param vs i = (if i < length vs then vs ! i else Mp_Nil)"

text \<open>
  The parameters of the block of \<open>write\<close>, as far as the assignment of the time stamp: only a
  hash has that assignment (with a string and a time as arguments), only a number makes a time.
  The clock and what the calls meet is given for each array.
\<close>

definition row_event :: "plugin_conf \<Rightarrow> (int \<times> int) \<times> send_env \<Rightarrow> mp_row \<Rightarrow> event rb_result" where
  "row_event conf env row =
     (case row of (tag, vs) \<Rightarrow>
        if use_source_timestamp conf
        then (case (block_param vs 0, block_param vs 1) of
                (Mp_Int time, Mp_Hash r) \<Rightarrow>
                  Inr \<lparr>ev_tag = tag, ev_time = time, ev_record = r, ev_clock = fst env, ev_send = snd env\<rparr>
              | _ \<Rightarrow> Inl Wrong_Class)
        else (case block_param vs 0 of
                Mp_Hash r \<Rightarrow>
                  Inr \<lparr>ev_tag = tag, ev_time = 0, ev_record = r, ev_clock = fst env, ev_send = snd env\<rparr>
              | _ \<Rightarrow> Inl Wrong_Class))"

fun write_rows ::
  "(string \<Rightarrow> string \<Rightarrow> string option) \<Rightarrow> plugin_conf \<Rightarrow> (nat \<Rightarrow> (int \<times> int) \<times> send_env) \<Rightarrow> mp_row list \<Rightarrow> plugin
   \<Rightarrow> (unit rb_result \<times> plugin) option"
where
  "write_rows rx conf env [] p = Some (Inr (), p)"
| "write_rows rx conf env (row # rows) p =
     (case row_event conf (env 0) row of
        Inl e \<Rightarrow> Some (Inl e, p)
      | Inr ev \<Rightarrow>
          (case handle_record rx conf (ev_send ev) (ev_tag ev) (emit_record conf ev) p of
             None \<Rightarrow> None
           | Some (Inl e, p') \<Rightarrow> Some (Inl e, p')
           | Some (Inr _, p') \<Rightarrow> write_rows rx conf (\<lambda>i. env (Suc i)) rows p'))"

definition write_chunk ::
  "(string \<Rightarrow> string \<Rightarrow> string option) \<Rightarrow> (string \<Rightarrow> mp_row list) \<Rightarrow> plugin_conf
   \<Rightarrow> (nat \<Rightarrow> (int \<times> int) \<times> send_env) \<Rightarrow> string \<Rightarrow> plugin \<Rightarrow> (unit rb_result \<times> plugin) option"
where
  "write_chunk rx unpack conf env chunk p = write_rows rx conf env (unpack chunk) p"

text \<open>The law of MessagePack: arrays of storable values that are packed one behind the other are read back.\<close>

definition msgpack_law :: "(mp_row \<Rightarrow> string) \<Rightarrow> (string \<Rightarrow> mp_row list) \<Rightarrow> (mp_row \<Rightarrow> bool) \<Rightarrow> bool" where
  "msgpack_law pack unpack storable \<longleftrightarrow>
     (\<forall>rows. list_all storable rows \<longrightarrow> unpack (concat (map pack rows)) = rows)"

section \<open>Lemmas\<close>

type_synonym fluent_event = "string \<times> int \<times> rb_record"

definition row_of :: "plugin_conf \<Rightarrow> fluent_event \<Rightarrow> mp_row" where
  "row_of conf e = (case e of (tag, time, r) \<Rightarrow> format_row conf tag time r)"

definition chunk_of :: "(mp_row \<Rightarrow> string) \<Rightarrow> plugin_conf \<Rightarrow> fluent_event list \<Rightarrow> string" where
  "chunk_of pack conf evs = concat (map (\<lambda>(tag, time, r). mdsd_format pack conf tag time r) evs)"

fun events_of :: "plugin_conf \<Rightarrow> (nat \<Rightarrow> (int \<times> int) \<times> send_env) \<Rightarrow> fluent_event list \<Rightarrow> event list" where
  "events_of conf env [] = []"
| "events_of conf env ((tag, time, r) # evs) =
     \<lparr>ev_tag = tag, ev_time = time, ev_record = r, ev_clock = fst (env 0), ev_send = snd (env 0)\<rparr>
     # events_of conf (\<lambda>i. env (Suc i)) evs"

lemma chunk_of_rows: "chunk_of pack conf evs = concat (map pack (map (row_of conf) evs))"
proof -
  have "map (\<lambda>(tag, time, r). mdsd_format pack conf tag time r) evs = map pack (map (row_of conf) evs)"
    by (auto simp: row_of_def mdsd_format_def)
  then show ?thesis by (simp only: chunk_of_def)
qed

lemma unpack_chunk:
  "msgpack_law pack unpack storable \<Longrightarrow> list_all (\<lambda>e. storable (row_of conf e)) evs \<Longrightarrow>
   unpack (chunk_of pack conf evs) = map (row_of conf) evs"
  unfolding msgpack_law_def chunk_of_rows by (simp add: list_all_iff del: map_map)

lemma row_event_formatted:
  "\<exists>ev. row_event conf env (row_of conf (tag, time, r)) = Inr ev \<and> ev_send ev = snd env \<and> ev_tag ev = tag
     \<and> emit_record conf ev = emit_record conf
         \<lparr>ev_tag = tag, ev_time = time, ev_record = r, ev_clock = fst env, ev_send = snd env\<rparr>"
  by (simp add: row_event_def row_of_def format_row_def block_param_def emit_record_def)

lemma write_rows_formatted:
  "write_rows rx conf env (map (row_of conf) evs) p = plugin_write rx conf (events_of conf env evs) p"
proof (induction evs arbitrary: env p)
  case (Cons e evs)
  obtain tag time r where e: "e = (tag, time, r)" by (metis prod_cases3)
  obtain ev where "row_event conf (env 0) (row_of conf e) = Inr ev" "ev_send ev = snd (env 0)" "ev_tag ev = tag"
    "emit_record conf ev = emit_record conf
       \<lparr>ev_tag = tag, ev_time = time, ev_record = r, ev_clock = fst (env 0), ev_send = snd (env 0)\<rparr>"
    using row_event_formatted e by blast
  with Cons.IH e show ?case by (simp split: option.split sum.split prod.split)
qed simp

section \<open>Properties\<close>

text \<open>
  C32: what is formatted is what is written. The chunk of the texts \<open>format\<close> returned for a
  sequence of events, read back by \<open>write\<close> under the same configuration, is handled as these
  events in their order, each with its tag and record, and with its own time or the time of
  the writing as configured.
\<close>

theorem formatted_chunk_written:
  assumes "msgpack_law pack unpack storable" "list_all (\<lambda>e. storable (row_of conf e)) evs"
  shows "write_chunk rx unpack conf env (concat (map (\<lambda>(tag, time, r). mdsd_format pack conf tag time r) evs)) p
    = plugin_write rx conf (events_of conf env evs) p"
  using write_rows_formatted unpack_chunk [OF assms] by (simp add: write_chunk_def chunk_of_def)

definition sample_fluent_event :: fluent_event where
  "sample_fluent_event = (''s'', 7, [(''a'', Rb_True)])"

text \<open>A codec for copies of one array.\<close>

definition copies :: "mp_row \<Rightarrow> string \<Rightarrow> mp_row list" where
  "copies row s = replicate (length s) row"

lemma copies_law: "msgpack_law (\<lambda>_. ''x'') (copies row) (\<lambda>r. r = row)"
proof -
  have "concat (map (\<lambda>_. ''x'') rows) = replicate (length rows) CHR ''x''" for rows :: "mp_row list"
    by (induction rows) simp_all
  moreover have "list_all (\<lambda>r. r = row) rows \<Longrightarrow> replicate (length rows) row = rows" for rows
    by (metis (mono_tags, lifting) list_all_iff replicate_eqI)
  ultimately show ?thesis by (simp add: msgpack_law_def copies_def del: concat_map_singleton)
qed

theorem formatted_chunk_written_witness:
  "\<exists>p'. write_chunk (\<lambda>_ _. None) (copies (row_of sample_conf sample_fluent_event)) sample_conf (\<lambda>_. ((0, 0), sample_env)) ''xx'' sample_plugin
     = Some (Inr (), p') \<and> sl_totalSend (mdsdLogger p') = 2"
proof -
  let ?evs = "[sample_fluent_event, sample_fluent_event]"
  have "write_chunk (\<lambda>_ _. None) (copies (row_of sample_conf sample_fluent_event)) sample_conf (\<lambda>_. ((0, 0), sample_env))
      (concat (map (\<lambda>(tag, time, r). mdsd_format (\<lambda>_. ''x'') sample_conf tag time r) ?evs)) sample_plugin
    = plugin_write (\<lambda>_ _. None) sample_conf (events_of sample_conf (\<lambda>_. ((0, 0), sample_env)) ?evs) sample_plugin"
    by (rule formatted_chunk_written [OF copies_law]) simp
  moreover have "map_option (\<lambda>x. (fst x, sl_totalSend (mdsdLogger (snd x))))
      (plugin_write (\<lambda>_ _. None) sample_conf (events_of sample_conf (\<lambda>_. ((0, 0), sample_env)) ?evs) sample_plugin) = Some (Inr (), 2)"
    by code_simp
  ultimately show ?thesis by (auto simp: mdsd_format_def split_beta)
qed

text \<open>
  A chunk that was formatted under one value of \<open>use_source_timestamp\<close> and is written under the
  other (a buffer in a file, and a restart with a changed configuration) raises at its first
  event: it is never sent, however often Fluentd retries.
\<close>

theorem changed_setting_raises:
  assumes "msgpack_law pack unpack storable" "storable (row_of conf e)" "list_all (\<lambda>e. storable (row_of conf e)) evs"
    and "use_source_timestamp conf' \<noteq> use_source_timestamp conf"
  shows "write_chunk rx unpack conf' env (chunk_of pack conf (e # evs)) p = Some (Inl Wrong_Class, p)"
proof -
  have "unpack (chunk_of pack conf (e # evs)) = row_of conf e # map (row_of conf) evs"
    using unpack_chunk [OF assms(1), of conf "e # evs"] assms(2,3) by simp
  moreover have "row_event conf' (env 0) (row_of conf e) = Inl Wrong_Class"
    using assms(4) by (cases e) (auto simp: row_event_def row_of_def format_row_def block_param_def)
  ultimately show ?thesis by (simp add: write_chunk_def)
qed

theorem changed_setting_raises_witness:
  "write_chunk (\<lambda>_ _. None) (copies (row_of sample_conf sample_fluent_event)) (sample_conf\<lparr>use_source_timestamp := False\<rparr>)
     (\<lambda>_. ((0, 0), sample_env)) (chunk_of (\<lambda>_. ''x'') sample_conf [sample_fluent_event]) sample_plugin
   = Some (Inl Wrong_Class, sample_plugin)"
  by (rule changed_setting_raises [OF copies_law]) (simp_all add: sample_conf_def)

end
