(* ===== verification/Plugin_Calls.thy ===== *)
theory Plugin_Calls
  imports Socket_Calls Plugin_Chunk
begin

text \<open>
  The plugin above a \<open>SocketLogger\<close> whose threads run: a record that the plugin has formatted and
  given to a call of \<open>SendDjson\<close>.
\<close>

text \<open>
  C11: a record that the plugin believes to be sent is sent, as it is, under any interleaving. Let
  the plugin, with a schema table that is in order, format a record that is \<open>record_ok\<close>: it
  is not empty, its strings are valid UTF-8, its field names need no escapes, they and the
  class names have no comma, and the texts of floats and other objects are single words. Let it hand the text, under a source that is not empty and needs no escapes, to
  \<open>SendDjson\<close> of a logger that is not being destroyed, and let this call, all other calls, the
  reader and the resender run in any order, while tags do not repeat. When the call
  has returned true, some message that went out decodes to a payload that parses to the
  record's source, its tag, its schema and its values.
\<close>

theorem plugin_record_sent:
  assumes "get_schema_value_str h r sm = (Inr text', sm')" "schemas_ok sm" "record_ok r" "clean source" "source \<noteq> []"
    and "ss_reachable ss" "\<not> sl_stopRead (ss_logger ss)" "ss_step\<^sup>*\<^sup>* (call_begin now source text' ss) ss'"
    and "distinct (tag_list (ss_shared ss'))" "snd (ss_calls ss' ! length (ss_calls ss)) = C_Done True"
  shows "\<exists>msg \<in> set (wire (ss_shared ss')). \<exists>payload i. decode_frame msg = Some (payload, [])
    \<and> parse_json payload = Some (plugin_message source (to_string (unat (ss_counter ss + 1))) i h r, [])"
proof -
  let ?tag = "to_string (unat (ss_counter ss + 1))"
  obtain i where text': "text' = to_string i @ '','' @ print_json (schema_json r) @ '','' @ print_json (values_json h r)"
    using get_schema_value_str_json [OF assms(2,3), of h] assms(1) by auto
  then have "text' \<noteq> []" by simp
  from call_outcome [OF assms(6,7,5) this assms(8-10)]
  have "c_str (djson_frame (djson_payload source ?tag text')) \<in> set (wire (ss_shared ss'))" by simp
  then have "djson_frame (print_json (plugin_message source ?tag i h r)) \<in> set (wire (ss_shared ss'))"
    unfolding text' plugin_payload [OF assms(4)] frame_no_nul [OF plugin_message_readable [OF assms(3)]] .
  with djson.dec_enc parse_print_all [OF plugin_message_readable [OF assms(3)]] show ?thesis by blast
qed

definition sample_record :: rb_record where
  "sample_record = [(''a'', Rb_True)]"

definition sample_text :: string where
  "sample_text = (case fst (get_schema_value_str False sample_record new_schema_manager) of Inl e \<Rightarrow> [] | Inr t \<Rightarrow> t)"

theorem plugin_record_sent_witness:
  "\<exists>msg \<in> set (wire (ss_shared (fold (call_move 0) (replicate 5 (good_input 60)) (call_begin 0 ''s'' sample_text sample_system)))).
     \<exists>payload i. decode_frame msg = Some (payload, [])
     \<and> parse_json payload = Some (plugin_message ''s'' (to_string (unat (0 + 1 :: 64 word))) i False sample_record, [])"
proof -
  let ?ss = "fold (call_move 0) (replicate 5 (good_input 60)) (call_begin 0 ''s'' sample_text sample_system)"
  obtain t sm' where t: "get_schema_value_str False sample_record new_schema_manager = (Inr t, sm')" "sample_text = t" "t \<noteq> []"
  proof -
    have "record_ok sample_record" by (simp add: sample_record_def record_ok_def clean_def control_def)
    from get_schema_value_str_json [OF schemas_ok_new this, of False] show thesis
      by (auto simp: sample_text_def intro: that)
  qed
  have "ss_step\<^sup>*\<^sup>* (call_begin 0 ''s'' sample_text sample_system) ?ss"
    by (rule moves_step) (auto simp: call_begin_def list_all_iff good_input_def accepting_def Let_def split: prod.split)
  moreover have e: "map snd (ss_calls ?ss) = [C_Done True]" "tag_list (ss_shared ?ss) = [''1'']" "ss_calls sample_system = []"
    "ss_counter sample_system = 0" "sl_stopRead (ss_logger sample_system) = False"
    by code_simp+
  ultimately show ?thesis
    using plugin_record_sent [OF t(1) schemas_ok_new _ _ _ sample_system_reachable, of "''s''" 0 ?ss] t(2)
    by (auto simp: Cons_eq_map_conv record_ok_def sample_record_def clean_def control_def)
qed

end
