(* ===== verification/Socket_Spec.thy ===== *)
theory Socket_Spec
  imports Socket_Calls
begin

text \<open>
  What \<open>SocketLogger\<close> promises, without threads, pointers and sockets: callers hand over tags, each
  call tries and returns; some tags are kept to be sent again, some have been sent. Every step
  of the logger is one step of this exchange or leaves it unchanged.
\<close>

section \<open>The exchange\<close>

datatype call_status = Trying | Returned bool

record exchange =
  ex_tags :: "string list"
  ex_kept :: "string set"
  ex_sent :: "string set"
  ex_calls :: "(string option \<times> call_status) list"

text \<open>A call that gives up takes its tag out of what is kept; it may have sent something before.\<close>

inductive exchange_step :: "exchange \<Rightarrow> exchange \<Rightarrow> bool" where
  refuse: "exchange_step x (x\<lparr>ex_calls := ex_calls x @ [(None, Returned False)]\<rparr>)"
| accept: "t \<notin> set (ex_tags x) \<Longrightarrow>
    exchange_step x (x\<lparr>ex_tags := ex_tags x @ [t], ex_calls := ex_calls x @ [(Some t, Trying)]\<rparr>)"
| keep: "(Some t, Trying) \<in> set (ex_calls x) \<Longrightarrow> exchange_step x (x\<lparr>ex_kept := insert t (ex_kept x)\<rparr>)"
| transmit: "T \<subseteq> set (ex_tags x) \<Longrightarrow> exchange_step x (x\<lparr>ex_sent := ex_sent x \<union> T\<rparr>)"
| discharge: "U \<subseteq> ex_kept x \<Longrightarrow> exchange_step x (x\<lparr>ex_kept := U\<rparr>)"
| succeed: "i < length (ex_calls x) \<Longrightarrow> ex_calls x ! i = (Some t, Trying) \<Longrightarrow> t \<in> ex_sent x \<Longrightarrow>
    exchange_step x (x\<lparr>ex_calls := (ex_calls x)[i := (Some t, Returned True)]\<rparr>)"
| give_up: "i < length (ex_calls x) \<Longrightarrow> ex_calls x ! i = (Some t, Trying) \<Longrightarrow> T \<subseteq> set (ex_tags x) \<Longrightarrow>
    exchange_step x (x\<lparr>ex_kept := ex_kept x - {t}, ex_sent := ex_sent x \<union> T,
                       ex_calls := (ex_calls x)[i := (Some t, Returned False)]\<rparr>)"
| idle: "exchange_step x x"

section \<open>The abstraction\<close>

fun status_of :: "call_pc \<Rightarrow> call_status" where
  "status_of (C_Done b) = Returned b"
| "status_of _ = Trying"

definition tag_of :: "string list \<Rightarrow> item_ptr \<Rightarrow> string option" where
  "tag_of tags v = map_option (\<lambda>p. tags ! p) v"

definition sent_in :: "shared \<Rightarrow> string set" where
  "sent_in sh = {ptr_GetTag q sh | q. q < length (items sh) \<and> m_djsonData (items sh ! q) \<noteq> []
     \<and> c_str (m_djsonData (items sh ! q)) \<in> set (wire sh)}"

definition xchg :: "shared \<Rightarrow> (item_ptr \<times> call_pc) list \<Rightarrow> exchange" where
  "xchg sh cs =
     \<lparr>ex_tags = tag_list sh, ex_kept = dom (map_of (the_cache sh)), ex_sent = sent_in sh,
      ex_calls = map (\<lambda>(v, pc). (tag_of (tag_list sh) v, status_of pc)) cs\<rparr>"

definition exchange_of :: "socket_system \<Rightarrow> exchange" where
  "exchange_of ss = xchg (ss_shared ss) (ss_calls ss)"

lemma sent_in_tags: "sent_in sh \<subseteq> set (tag_list sh)"
  by (auto simp: sent_in_def ptr_GetTag_tag_list tag_list_length intro!: nth_mem)

lemma carried_sent: "carried sh p \<Longrightarrow> ptr_GetTag p sh \<in> sent_in sh"
  unfolding carried_def message_of_def sent_in_def by (clarsimp) (metis (mono_tags))

lemma sent_in_mono:
  assumes "evolves sh sh'"
  shows "sent_in sh \<subseteq> sent_in sh'"
proof
  fix t assume "t \<in> sent_in sh"
  then obtain q where q: "t = ptr_GetTag q sh" "q < length (items sh)" "m_djsonData (items sh ! q) \<noteq> []"
    "c_str (m_djsonData (items sh ! q)) \<in> set (wire sh)" by (auto simp: sent_in_def)
  with evolves_tag [OF assms q(2)] evolves_message [OF assms q(2,3)] evolves_wire [OF assms] evolves_length [OF assms]
  have "t = ptr_GetTag q sh' \<and> q < length (items sh') \<and> m_djsonData (items sh' ! q) \<noteq> [] \<and> c_str (m_djsonData (items sh' ! q)) \<in> set (wire sh')"
    by auto
  then show "t \<in> sent_in sh'" unfolding sent_in_def by blast
qed

text \<open>Of a step that makes no item: the tags are the same, and what is sent grows by tags.\<close>

lemma evolves_xchg:
  assumes "evolves sh sh'" "length (items sh') = length (items sh)"
  shows "tag_list sh' = tag_list sh" "\<exists>T \<subseteq> set (tag_list sh). sent_in sh' = sent_in sh \<union> T"
proof -
  have "prefix (tag_list sh) (tag_list sh')" using assms(1) by (simp add: evolves_def)
  then show tags: "tag_list sh' = tag_list sh"
    using assms(2) tag_list_length [of sh] tag_list_length [of sh'] by (auto simp: prefix_def)
  have "sent_in sh' = sent_in sh \<union> sent_in sh'" using sent_in_mono [OF assms(1)] by blast
  then show "\<exists>T \<subseteq> set (tag_list sh). sent_in sh' = sent_in sh \<union> T" using sent_in_tags [of sh'] tags by metis
qed

lemma xchg_transmit:
  assumes "evolves sh sh'" "length (items sh') = length (items sh)" "dataCache sh' = dataCache sh"
  shows "exchange_step (xchg sh cs) (xchg sh' cs)"
proof -
  obtain T where T: "T \<subseteq> set (tag_list sh)" "sent_in sh' = sent_in sh \<union> T" using evolves_xchg(2) [OF assms(1,2)] by blast
  have "exchange_step (xchg sh cs) ((xchg sh cs)\<lparr>ex_sent := ex_sent (xchg sh cs) \<union> T\<rparr>)"
    by (rule exchange_step.transmit) (use T in \<open>simp add: xchg_def\<close>)
  also have "(xchg sh cs)\<lparr>ex_sent := ex_sent (xchg sh cs) \<union> T\<rparr> = xchg sh' cs"
    using T(2) evolves_xchg(1) [OF assms(1,2)] by (simp add: xchg_def the_cache_same [OF assms(3)])
  finally show ?thesis .
qed

lemma sent_in_same: "items sh' = items sh \<Longrightarrow> wire sh' = wire sh \<Longrightarrow> sent_in sh' = sent_in sh"
  by (simp add: sent_in_def ptr_GetTag_def)

lemma xchg_discharge:
  assumes "items sh' = items sh" "wire sh' = wire sh" "dom (map_of (the_cache sh')) \<subseteq> dom (map_of (the_cache sh))"
  shows "exchange_step (xchg sh cs) (xchg sh' cs)"
proof -
  have "exchange_step (xchg sh cs) ((xchg sh cs)\<lparr>ex_kept := dom (map_of (the_cache sh'))\<rparr>)"
    by (rule exchange_step.discharge) (use assms(3) in \<open>simp add: xchg_def\<close>)
  also have "(xchg sh cs)\<lparr>ex_kept := dom (map_of (the_cache sh'))\<rparr> = xchg sh' cs"
    using assms(1) sent_in_same [OF assms(1,2)] by (simp add: xchg_def tag_list_def)
  finally show ?thesis .
qed

section \<open>Steps of a call\<close>

lemma xchg_calls_update:
  "xchg sh (cs[i := (v, pc)]) = (xchg sh cs)\<lparr>ex_calls := (ex_calls (xchg sh cs))[i := (tag_of (tag_list sh) v, status_of pc)]\<rparr>"
  by (simp add: xchg_def map_update)

lemma xchg_same_status:
  assumes "i < length cs" "cs ! i = (v, pc)" "status_of pc' = status_of pc"
  shows "xchg sh (cs[i := (v, pc')]) = xchg sh cs"
  using assms map_update_same [of "\<lambda>(v, pc). (tag_of (tag_list sh) v, status_of pc)" "(v, pc')" cs i]
  by (simp add: xchg_def)

text \<open>Giving up, in all its forms: afterwards the tag is not kept.\<close>

lemma xchg_give_up:
  assumes "i < length cs" "cs ! i = (Some p, pc)" "status_of pc = Trying" "p < length (items sh)"
    "evolves sh sh'" "length (items sh') = length (items sh)"
    "dom (map_of (the_cache sh')) = dom (map_of (the_cache sh)) - {ptr_GetTag p sh}"
  shows "exchange_step (xchg sh cs) (xchg sh' (cs[i := (Some p, C_Done False)]))"
proof -
  let ?x = "xchg sh cs" and ?t = "ptr_GetTag p sh"
  obtain T where T: "T \<subseteq> set (tag_list sh)" "sent_in sh' = sent_in sh \<union> T" using evolves_xchg(2) [OF assms(5,6)] by blast
  have tag: "tag_of (tag_list sh) (Some p) = Some ?t" using assms(4) by (simp add: tag_of_def ptr_GetTag_tag_list)
  have "exchange_step ?x (?x\<lparr>ex_kept := ex_kept ?x - {?t}, ex_sent := ex_sent ?x \<union> T,
      ex_calls := (ex_calls ?x)[i := (Some ?t, Returned False)]\<rparr>)"
    by (rule exchange_step.give_up) (use assms(1-3) T tag in \<open>simp_all add: xchg_def\<close>)
  also have "?x\<lparr>ex_kept := ex_kept ?x - {?t}, ex_sent := ex_sent ?x \<union> T,
      ex_calls := (ex_calls ?x)[i := (Some ?t, Returned False)]\<rparr> = xchg sh' (cs[i := (Some p, C_Done False)])"
    unfolding xchg_calls_update using T(2) evolves_xchg(1) [OF assms(5,6)] tag assms(7) by (simp add: xchg_def)
  finally show ?thesis .
qed

lemma uncached_dom: "uncached sh t \<Longrightarrow> dom (map_of (the_cache sh)) = dom (map_of (the_cache sh)) - {t}"
  by (auto simp: uncached_def)

lemma xchg_give_up_uncached:
  assumes "i < length cs" "cs ! i = (Some p, pc)" "status_of pc = Trying" "p < length (items sh)"
    "evolves sh sh'" "length (items sh') = length (items sh)" "dataCache sh' = dataCache sh" "uncached sh (ptr_GetTag p sh)"
  shows "exchange_step (xchg sh cs) (xchg sh' (cs[i := (Some p, C_Done False)]))"
  by (rule xchg_give_up [OF assms(1-6)]) (use uncached_dom [OF assms(8)] in \<open>simp add: the_cache_same [OF assms(7)]\<close>)

lemma call_step_cache:
  assumes "call_step inp (pc, sh) = (pc', sh')"
  shows "dataCache sh' = dataCache sh \<or> (\<exists>t. pc = C_Failed t) \<or> (\<exists>q t. pc = C_Have q \<and> pc' = C_Lookup t)"
proof (cases pc)
  case (C_Have q)
  with assms call_GetData_cache [of None q sh pc' sh'] show ?thesis
    by (auto simp: call_Add_def Let_def split: option.splits sum.splits)
next
  case (C_Fetch t)
  with assms call_GetData_cache [of "Some t" _ sh pc' sh'] show ?thesis by (auto split: sum.splits option.splits)
next
  case (C_Sending tag s)
  with assms show ?thesis by (auto split: option.splits sum.splits dest!: client_Send_frame)
qed (use assms in \<open>auto split: sum.splits\<close>)

lemma sent_in_Touch: "sent_in (ptr_Touch now p sh) = sent_in sh"
proof -
  have "GetTag ((items sh)[p := Touch now (items sh ! p)] ! q) = GetTag (items sh ! q)"
    "m_djsonData ((items sh)[p := Touch now (items sh ! p)] ! q) = m_djsonData (items sh ! q)" for q
    by (simp_all add: nth_update Touch_def GetTag_def)
  then show ?thesis by (simp add: sent_in_def ptr_GetTag_def ptr_Touch_def)
qed

lemma xchg_Add:
  assumes "i < length cs" "cs ! i = (Some p, C_Have p)" "p < length (items sh)" "dataCache sh = Some m"
    "call_Add now p m sh = (C_Lookup t, sh')"
  shows "exchange_step (xchg sh cs) (xchg sh' (cs[i := (Some p, C_Lookup t)]))"
proof -
  let ?x = "xchg sh cs" and ?t = "ptr_GetTag p sh"
  obtain m' where m': "map_add ?t (Some p) m = Inr m'" "sh' = (ptr_Touch now p sh)\<lparr>dataCache := Some m'\<rparr>"
    using assms(3,5) by (auto simp: call_Add_def Let_def ptr_GetTag_Touch split: sum.splits)
  have "(Some p, C_Have p) \<in> set cs" using assms(1,2) by (metis nth_mem)
  then have "(Some ?t, Trying) \<in> set (ex_calls ?x)"
    using assms(3) by (force simp: xchg_def tag_of_def ptr_GetTag_tag_list)
  then have "exchange_step ?x (?x\<lparr>ex_kept := insert ?t (ex_kept ?x)\<rparr>)" by (rule exchange_step.keep)
  also have "?x\<lparr>ex_kept := insert ?t (ex_kept ?x)\<rparr> = xchg sh' cs"
  proof -
    have "sent_in sh' = sent_in (ptr_Touch now p sh)" by (rule sent_in_same) (simp_all add: m'(2))
    moreover have "dom (map_of m') = insert ?t (dom (map_of m))"
      using m'(1) by (auto simp: map_add_def map_of_update split: if_splits)
    ultimately show ?thesis using m'(2) assms(4) by (simp add: xchg_def sent_in_Touch the_cache_def)
  qed
  also have "xchg sh' cs = xchg sh' (cs[i := (Some p, C_Lookup t)])"
    using xchg_same_status [OF assms(1,2), of "C_Lookup t" sh'] by simp
  finally show ?thesis .
qed

lemma xchg_finish:
  assumes "i < length cs" "cs ! i = (Some p, C_Count)" "p < length (items sh)" "carried sh p"
  shows "exchange_step (xchg sh cs) (xchg sh (cs[i := (Some p, C_Done True)]))"
proof -
  have tag: "tag_of (tag_list sh) (Some p) = Some (ptr_GetTag p sh)" using assms(3) by (simp add: tag_of_def ptr_GetTag_tag_list)
  have "exchange_step (xchg sh cs) ((xchg sh cs)\<lparr>ex_calls := (ex_calls (xchg sh cs))[i := (Some (ptr_GetTag p sh), Returned True)]\<rparr>)"
    by (rule exchange_step.succeed) (use assms carried_sent tag in \<open>simp_all add: xchg_def\<close>)
  then show ?thesis unfolding xchg_calls_update by (simp only: tag status_of.simps)
qed

lemma erased_dom:
  "cache_ok sh \<Longrightarrow> dom (map_of (the_cache (sh\<lparr>dataCache := map_option (\<lambda>m. snd (map_erase t m)) (dataCache sh)\<rparr>)))
     = dom (map_of (the_cache sh)) - {t}"
  using empty_uncached [of sh]
  by (auto simp: uncached_def map_erase_def erase_key_def map_of_delete the_cache_def split: option.splits if_splits)

lemma status_Trying: "status_of pc = Trying \<longleftrightarrow> (\<forall>b. pc \<noteq> C_Done b)"
  by (cases pc) simp_all

lemma xchg_move:
  assumes ok: "calls_ok sh cs" "shared_ok sh" "distinct (tag_list sh)"
    and i: "i < length cs" "cs ! i = (v, pc)" and st: "call_step inp (pc, sh) = (pc', sh')"
    and over: "(\<forall>r \<in> set (in_sends inp). \<not> sr_stop r) \<or> call_over (v, pc)"
  shows "exchange_step (xchg sh cs) (xchg sh' (cs[i := (v, pc')]))"
proof -
  have c: "call_ok sh (v, pc)" "call_clean sh (v, pc)"
    using ok(1,3) i unfolding calls_ok_def by (metis nth_mem)+
  show ?thesis
  proof (cases "\<exists>b. pc = C_Done b")
    case True
    with st i have "sh' = sh" "cs[i := (v, pc')] = cs" using list_update_id [of cs i] by auto
    then show ?thesis by (simp add: exchange_step.idle)
  next
    case False
    then obtain p where v: "v = Some p" using c(1) by (cases v) auto
    have p: "p < length (items sh)" using c(1) v by simp
    have trying: "status_of pc = Trying" using False by (simp add: status_Trying)
    note step = call_step_ok [OF st ok(2) c(1) over]
    then have ev: "evolves sh sh'" by blast
    note len = call_step_length [OF st]
    have clean: "call_clean sh' (Some p, pc')" using call_step_clean [OF st] c v ok(2) by (simp add: shared_ok_def)
    have tag: "ptr_GetTag p sh' = ptr_GetTag p sh" by (rule evolves_tag [OF ev p])
    consider (failed) t where "pc = C_Failed t" | (add) q t where "pc = C_Have q" "pc' = C_Lookup t" "dataCache sh' \<noteq> dataCache sh"
      | (same) "dataCache sh' = dataCache sh" "\<forall>t. pc \<noteq> C_Failed t"
      using call_step_cache [OF st] by blast
    then show ?thesis
    proof cases
      case failed
      with st c(1) v have "pc' = C_Done False" "t = ptr_GetTag p sh"
        "sh' = sh\<lparr>dataCache := map_option (\<lambda>m. snd (map_erase t m)) (dataCache sh)\<rparr>" by auto
      with xchg_give_up [OF i(1) i(2) [unfolded v] trying p ev len] erased_dom [of sh t] ok(2) v show ?thesis
        by (simp add: shared_ok_def)
    next
      case add
      with c(1) v have q: "q = p" by simp
      with add st obtain m where "dataCache sh = Some m" "call_Add (in_now inp p) p m sh = (C_Lookup t, sh')"
        by (auto simp: call_GetData_def on_error_def split: option.splits prod.splits sum.splits)
      with xchg_Add [OF i(1) _ p] i(2) v add(1,2) q show ?thesis by simp
    next
      case same
      show ?thesis
      proof (cases pc')
        case (C_Done b)
        show ?thesis
        proof (cases b)
          case True
          then have "pc = C_Count" using call_step_count [OF st] C_Done False by auto
          with xchg_finish [OF i(1) _ p] st c(1) i(2) v C_Done True show ?thesis by simp
        next
          case False
          with clean C_Done tag have "uncached sh' (ptr_GetTag p sh)" by simp
          then have "uncached sh (ptr_GetTag p sh)" by (simp add: uncached_def the_cache_same [OF same(1)])
          with xchg_give_up_uncached [OF i(1) i(2) [unfolded v] trying p ev len same(1)] C_Done False v show ?thesis by simp
        qed
      qed (use xchg_transmit [OF ev len same(1)] xchg_same_status [OF i, of pc'] trying in simp_all)
    qed
  qed
qed

section \<open>Every step is a step of the exchange\<close>

lemma resender_step_frame:
  "resender_step inp (r, sh) = (r', sh') \<Longrightarrow> length (items sh') = length (items sh)
    \<and> (dataCache sh' = dataCache sh \<or> items sh' = items sh \<and> wire sh' = wire sh)"
  by (auto simp: Let_def split: resender_pc.splits list.splits option.splits prod.splits sum.splits
      dest!: ptr_GetData_frame client_Send_frame)

text \<open>The tags are distinct among up to \<open>2^64\<close> items; the steps up to then.\<close>

definition fresh_step :: "socket_system \<Rightarrow> socket_system \<Rightarrow> bool" where
  "fresh_step ss ss' \<longleftrightarrow> ss_step ss ss' \<and> distinct (tag_list (ss_shared ss'))"

definition ss_fresh :: "socket_system \<Rightarrow> bool" where
  "ss_fresh ss \<longleftrightarrow> ss_ok ss \<and> distinct (tag_list (ss_shared ss))"

lemma begin_simulated:
  assumes "distinct (tag_list (ss_shared (call_begin now source sad ss)))" "ss_ok ss"
  shows "exchange_step (exchange_of ss) (exchange_of (call_begin now source sad ss))"
proof (cases "source = [] \<or> sad = []")
  case True
  with exchange_step.refuse [of "exchange_of ss"] show ?thesis
    by (auto simp: call_begin_def exchange_of_def xchg_def tag_of_def)
next
  case False
  let ?sh = "ss_shared ss"
  obtain item c' where new: "new_djson_item_with now source sad (ss_counter ss) = (item, c')" by fastforce
  let ?sh' = "?sh\<lparr>items := items ?sh @ [item]\<rparr>" and ?p = "length (items ?sh)"
  have eq: "exchange_of (call_begin now source sad ss) = xchg ?sh' (ss_calls ss @ [(Some ?p, C_Have ?p)])"
    "ss_shared (call_begin now source sad ss) = ?sh'"
    using False new by (simp_all add: call_begin_def alloc_item_def with_shared_def exchange_of_def)
  have tags: "tag_list ?sh' = tag_list ?sh @ [GetTag item]" by (simp add: tag_list_def)
  have "tag_of (tag_list ?sh @ [t]) v = tag_of (tag_list ?sh) v" if "(v, pc) \<in> set (ss_calls ss)" for t v pc
  proof (cases v)
    case (Some p)
    have "call_ok ?sh (v, pc)" using assms(2) that by (simp add: ss_ok_def calls_ok_def)
    with Some show ?thesis by (simp add: tag_of_def nth_append tag_list_length)
  qed (simp add: tag_of_def)
  then have "map (\<lambda>(v, pc). (tag_of (tag_list ?sh') v, status_of pc)) (ss_calls ss)
      = map (\<lambda>(v, pc). (tag_of (tag_list ?sh) v, status_of pc)) (ss_calls ss)"
    unfolding tags by (auto intro!: map_cong)
  moreover have "sent_in ?sh' = sent_in ?sh"
    using fresh_item_alloc [OF new] by (auto simp: sent_in_def ptr_GetTag_def nth_append less_Suc_eq)
  moreover have "tag_of (tag_list ?sh') (Some ?p) = Some (GetTag item)"
    by (simp add: tags tag_of_def nth_append tag_list_length)
  ultimately have "exchange_of (call_begin now source sad ss) = (exchange_of ss)
      \<lparr>ex_tags := ex_tags (exchange_of ss) @ [GetTag item], ex_calls := ex_calls (exchange_of ss) @ [(Some (GetTag item), Trying)]\<rparr>"
    unfolding eq(1) by (simp add: exchange_of_def xchg_def tags the_cache_def)
  moreover have "GetTag item \<notin> set (ex_tags (exchange_of ss))"
    using assms(1) unfolding eq(2) tags by (simp add: exchange_of_def xchg_def)
  ultimately show ?thesis by (simp add: exchange_step.accept)
qed

lemma ss_step_simulated:
  assumes "ss_step ss ss'" "ss_fresh ss" "distinct (tag_list (ss_shared ss'))"
  shows "exchange_step (exchange_of ss) (exchange_of ss')"
  using assms
proof (induction rule: ss_step.induct)
  case (call ss now source sad)
  then show ?case by (simp add: begin_simulated ss_fresh_def)
next
  case (move i ss inp)
  let ?sh = "ss_shared ss"
  obtain v pc where vpc: "ss_calls ss ! i = (v, pc)" by fastforce
  obtain pc' sh' where t: "call_step inp (pc, ?sh) = (pc', sh')" by fastforce
  have ok: "calls_ok ?sh (ss_calls ss)" "shared_ok ?sh" "distinct (tag_list ?sh)"
    using move.prems(1) by (simp_all add: ss_fresh_def ss_ok_def)
  have "(\<forall>r \<in> set (in_sends inp). \<not> sr_stop r) \<or> call_over (v, pc)"
    using move vpc by (auto simp: sees_flag_def ss_fresh_def ss_ok_def list_all_length)
  from xchg_move [OF ok move.hyps(1) vpc t this] vpc t show ?case
    by (simp add: exchange_of_def call_move_def Let_def)
next
  case (reader ss stop1 stop2 polls reads)
  obtain run sh' where t: "reader_step stop1 stop2 polls reads (sl_sockReader (ss_logger ss), ss_shared ss) = (run, sh')" by fastforce
  from xchg_discharge [OF reader_step_frame(2,3) [OF t] cache_sub_dom [OF reader_step_frame(1) [OF t]]] t show ?case
    by (simp add: exchange_of_def sl_reader_thread_def)
next
  case (resender ss inp)
  let ?sh = "ss_shared ss"
  show ?case
  proof (cases "sl_dataResender (ss_logger ss)")
    case None
    then show ?thesis by (simp add: sl_resender_thread_def exchange_step.idle)
  next
    case (Some r)
    obtain r' sh' where t: "resender_step inp (r, ?sh) = (r', sh')" by fastforce
    have "shared_ok ?sh" "rs_pc_ok ?sh (rs_pc r)" using resender.prems(1) Some by (simp_all add: ss_fresh_def ss_ok_def)
    from resender_step_ok [OF this, of inp] t have "no_new_keys ?sh sh'"
      by (auto simp: resender_step_spec_def no_new_keys_same no_new_keys_shrinks split: resender_pc.splits simp del: resender_step.simps)
    then have dom: "dom (map_of (the_cache sh')) \<subseteq> dom (map_of (the_cache ?sh))"
      by (auto simp: no_new_keys_def uncached_def)
    have "exchange_step (xchg ?sh (ss_calls ss)) (xchg sh' (ss_calls ss))"
      using xchg_transmit resender_step_evolves [OF t] resender_step_frame [OF t] xchg_discharge [OF _ _ dom] by blast
    with t Some show ?thesis by (simp add: exchange_of_def sl_resender_thread_def del: resender_step.simps)
  qed
next
  case (other_item ss)
  then show ?case by (simp add: exchange_of_def exchange_step.idle)
next
  case (destructor ss)
  have "exchange_of (ss\<lparr>ss_logger := sl_destructor (ss_logger ss)\<rparr>) = exchange_of ss"
    by (simp add: exchange_of_def xchg_def sl_destructor_def tag_list_def the_cache_def sent_in_def ptr_GetTag_def)
  then show ?case by (simp add: exchange_step.idle)
qed

interpretation sx: simulation fresh_step ss_fresh exchange_step exchange_of
  by unfold_locales (auto simp: fresh_step_def ss_fresh_def intro: ss_ok_step ss_step_simulated)

section \<open>What the exchange keeps\<close>

text \<open>
  Only tags that were handed over are kept or sent, each call has its own; what a call that
  returned true handed over was sent, and what one that returned false did is not kept.
\<close>

definition call_good :: "exchange \<Rightarrow> string \<Rightarrow> call_status \<Rightarrow> bool" where
  "call_good x t st \<longleftrightarrow> t \<in> set (ex_tags x) \<and> (st = Returned True \<longrightarrow> t \<in> ex_sent x) \<and> (st = Returned False \<longrightarrow> t \<notin> ex_kept x)"

definition exchange_good :: "exchange \<Rightarrow> bool" where
  "exchange_good x \<longleftrightarrow> ex_kept x \<subseteq> set (ex_tags x) \<and> ex_sent x \<subseteq> set (ex_tags x)
     \<and> distinct (filter (\<lambda>t. t \<noteq> None) (map fst (ex_calls x)))
     \<and> (\<forall>t st. (Some t, st) \<in> set (ex_calls x) \<longrightarrow> call_good x t st)"

definition new_exchange :: exchange where
  "new_exchange = \<lparr>ex_tags = [], ex_kept = {}, ex_sent = {}, ex_calls = []\<rparr>"

lemma exchange_good_new: "exchange_good new_exchange"
  by (simp add: exchange_good_def new_exchange_def)

lemma own_call:
  assumes "exchange_good x" "(Some t, st) \<in> set (ex_calls x)" "(Some t, st') \<in> set (ex_calls x)"
  shows "st = st'"
proof -
  obtain i j where ij: "i < length (ex_calls x)" "ex_calls x ! i = (Some t, st)" "j < length (ex_calls x)" "ex_calls x ! j = (Some t, st')"
    using assms(2,3) by (auto simp: in_set_conv_nth)
  then have "i = j"
    using distinct_filter_nth [of "\<lambda>t. t \<noteq> None" "map fst (ex_calls x)" i j] assms(1) by (simp add: exchange_good_def)
  with ij show ?thesis by simp
qed

lemma calls_update:
  assumes "exchange_good x" "i < length (ex_calls x)" "ex_calls x ! i = (Some t, st)" "(Some u, st') \<in> set ((ex_calls x)[i := (Some t, new)])"
  shows "(u = t \<and> st' = new) \<or> (u \<noteq> t \<and> (Some u, st') \<in> set (ex_calls x))"
proof -
  obtain j where j: "j < length (ex_calls x)" "(ex_calls x)[i := (Some t, new)] ! j = (Some u, st')"
    using assms(4) by (auto simp: in_set_conv_nth)
  show ?thesis
  proof (cases "j = i")
    case False
    with j have "ex_calls x ! j = (Some u, st')" by simp
    moreover have "u \<noteq> t"
      using distinct_filter_nth [of "\<lambda>t. t \<noteq> None" "map fst (ex_calls x)" i j] assms(1-3) j(1) False calculation
      by (auto simp: exchange_good_def)
    ultimately show ?thesis using j(1) by (metis nth_mem)
  qed (use j in simp)
qed

lemma map_fst_update: "i < length xs \<Longrightarrow> xs ! i = (a, b) \<Longrightarrow> map fst (xs[i := (a, c)]) = map fst xs"
  by (simp add: map_update list_update_same_conv)

lemma exchange_good_step: "exchange_step x x' \<Longrightarrow> exchange_good x \<Longrightarrow> exchange_good x'"
proof (induction rule: exchange_step.induct)
  case (accept t x)
  have "Some t \<notin> fst ` set (ex_calls x)"
  proof
    assume "Some t \<in> fst ` set (ex_calls x)"
    then obtain st where "(Some t, st) \<in> set (ex_calls x)" by (auto simp: image_iff)
    with accept show False by (auto simp: exchange_good_def call_good_def)
  qed
  with accept show ?case by (auto simp: exchange_good_def call_good_def)
next
  case (keep t x)
  then show ?case using own_call [OF keep.prems keep.hyps] by (auto simp: exchange_good_def call_good_def)
next
  case (succeed i x t)
  let ?cs = "(ex_calls x)[i := (Some t, Returned True)]"
  have "(Some t, Trying) \<in> set (ex_calls x)" using succeed by (metis nth_mem)
  with succeed.prems have t: "t \<in> set (ex_tags x)" by (auto simp: exchange_good_def call_good_def)
  have "call_good (x\<lparr>ex_calls := ?cs\<rparr>) u st" if "(Some u, st) \<in> set ?cs" for u st
    using calls_update [OF succeed.prems succeed.hyps(1,2) that] t succeed.hyps(3) succeed.prems
    by (auto simp: exchange_good_def call_good_def)
  with succeed map_fst_update [OF succeed.hyps(1,2), of "Returned True"] show ?case by (simp add: exchange_good_def)
next
  case (give_up i x t T)
  let ?cs = "(ex_calls x)[i := (Some t, Returned False)]"
  let ?x = "x\<lparr>ex_kept := ex_kept x - {t}, ex_sent := ex_sent x \<union> T, ex_calls := ?cs\<rparr>"
  have "(Some t, Trying) \<in> set (ex_calls x)" using give_up by (metis nth_mem)
  with give_up.prems have t: "t \<in> set (ex_tags x)" by (auto simp: exchange_good_def call_good_def)
  have "call_good ?x u st" if "(Some u, st) \<in> set ?cs" for u st
    using calls_update [OF give_up.prems give_up.hyps(1,2) that] t give_up.prems
    by (auto simp: exchange_good_def call_good_def)
  with give_up map_fst_update [OF give_up.hyps(1,2), of "Returned False"] show ?case by (auto simp: exchange_good_def)
qed (auto simp: exchange_good_def call_good_def)

section \<open>Properties\<close>

text \<open>
  C8: \<open>SocketLogger\<close> refines the exchange. As long as tags do not repeat, every run of a new logger,
  with any number of calls and all its threads, is a run of the exchange from its empty state:
  each step of a call, a thread or the destructor is one step of it or leaves it unchanged.
  In every state a run reaches, only tags that were handed over are kept or sent, the tag of a
  call that returned true has been sent, and that of a call that returned false is not kept.
\<close>

theorem socket_refines_exchange:
  assumes "new_socket_logger socketFile ackMS resendMS connMS ids = Inr sl" "fresh_step\<^sup>*\<^sup>* (new_socket_system sl c) ss"
  shows "exchange_step\<^sup>*\<^sup>* new_exchange (exchange_of ss) \<and> exchange_good (exchange_of ss)"
proof -
  have new: "exchange_of (new_socket_system sl c) = new_exchange" "tag_list (sl_shared sl) = []"
    using assms(1)
    by (auto simp: new_socket_logger_def new_socket_system_def exchange_of_def xchg_def new_exchange_def tag_list_def
        the_cache_def sent_in_def split: sum.splits if_splits)
  have fresh: "ss_fresh (new_socket_system sl c)"
    using ss_ok_init [OF assms(1), of c] new(2) by (simp add: ss_fresh_def new_socket_system_def)
  from sx.simulates_runs [OF assms(2) fresh] sx.abstract_invariant [OF assms(2) fresh, of exchange_good]
    exchange_good_new exchange_good_step new(1)
  show ?thesis by simp
qed

lemma moves_fresh:
  "0 < length (ss_calls ss) \<Longrightarrow> list_all (\<lambda>inp. \<forall>r \<in> set (in_sends inp). \<not> sr_stop r) inps \<Longrightarrow> ss_fresh ss \<Longrightarrow>
   fresh_step\<^sup>*\<^sup>* ss (fold (call_move 0) inps ss)"
proof (induction inps arbitrary: ss)
  case (Cons inp inps)
  let ?ss = "call_move 0 inp ss"
  have st: "ss_step ss ?ss" by (rule ss_step.move) (use Cons.prems in \<open>auto simp: sees_flag_def\<close>)
  have ev: "evolves (ss_shared ss) (ss_shared ?ss)"
    using ss_step_same_call [OF st, of 0] Cons.prems(3) by (simp add: same_call_def ss_fresh_def)
  have "length (items (ss_shared ?ss)) = length (items (ss_shared ss))"
    using call_step_length [OF surjective_pairing] by (simp add: call_move_def Let_def split_beta)
  then have "tag_list (ss_shared ?ss) = tag_list (ss_shared ss)" by (rule evolves_xchg(1) [OF ev])
  with Cons.prems(3) st have f: "fresh_step ss ?ss" "ss_fresh ?ss"
    using ss_ok_step by (auto simp: fresh_step_def ss_fresh_def)
  have "fresh_step\<^sup>*\<^sup>* ?ss (fold (call_move 0) inps ?ss)"
    by (rule Cons.IH) (use Cons.prems f(2) in \<open>simp_all add: call_move_def Let_def split_beta\<close>)
  with f(1) show ?case by (simp add: converse_rtranclp_into_rtranclp)
qed simp

theorem socket_refines_exchange_witness:
  "''1'' \<in> ex_sent (exchange_of (sample_calls (replicate 5 (good_input 20))))"
proof -
  let ?b = "call_begin 0 ''s'' ''D'' sample_system" and ?ss = "sample_calls (replicate 5 (good_input 20))"
  obtain sl where sl: "new_socket_logger ''/s'' 1000 10 1000 [] = Inr sl" "sample_system = new_socket_system sl 0"
  proof -
    have "\<exists>sl. new_socket_logger ''/s'' 1000 10 1000 [] = Inr sl"
      by (simp add: new_socket_logger_def new_unix_client_def UnixSockAddr_def sun_path_size_def new_data_resender_def)
    then show thesis by (auto simp: sample_system_def sample_socket_logger_def intro: that)
  qed
  have b: "tag_list (ss_shared ?b) = [''1'']" "length (ss_calls ?b) = 1" by code_simp+
  then have f: "fresh_step sample_system ?b" using sample_begin by (simp add: fresh_step_def)
  have "ss_ok ?b" by (rule ss_reachable_ok [OF ss_reachable.step [OF sample_system_reachable sample_begin]])
  with b have "fresh_step\<^sup>*\<^sup>* ?b ?ss"
    unfolding sample_calls_def by (intro moves_fresh) (auto simp: ss_fresh_def list_all_iff good_input_def accepting_def)
  with f have "fresh_step\<^sup>*\<^sup>* (new_socket_system sl 0) ?ss"
    unfolding sl(2) [symmetric] by (rule converse_rtranclp_into_rtranclp)
  from socket_refines_exchange [OF sl(1) this] have "exchange_good (exchange_of ?ss)" by simp
  moreover have "map snd (ss_calls ?ss) = [C_Done True]" "map fst (ss_calls ?ss) = [Some 0]" "tag_list (ss_shared ?ss) = [''1'']"
    by code_simp+
  then have "(Some ''1'', Returned True) \<in> set (ex_calls (exchange_of ?ss))"
    by (auto simp: exchange_of_def xchg_def tag_of_def Cons_eq_map_conv)
  ultimately show ?thesis by (auto simp: exchange_good_def call_good_def)
qed

end
