(* ===== verification/Client_Threads.thy ===== *)
theory Client_Threads
  imports Socket_Client
begin

text \<open>
  \<open>SocketClient.cc\<close> once more, as its threads run it: any number of calls of \<open>Send\<close>, \<open>Read\<close>, \<open>Close\<close>
  and \<open>Stop\<close> on one client. A step is one access to what they share: the descriptor, the stop
  flag, a mutex, or a system call. The descriptor is read without its mutex in most places,
  so a call can work on one that another call has closed, or on the next connection.
\<close>

section \<open>State\<close>

definition EBADF :: int where "EBADF = 9"
definition POLLNVAL :: "16 word" where "POLLNVAL = 32"

text \<open>
  The mutexes are held by a call, named by its number. Of the kernel: the open descriptors with
  the number of their connection, how many sockets were made, and the bytes that \<open>send\<close> has
  accepted, piece by piece, with the connection and the call they belong to.
\<close>

record client_shared =
  cs_client :: socket_client
  m_fdMutex :: "nat option"
  m_sendMutex :: "nat option"
  open_fds :: "nat \<rightharpoonup> nat"
  num_conns :: nat
  pieces :: "(nat \<times> nat \<times> string) list"

datatype outcome = O_Done | O_Stop | O_Bytes string | O_Stopped | O_Threw exn

text \<open>What \<open>PollSocket\<close> was called for; for \<open>SendData\<close> with the bytes sent so far.\<close>

datatype poll_use = For_Send nat | For_Read

datatype client_pc =
  \<comment> \<open>\<open>Connect\<close>\<close>
    P_Test | P_Lock | P_Loop | P_Setup | P_Opened nat | P_Connecting | P_Refused | P_Reset | P_Retry | P_Unlock
  \<comment> \<open>\<open>Send\<close> and \<open>SendData\<close>\<close>
  | P_Check | P_Data | P_SendLock | P_Round nat | P_Send nat | P_Sys nat int | P_SendUnlock outcome
  \<comment> \<open>\<open>PollSocket\<close>\<close>
  | P_PollTest poll_use | P_PollLoad poll_use | P_Polling poll_use int
  \<comment> \<open>\<open>Close\<close>\<close>
  | P_Close outcome | P_Closing outcome | P_Closed outcome
  \<comment> \<open>\<open>Read\<close>\<close>
  | P_Entry | P_Wait | P_Ready | P_Recheck | P_Read | P_ReadSys int
  \<comment> \<open>\<open>Stop\<close>\<close>
  | P_Stop | P_StopSet | P_StopLock
  | P_Done outcome

text \<open>What a step observes outside of the client: clock and system calls.\<close>

record answers =
  an_timeout :: bool
  an_hangup :: bool
  an_runtime1 :: "32 word"
  an_runtime2 :: "32 word"
  an_socket :: sys
  an_connect :: sys
  an_poll :: "poll_res list"
  an_send :: sys
  an_read :: read_sys

section \<open>Steps\<close>

abbreviation sockfd :: "client_shared \<Rightarrow> int" where
  "sockfd sh \<equiv> m_sockfd (cs_client sh)"

abbreviation is_stopped :: "client_shared \<Rightarrow> bool" where
  "is_stopped sh \<equiv> m_stopClient (cs_client sh)"

definition set_sockfd :: "int \<Rightarrow> client_shared \<Rightarrow> client_shared" where
  "set_sockfd fd sh = sh\<lparr>cs_client := (cs_client sh)\<lparr>m_sockfd := fd\<rparr>\<rparr>"

definition connection_of :: "int \<Rightarrow> client_shared \<Rightarrow> nat option" where
  "connection_of fd sh = (if fd < 0 then None else open_fds sh (nat fd))"

definition close_fd :: "client_shared \<Rightarrow> client_shared" where
  "close_fd sh = sh\<lparr>open_fds := (open_fds sh)(nat (sockfd sh) := None)\<rparr>"

text \<open>\<open>None\<close> while the mutex is taken.\<close>

definition lock_fd :: "nat \<Rightarrow> client_pc \<Rightarrow> client_shared \<Rightarrow> (client_pc \<times> client_shared) option" where
  "lock_fd i pc sh = (if m_fdMutex sh = None then Some (pc, sh\<lparr>m_fdMutex := Some i\<rparr>) else None)"

definition bad_fd :: "string \<Rightarrow> client_shared \<Rightarrow> outcome" where
  "bad_fd what sh = O_Threw (Socket_Exception 0 (what @ to_string_int (sockfd sh)))"

fun poll_mode :: "poll_use \<Rightarrow> 16 word" where
  "poll_mode (For_Send sent) = POLLOUT"
| "poll_mode For_Read = POLLIN"

fun poll_ready :: "poll_use \<Rightarrow> client_pc" where
  "poll_ready (For_Send sent) = P_Send sent"
| "poll_ready For_Read = P_Read"

fun poll_failed :: "poll_use \<Rightarrow> outcome \<Rightarrow> client_pc" where
  "poll_failed (For_Send sent) res = P_SendUnlock res"
| "poll_failed For_Read res = P_Close res"

text \<open>
  A step of call \<open>i\<close>, for \<open>Send\<close> with its bytes; \<open>None\<close> when it waits. A descriptor that is not
  open gives \<open>EBADF\<close>, and to \<open>poll\<close> the event \<open>POLLNVAL\<close>, or \<open>POLLHUP\<close> if \<open>poll\<close> had begun when it
  was shut down; \<open>poll\<close> ignores a negative one, and without a time limit never returns.
\<close>

fun client_step :: "answers \<Rightarrow> nat \<Rightarrow> string \<Rightarrow> client_pc \<Rightarrow> client_shared \<Rightarrow> (client_pc \<times> client_shared) option" where
  "client_step an i buf P_Test sh = Some (if INVALID_SOCKET \<noteq> sockfd sh then P_Check else P_Lock, sh)"
| "client_step an i buf P_Lock sh = lock_fd i P_Loop sh"
| "client_step an i buf P_Loop sh = Some (if is_stopped sh then P_Unlock else P_Setup, sh)"
| "client_step an i buf P_Setup sh =
     (if INVALID_SOCKET \<noteq> sockfd sh then Some (P_Unlock, sh)
      else let sh1 = sh\<lparr>cs_client := (cs_client sh)\<lparr>m_numConnect := m_numConnect (cs_client sh) + 1\<rparr>\<rparr>
           in case an_socket an of
                Sys_Err e \<Rightarrow> Some (P_Retry, sh1)
              | Sys_Ok fd \<Rightarrow> Some (P_Opened fd, sh1\<lparr>open_fds := (open_fds sh)(fd \<mapsto> num_conns sh),
                                                   num_conns := num_conns sh + 1\<rparr>))"
| "client_step an i buf (P_Opened fd) sh = Some (P_Connecting, set_sockfd (int fd) sh)"
| "client_step an i buf P_Connecting sh =
     (case an_connect an of
        Sys_Err e \<Rightarrow> Some (P_Refused, sh)
      | Sys_Ok n \<Rightarrow> Some (P_Unlock, sh))"
| "client_step an i buf P_Refused sh = Some (P_Reset, close_fd sh)"
| "client_step an i buf P_Reset sh = Some (P_Retry, set_sockfd INVALID_SOCKET sh)"
| "client_step an i buf P_Retry sh =
     Some (if m_connRetryTimeoutMS (cs_client sh) \<le> an_runtime1 an \<or> IsRetryTimeout (an_runtime2 an) (cs_client sh)
           then P_Unlock else P_Loop, sh)"
| "client_step an i buf P_Unlock sh = Some (P_Check, sh\<lparr>m_fdMutex := None\<rparr>)"
| "client_step an i buf P_Check sh =
     Some (if sockfd sh < 0 then P_Close (bad_fd ''SocketClient Send(): invalid sockfd '' sh) else P_Data, sh)"
| "client_step an i buf P_Data sh =
     Some (if sockfd sh < 0 then P_Close (bad_fd ''SocketClient SendData(): invalid sockfd '' sh) else P_SendLock, sh)"
| "client_step an i buf P_SendLock sh =
     (if m_sendMutex sh = None then Some (P_Round 0, sh\<lparr>m_sendMutex := Some i\<rparr>) else None)"
| "client_step an i buf (P_Round sent) sh =
     Some (if is_stopped sh \<or> sent = length buf then P_SendUnlock O_Done else P_PollTest (For_Send sent), sh)"
| "client_step an i buf (P_Send sent) sh = Some (P_Sys sent (sockfd sh), sh)"
| "client_step an i buf (P_Sys sent fd) sh =
     (case connection_of fd sh of
        None \<Rightarrow> Some (P_SendUnlock (O_Threw (Socket_Exception EBADF ''socket send()'')), sh)
      | Some conn \<Rightarrow>
          (case an_send an of
             Sys_Ok n \<Rightarrow> Some (P_Round (sent + n), sh\<lparr>pieces := pieces sh @ [(conn, i, take n (drop sent buf))]\<rparr>)
           | Sys_Err e \<Rightarrow>
               if e = EINTR then Some (P_Send sent, sh)
               else if e = EAGAIN then Some (P_Round sent, sh)
               else Some (P_SendUnlock (O_Threw (Socket_Exception e ''socket send()'')), sh)))"
| "client_step an i buf (P_SendUnlock res) sh =
     Some (if res = O_Done then P_Done O_Done else P_Close res, sh\<lparr>m_sendMutex := None\<rparr>)"
| "client_step an i buf (P_PollTest use) sh =
     Some (if sockfd sh < 0 then poll_failed use (bad_fd ''PollSocket(): invalid sockfd='' sh) else P_PollLoad use, sh)"
| "client_step an i buf (P_PollLoad use) sh = Some (P_Polling use (sockfd sh), sh)"
| "client_step an i buf (P_Polling use fd) sh =
     (if fd < 0 then None
      else case PollSocket (poll_mode use) fd
                  (if connection_of fd sh = None then [Poll_Ok (if an_hangup an then POLLHUP else POLLNVAL) 0] else an_poll an) of
             None \<Rightarrow> None
           | Some (Inl e) \<Rightarrow> Some (poll_failed use (O_Threw e), sh)
           | Some (Inr _) \<Rightarrow> Some (poll_ready use, sh))"
| "client_step an i buf (P_Close res) sh = lock_fd i (P_Closing res) sh"
| "client_step an i buf (P_Closing res) sh =
     (if INVALID_SOCKET \<noteq> sockfd sh then Some (P_Closed res, close_fd sh)
      else Some (P_Done res, sh\<lparr>m_fdMutex := None\<rparr>))"
| "client_step an i buf (P_Closed res) sh = Some (P_Done res, (set_sockfd INVALID_SOCKET sh)\<lparr>m_fdMutex := None\<rparr>)"
| "client_step an i buf P_Entry sh = Some (if is_stopped sh then P_Done O_Stopped else P_Wait, sh)"
| "client_step an i buf P_Wait sh =
     (if is_stopped sh \<or> INVALID_SOCKET \<noteq> sockfd sh \<or> an_timeout an then lock_fd i P_Ready sh else None)"
| "client_step an i buf P_Ready sh =
     Some (if \<not> is_stopped sh \<and> INVALID_SOCKET = sockfd sh
           then P_Done (O_Threw (Socket_Exception 0 ''WaitForSocketToBeReady: socket fd is invalid''))
           else P_Recheck, sh\<lparr>m_fdMutex := None\<rparr>)"
| "client_step an i buf P_Recheck sh = Some (if is_stopped sh then P_Done O_Stopped else P_PollTest For_Read, sh)"
| "client_step an i buf P_Read sh = Some (P_ReadSys (sockfd sh), sh)"
| "client_step an i buf (P_ReadSys fd) sh =
     (case (if connection_of fd sh = None then Read_Err EBADF else an_read an) of
        Read_Ok s \<Rightarrow> Some (if s = [] then P_Close (O_Bytes []) else P_Done (O_Bytes s), sh)
      | Read_Err e \<Rightarrow>
          if e = EINTR then Some (P_Read, sh)
          else if e = EAGAIN then Some (P_Done (O_Bytes []), sh)
          else Some (P_Close (O_Threw (Socket_Exception e ''SocketClient read()'')), sh))"
| "client_step an i buf P_Stop sh = Some (if is_stopped sh then P_Close O_Stop else P_StopSet, sh)"
| "client_step an i buf P_StopSet sh = Some (P_StopLock, sh\<lparr>cs_client := (cs_client sh)\<lparr>m_stopClient := True\<rparr>\<rparr>)"
| "client_step an i buf P_StopLock sh = (if m_fdMutex sh = None then Some (P_Close O_Stop, sh) else None)"
| "client_step an i buf (P_Done res) sh = None"

text \<open>
  The kernel gives out descriptors that are not in use and does not accept more bytes than it is
  offered.
\<close>

definition kernel_ok :: "answers \<Rightarrow> string \<Rightarrow> client_pc \<Rightarrow> client_shared \<Rightarrow> bool" where
  "kernel_ok an buf pc sh \<longleftrightarrow>
     (case (pc, an_socket an) of (P_Setup, Sys_Ok fd) \<Rightarrow> open_fds sh fd = None | _ \<Rightarrow> True)
     \<and> (case (pc, an_send an) of (P_Sys sent fd, Sys_Ok n) \<Rightarrow> sent + n \<le> length buf | _ \<Rightarrow> True)"

record client_system =
  cy_shared :: client_shared
  calls :: "(string \<times> client_pc) list"

definition new_client_system :: "socket_client \<Rightarrow> client_system" where
  "new_client_system c =
     \<lparr>cy_shared = \<lparr>cs_client = c, m_fdMutex = None, m_sendMutex = None, open_fds = Map.empty, num_conns = 0, pieces = []\<rparr>,
      calls = []\<rparr>"

definition begin_Send :: "string \<Rightarrow> string \<times> client_pc" where
  "begin_Send data = (c_str data, if c_str data = [] then P_Done O_Done else P_Test)"

inductive cstep :: "client_system \<Rightarrow> client_system \<Rightarrow> bool" where
  send: "cstep s (s\<lparr>calls := calls s @ [begin_Send data]\<rparr>)"
| read: "cstep s (s\<lparr>calls := calls s @ [([], P_Entry)]\<rparr>)"
| close: "cstep s (s\<lparr>calls := calls s @ [([], P_Close O_Done)]\<rparr>)"
| stop: "cstep s (s\<lparr>calls := calls s @ [([], P_Stop)]\<rparr>)"
| move: "i < length (calls s) \<Longrightarrow> calls s ! i = (buf, pc) \<Longrightarrow> kernel_ok an buf pc (cy_shared s) \<Longrightarrow>
    client_step an i buf pc (cy_shared s) = Some (pc', sh') \<Longrightarrow>
    cstep s (s\<lparr>cy_shared := sh', calls := (calls s)[i := (buf, pc')]\<rparr>)"

text \<open>The client of either constructor, the one for a local socket and the one for a port.\<close>

inductive client_reachable :: "client_system \<Rightarrow> bool" where
  init: "new_unix_client socketfile connMS = Inr c \<Longrightarrow> client_reachable (new_client_system c)"
| init_tcp: "new_tcp_client port connMS = Inr c \<Longrightarrow> client_reachable (new_client_system c)"
| step: "client_reachable s \<Longrightarrow> cstep s s' \<Longrightarrow> client_reachable s'"

section \<open>The mutexes\<close>

fun holds_fd :: "client_pc \<Rightarrow> bool" where
  "holds_fd P_Loop = True"
| "holds_fd P_Setup = True"
| "holds_fd (P_Opened fd) = True"
| "holds_fd P_Connecting = True"
| "holds_fd P_Refused = True"
| "holds_fd P_Reset = True"
| "holds_fd P_Retry = True"
| "holds_fd P_Unlock = True"
| "holds_fd (P_Closing res) = True"
| "holds_fd (P_Closed res) = True"
| "holds_fd P_Ready = True"
| "holds_fd _ = False"

fun sending :: "poll_use \<Rightarrow> bool" where
  "sending (For_Send n) = True"
| "sending For_Read = False"

fun holds_send :: "client_pc \<Rightarrow> bool" where
  "holds_send (P_Round n) = True"
| "holds_send (P_Send n) = True"
| "holds_send (P_Sys n fd) = True"
| "holds_send (P_SendUnlock res) = True"
| "holds_send (P_PollTest use) = sending use"
| "holds_send (P_PollLoad use) = sending use"
| "holds_send (P_Polling use fd) = sending use"
| "holds_send _ = False"

lemma holds_fd_poll [simp]: "\<not> holds_fd (poll_ready use)" "\<not> holds_fd (poll_failed use res)"
  by (cases use; simp)+

lemma holds_send_poll [simp]: "holds_send (poll_ready use) = sending use" "holds_send (poll_failed use res) = sending use"
  by (cases use; simp)+

lemma set_sockfd_frame [simp]:
  "m_fdMutex (set_sockfd fd sh) = m_fdMutex sh" "m_sendMutex (set_sockfd fd sh) = m_sendMutex sh"
  "open_fds (set_sockfd fd sh) = open_fds sh" "num_conns (set_sockfd fd sh) = num_conns sh" "pieces (set_sockfd fd sh) = pieces sh"
  "sockfd (set_sockfd fd sh) = fd" "is_stopped (set_sockfd fd sh) = is_stopped sh"
  by (simp_all add: set_sockfd_def)

lemma close_fd_frame [simp]:
  "m_fdMutex (close_fd sh) = m_fdMutex sh" "m_sendMutex (close_fd sh) = m_sendMutex sh"
  "num_conns (close_fd sh) = num_conns sh" "pieces (close_fd sh) = pieces sh" "cs_client (close_fd sh) = cs_client sh"
  by (simp_all add: close_fd_def)

lemmas step_splits = if_splits option.splits sum.splits sys.splits read_sys.splits

lemma step_fdMutex:
  assumes "client_step an i buf pc sh = Some (pc', sh')" "holds_fd pc \<longleftrightarrow> m_fdMutex sh = Some i"
  shows "holds_fd pc' \<longleftrightarrow> m_fdMutex sh' = Some i"
  by (cases pc) (use assms in \<open>auto simp: lock_fd_def Let_def split: step_splits\<close>)

lemma step_fdMutex_other:
  assumes "client_step an i buf pc sh = Some (pc', sh')" "holds_fd pc \<longleftrightarrow> m_fdMutex sh = Some i"
  shows "m_fdMutex sh' = m_fdMutex sh \<or> m_fdMutex sh = None \<and> m_fdMutex sh' = Some i \<or> m_fdMutex sh = Some i \<and> m_fdMutex sh' = None"
  by (cases pc) (use assms in \<open>auto simp: lock_fd_def Let_def split: step_splits\<close>)

lemma step_sendMutex:
  assumes "client_step an i buf pc sh = Some (pc', sh')" "holds_send pc \<longleftrightarrow> m_sendMutex sh = Some i"
  shows "holds_send pc' \<longleftrightarrow> m_sendMutex sh' = Some i"
  by (cases pc) (use assms in \<open>auto simp: lock_fd_def Let_def split: step_splits\<close>)

lemma step_sendMutex_other:
  assumes "client_step an i buf pc sh = Some (pc', sh')" "holds_send pc \<longleftrightarrow> m_sendMutex sh = Some i"
  shows "m_sendMutex sh' = m_sendMutex sh \<or> m_sendMutex sh = None \<and> m_sendMutex sh' = Some i \<or> m_sendMutex sh = Some i \<and> m_sendMutex sh' = None"
  by (cases pc) (use assms in \<open>auto simp: lock_fd_def Let_def split: step_splits\<close>)

section \<open>Descriptors\<close>

text \<open>
  The descriptor that is recorded is the open one, but for the moments in which the holder of the
  mutex has opened or closed one and not yet recorded it.
\<close>

definition fds_as :: "client_pc \<Rightarrow> client_shared \<Rightarrow> bool" where
  "fds_as pc sh \<longleftrightarrow> ran (open_fds sh) \<subseteq> {c. Suc c = num_conns sh} \<and>
     (case pc of
        P_Opened fd \<Rightarrow> sockfd sh = INVALID_SOCKET \<and> dom (open_fds sh) = {fd}
      | P_Connecting \<Rightarrow> 0 \<le> sockfd sh \<and> dom (open_fds sh) = {nat (sockfd sh)}
      | P_Refused \<Rightarrow> 0 \<le> sockfd sh \<and> dom (open_fds sh) = {nat (sockfd sh)}
      | P_Reset \<Rightarrow> 0 \<le> sockfd sh \<and> open_fds sh = Map.empty
      | P_Closed res \<Rightarrow> 0 \<le> sockfd sh \<and> open_fds sh = Map.empty
      | _ \<Rightarrow> if sockfd sh = INVALID_SOCKET then open_fds sh = Map.empty
              else 0 \<le> sockfd sh \<and> dom (open_fds sh) = {nat (sockfd sh)})"

lemma step_fds_frame:
  assumes "client_step an i buf pc sh = Some (pc', sh')" "\<not> holds_fd pc"
  shows "open_fds sh' = open_fds sh \<and> sockfd sh' = sockfd sh \<and> num_conns sh' = num_conns sh"
  by (cases pc) (use assms in \<open>auto simp: lock_fd_def Let_def split: step_splits\<close>)

lemma fds_as_frame:
  "open_fds sh' = open_fds sh \<Longrightarrow> sockfd sh' = sockfd sh \<Longrightarrow> num_conns sh' = num_conns sh \<Longrightarrow> fds_as pc sh' = fds_as pc sh"
  by (simp add: fds_as_def split: client_pc.split)

lemma step_fds:
  assumes "client_step an i buf pc sh = Some (pc', sh')" "fds_as pc sh" "holds_fd pc" "kernel_ok an buf pc sh"
  shows "fds_as pc' sh'"
proof (cases pc)
  case P_Setup
  show ?thesis
  proof (cases "an_socket an")
    case (Sys_Ok fd)
    have "ran ((open_fds sh)(fd \<mapsto> num_conns sh)) = {num_conns sh}" if "open_fds sh = Map.empty" using that by simp
    with P_Setup Sys_Ok assms show ?thesis by (auto simp: fds_as_def Let_def split: if_splits)
  qed (use P_Setup assms in \<open>auto simp: fds_as_def Let_def split: if_splits\<close>)
next
  case (P_Opened fd)
  with assms show ?thesis by (auto simp: fds_as_def)
next
  case P_Refused
  then have "open_fds (close_fd sh) = Map.empty" using assms(2) by (auto simp: fds_as_def close_fd_def dom_def fun_eq_iff)
  with P_Refused assms show ?thesis by (auto simp: fds_as_def)
next
  case (P_Closing res)
  show ?thesis
  proof (cases "sockfd sh = INVALID_SOCKET")
    case False
    with P_Closing have "open_fds (close_fd sh) = Map.empty" "0 \<le> sockfd sh"
      using assms(2) by (auto simp: fds_as_def close_fd_def dom_def fun_eq_iff)
    with False P_Closing assms show ?thesis by (auto simp: fds_as_def)
  qed (use P_Closing assms in \<open>auto simp: fds_as_def\<close>)
next
  case P_Unlock
  then have "pc' = P_Check" "sh' = sh\<lparr>m_fdMutex := None\<rparr>" using assms(1) by simp_all
  with P_Unlock assms(2) show ?thesis by (simp add: fds_as_def)
next
  case P_Ready
  then have "pc' = P_Recheck \<or> (\<exists>res. pc' = P_Done res)" "sh' = sh\<lparr>m_fdMutex := None\<rparr>"
    using assms(1) by (auto split: if_splits)
  with P_Ready assms(2) show ?thesis by (auto simp: fds_as_def)
next
  case P_Connecting
  with assms show ?thesis by (auto simp: fds_as_def INVALID_SOCKET_def split: sys.splits)
qed (use assms in \<open>auto simp: fds_as_def split: if_splits\<close>)

section \<open>The invariant of mutexes and descriptors\<close>

definition mutexes_ok :: "client_system \<Rightarrow> bool" where
  "mutexes_ok s \<longleftrightarrow>
     (\<forall>i. (m_fdMutex (cy_shared s) = Some i \<longleftrightarrow> i < length (calls s) \<and> holds_fd (snd (calls s ! i)))
        \<and> (m_sendMutex (cy_shared s) = Some i \<longleftrightarrow> i < length (calls s) \<and> holds_send (snd (calls s ! i))))"

lemma mutexes_okD:
  "mutexes_ok s \<Longrightarrow> m_fdMutex (cy_shared s) = Some i \<Longrightarrow> i < length (calls s) \<and> holds_fd (snd (calls s ! i))"
  "mutexes_ok s \<Longrightarrow> m_sendMutex (cy_shared s) = Some i \<Longrightarrow> i < length (calls s) \<and> holds_send (snd (calls s ! i))"
  unfolding mutexes_ok_def by blast+

definition holder :: "client_system \<Rightarrow> client_pc" where
  "holder s = (case m_fdMutex (cy_shared s) of None \<Rightarrow> P_Test | Some i \<Rightarrow> snd (calls s ! i))"

definition fresh_call :: "string \<times> client_pc \<Rightarrow> bool" where
  "fresh_call c \<longleftrightarrow> c \<in> {([], P_Done O_Done), ([], P_Entry), ([], P_Close O_Done), ([], P_Stop)} \<or> snd c = P_Test"

lemma fresh_begin_Send: "fresh_call (begin_Send data)"
  by (simp add: fresh_call_def begin_Send_def)

text \<open>A step either adds a fresh call or moves a call.\<close>

lemma cstep_cases [consumes 1, case_names new move]:
  assumes "cstep s s'"
  obtains c where "s' = s\<lparr>calls := calls s @ [c]\<rparr>" "fresh_call c"
  | i buf pc an pc' sh' where "i < length (calls s)" "calls s ! i = (buf, pc)" "kernel_ok an buf pc (cy_shared s)"
      "client_step an i buf pc (cy_shared s) = Some (pc', sh')"
      "s' = s\<lparr>cy_shared := sh', calls := (calls s)[i := (buf, pc')]\<rparr>"
  using assms by (cases rule: cstep.cases) (auto simp: fresh_call_def intro: that fresh_begin_Send)

lemma fresh_holds: "fresh_call c \<Longrightarrow> \<not> holds_fd (snd c) \<and> \<not> holds_send (snd c)"
  by (auto simp: fresh_call_def)

lemma mutexes_ok_step: "cstep s s' \<Longrightarrow> mutexes_ok s \<Longrightarrow> mutexes_ok s'"
proof (induction rule: cstep_cases)
  case (new c)
  have "(m_fdMutex (cy_shared s) = Some j \<longleftrightarrow> j < Suc (length (calls s)) \<and> holds_fd (snd ((calls s @ [c]) ! j)))
      \<and> (m_sendMutex (cy_shared s) = Some j \<longleftrightarrow> j < Suc (length (calls s)) \<and> holds_send (snd ((calls s @ [c]) ! j)))" for j
    using new(3) fresh_holds [OF new(2)] unfolding mutexes_ok_def by (cases "j = length (calls s)") (simp_all add: nth_append less_Suc_eq)
  with new(1) show ?case by (simp add: mutexes_ok_def)
next
  case (move i buf pc an pc' sh')
  have hold: "holds_fd pc \<longleftrightarrow> m_fdMutex (cy_shared s) = Some i" "holds_send pc \<longleftrightarrow> m_sendMutex (cy_shared s) = Some i"
    using move by (simp_all add: mutexes_ok_def)
  note fd = step_fdMutex [OF move(4) hold(1)] step_fdMutex_other [OF move(4) hold(1)]
    and send = step_sendMutex [OF move(4) hold(2)] step_sendMutex_other [OF move(4) hold(2)]
  have "(m_fdMutex sh' = Some j \<longleftrightarrow> j < length (calls s) \<and> holds_fd (snd ((calls s)[i := (buf, pc')] ! j)))
      \<and> (m_sendMutex sh' = Some j \<longleftrightarrow> j < length (calls s) \<and> holds_send (snd ((calls s)[i := (buf, pc')] ! j)))" for j
  proof (cases "j = i")
    case False
    then have "m_fdMutex sh' = Some j \<longleftrightarrow> m_fdMutex (cy_shared s) = Some j" "m_sendMutex sh' = Some j \<longleftrightarrow> m_sendMutex (cy_shared s) = Some j"
      using fd(2) send(2) by auto
    with False move(6) show ?thesis by (simp add: mutexes_ok_def)
  qed (use move(1) fd(1) send(1) in simp)
  with move(5) show ?case by (simp add: mutexes_ok_def)
qed

lemma holder_None: "m_fdMutex (cy_shared s) = None \<Longrightarrow> holder s = P_Test"
  by (simp add: holder_def)

text \<open>Whoever gets the mutex finds descriptor and record in agreement, and leaves them so.\<close>

lemma fds_as_simps [simp]:
  "fds_as P_Loop = fds_as P_Test" "fds_as (P_Closing res) = fds_as P_Test" "fds_as P_Ready = fds_as P_Test"
  "fds_as P_Check = fds_as P_Test" "fds_as P_Recheck = fds_as P_Test" "fds_as (P_Done res) = fds_as P_Test"
  by (simp_all add: fds_as_def fun_eq_iff)

lemma gets_mutex:
  "client_step an i buf pc sh = Some (pc', sh') \<Longrightarrow> \<not> holds_fd pc \<Longrightarrow> holds_fd pc' \<Longrightarrow> fds_as pc' = fds_as P_Test"
  by (cases pc) (auto simp: lock_fd_def Let_def split: step_splits)

lemma leaves_mutex:
  "client_step an i buf pc sh = Some (pc', sh') \<Longrightarrow> holds_fd pc \<Longrightarrow> \<not> holds_fd pc' \<Longrightarrow> fds_as pc' = fds_as P_Test"
  by (cases pc) (auto simp: lock_fd_def Let_def split: step_splits)


lemma descriptors_step:
  assumes "cstep s s'" "mutexes_ok s" "fds_as (holder s) (cy_shared s)"
  shows "fds_as (holder s') (cy_shared s')"
  using assms
proof (induction rule: cstep_cases)
  case (new c)
  have "i < length (calls s)" if "m_fdMutex (cy_shared s) = Some i" for i
    using mutexes_okD(1) [OF new(3) that] by simp
  with new(1) have "holder s' = holder s"
    by (simp add: holder_def nth_append split: option.split)
  with new show ?case by simp
next
  case (move i buf pc an pc' sh')
  let ?sh = "cy_shared s"
  have hold: "holds_fd pc \<longleftrightarrow> m_fdMutex ?sh = Some i" using move by (simp add: mutexes_ok_def)
  note fd = step_fdMutex [OF move(4) hold] step_fdMutex_other [OF move(4) hold]
  have self: "m_fdMutex sh' = Some i \<Longrightarrow> holder s' = pc'" using move(1,5) by (simp add: holder_def)
  show ?case
  proof (cases "holds_fd pc")
    case True
    then have "fds_as pc ?sh" using hold move(2,7) by (simp add: holder_def)
    from step_fds [OF move(4) this True move(3)] have ok: "fds_as pc' sh'" .
    show ?thesis
    proof (cases "holds_fd pc'")
      case True
      with ok fd(1) self move(5) show ?thesis by simp
    next
      case False
      then have "m_fdMutex sh' = None" using fd hold True by auto
      with ok leaves_mutex [OF move(4) True False] move(5) show ?thesis by (simp add: holder_def)
    qed
  next
    case False
    then have same: "fds_as p sh' = fds_as p ?sh" for p using fds_as_frame step_fds_frame [OF move(4)] by metis
    show ?thesis
    proof (cases "holds_fd pc'")
      case True
      then have "m_fdMutex sh' = Some i" "m_fdMutex ?sh = None" using fd False hold by auto
      with self move(5,7) same gets_mutex [OF move(4) False True] show ?thesis by (simp add: holder_def)
    next
      case np: False
      then have m: "m_fdMutex sh' = m_fdMutex ?sh" "m_fdMutex ?sh \<noteq> Some i" using fd False hold by auto
      then have "holder s' = holder s" using move(5) by (cases "m_fdMutex ?sh") (auto simp: holder_def)
      with move(5,7) same show ?thesis by simp
    qed
  qed
qed

section \<open>What has been sent\<close>

definition senders :: "client_shared \<Rightarrow> nat list" where
  "senders sh = map (fst \<circ> snd) (pieces sh)"

definition bytes_of_call :: "nat \<Rightarrow> client_shared \<Rightarrow> string" where
  "bytes_of_call i sh = concat (map (snd \<circ> snd) (filter (\<lambda>p. fst (snd p) = i) (pieces sh)))"

text \<open>Inside \<open>SendData\<close>: how many bytes have been sent.\<close>

fun use_progress :: "poll_use \<Rightarrow> nat option" where
  "use_progress (For_Send n) = Some n"
| "use_progress For_Read = None"

fun progress :: "client_pc \<Rightarrow> nat option" where
  "progress (P_Round n) = Some n"
| "progress (P_Send n) = Some n"
| "progress (P_Sys n fd) = Some n"
| "progress (P_PollTest use) = use_progress use"
| "progress (P_PollLoad use) = use_progress use"
| "progress (P_Polling use fd) = use_progress use"
| "progress _ = None"

text \<open>Before \<open>SendData\<close> has its mutex.\<close>

definition early :: "client_pc \<Rightarrow> bool" where
  "early pc \<longleftrightarrow> pc \<in> {P_Test, P_Lock, P_Loop, P_Setup, P_Connecting, P_Refused, P_Reset, P_Retry, P_Unlock, P_Check, P_Data, P_SendLock}
     \<or> (\<exists>fd. pc = P_Opened fd)"

text \<open>Returning without an exception.\<close>

definition says_done :: "client_pc \<Rightarrow> bool" where
  "says_done pc \<longleftrightarrow> pc \<in> {P_SendUnlock O_Done, P_Close O_Done, P_Closing O_Done, P_Closed O_Done, P_Done O_Done}"

definition sent_ok :: "nat \<Rightarrow> string \<Rightarrow> client_pc \<Rightarrow> client_shared \<Rightarrow> bool" where
  "sent_ok i buf pc sh \<longleftrightarrow>
     (case progress pc of
        Some n \<Rightarrow> n \<le> length buf \<and> bytes_of_call i sh = take n buf
      | None \<Rightarrow> prefix (bytes_of_call i sh) buf)
     \<and> (early pc \<longrightarrow> i \<notin> set (senders sh))
     \<and> (says_done pc \<longrightarrow> bytes_of_call i sh = buf \<or> is_stopped sh)"

lemma step_pieces:
  assumes "client_step an i buf pc sh = Some (pc', sh')"
  shows "pieces sh' = pieces sh \<and> (\<forall>n fd. pc = P_Sys n fd \<longrightarrow> (\<forall>k. pc' = P_Round k \<longrightarrow> k = n))
    \<or> (\<exists>n fd conn k. pc = P_Sys n fd \<and> pc' = P_Round (n + k) \<and> connection_of fd sh = Some conn \<and> an_send an = Sys_Ok k
         \<and> sh' = sh\<lparr>pieces := pieces sh @ [(conn, i, take k (drop n buf))]\<rparr>)"
  by (cases pc) (use assms in \<open>auto simp: lock_fd_def Let_def close_fd_def split: step_splits\<close>)

lemma step_stopped: "client_step an i buf pc sh = Some (pc', sh') \<Longrightarrow> is_stopped sh \<Longrightarrow> is_stopped sh'"
  by (cases pc) (auto simp: lock_fd_def Let_def split: step_splits)

lemma no_bytes: "i \<notin> set (senders sh) \<Longrightarrow> bytes_of_call i sh = []"
  by (force simp: bytes_of_call_def senders_def)

lemma pc_kinds [simp]:
  "progress (poll_ready use) = use_progress use" "\<not> early (poll_ready use)" "\<not> says_done (poll_ready use)"
  "progress (poll_failed use res) = None" "\<not> early (poll_failed use res)" "\<not> says_done (poll_failed use (O_Threw e))"
  "\<not> says_done (poll_failed use (bad_fd what sh))"
  by (cases use; simp add: early_def says_done_def bad_fd_def)+

lemma same_pieces:
  assumes "pieces sh' = pieces sh"
  shows "bytes_of_call i sh' = bytes_of_call i sh" "senders sh' = senders sh"
  using assms by (simp_all add: bytes_of_call_def senders_def)

lemma step_early:
  "client_step an i buf pc sh = Some (pc', sh') \<Longrightarrow> early pc' \<Longrightarrow> early pc"
  by (cases pc) (auto simp: early_def lock_fd_def Let_def elim: poll_failed.elims poll_ready.elims split: step_splits)

lemma step_progress:
  "client_step an i buf pc sh = Some (pc', sh') \<Longrightarrow> progress pc' = Some n \<Longrightarrow>
   progress pc = Some n \<or> n = 0 \<and> pc = P_SendLock \<or> (\<exists>k fd. pc = P_Sys k fd \<and> pc' = P_Round n)"
  by (cases pc) (auto simp: lock_fd_def Let_def split: step_splits)

lemma step_says_done:
  "client_step an i buf pc sh = Some (pc', sh') \<Longrightarrow> says_done pc' \<Longrightarrow>
   says_done pc \<or> (\<exists>n. pc = P_Round n \<and> (is_stopped sh \<or> n = length buf))"
  by (cases pc) (auto simp: says_done_def lock_fd_def bad_fd_def Let_def elim: poll_failed.elims poll_ready.elims split: step_splits)

lemma sent_ok_prefix: "sent_ok i buf pc sh \<Longrightarrow> prefix (bytes_of_call i sh) buf"
  by (auto simp: sent_ok_def take_is_prefix split: option.splits)

lemma sent_ok_done: "sent_ok i buf (P_Done O_Done) sh \<Longrightarrow> bytes_of_call i sh = buf \<or> is_stopped sh"
  by (simp add: sent_ok_def says_done_def)

lemma sent_ok_quiet:
  assumes "client_step an i buf pc sh = Some (pc', sh')" "sent_ok i buf pc sh"
    "pieces sh' = pieces sh" "\<forall>n fd. pc = P_Sys n fd \<longrightarrow> (\<forall>k. pc' = P_Round k \<longrightarrow> k = n)"
  shows "sent_ok i buf pc' sh'"
proof -
  note same = same_pieces [OF assms(3)]
  have "n \<le> length buf \<and> bytes_of_call i sh = take n buf" if n: "progress pc' = Some n" for n
  proof -
    consider "progress pc = Some n" | "n = 0" "pc = P_SendLock" | k fd where "pc = P_Sys k fd" "pc' = P_Round n"
      using step_progress [OF assms(1) n] by blast
    then show ?thesis
    proof cases
      case 2
      with assms(2) show ?thesis by (simp add: sent_ok_def early_def no_bytes)
    next
      case 3
      with assms(4) have "progress pc = Some n" by simp
      with assms(2) show ?thesis by (simp add: sent_ok_def)
    qed (use assms(2) in \<open>simp add: sent_ok_def\<close>)
  qed
  moreover have "early pc' \<longrightarrow> i \<notin> set (senders sh)"
    using step_early [OF assms(1)] assms(2) by (auto simp: sent_ok_def)
  moreover have "bytes_of_call i sh = buf \<or> is_stopped sh'" if d: "says_done pc'"
    using step_says_done [OF assms(1) d] assms(2) step_stopped [OF assms(1)] by (auto simp: sent_ok_def)
  ultimately show ?thesis
    using sent_ok_prefix [OF assms(2)] by (simp add: sent_ok_def same split: option.split)
qed

lemma bytes_append:
  "bytes_of_call j (sh\<lparr>pieces := pieces sh @ [(conn, i, x)]\<rparr>) = bytes_of_call j sh @ (if j = i then x else [])"
  "senders (sh\<lparr>pieces := pieces sh @ [(conn, i, x)]\<rparr>) = senders sh @ [i]"
  by (simp_all add: bytes_of_call_def senders_def)

lemma sent_ok_piece:
  assumes "sent_ok i buf (P_Sys n fd) sh" "n + k \<le> length buf"
  shows "sent_ok i buf (P_Round (n + k)) (sh\<lparr>pieces := pieces sh @ [(conn, i, take k (drop n buf))]\<rparr>)"
  using assms by (simp add: sent_ok_def bytes_append early_def says_done_def take_add)

lemma sent_ok_other:
  "sent_ok j buf pc sh \<Longrightarrow> bytes_of_call j sh' = bytes_of_call j sh \<Longrightarrow> (j \<in> set (senders sh') \<longleftrightarrow> j \<in> set (senders sh)) \<Longrightarrow>
   (is_stopped sh \<longrightarrow> is_stopped sh') \<Longrightarrow> sent_ok j buf pc sh'"
  unfolding sent_ok_def by (cases "is_stopped sh") (simp_all cong: option.case_cong)

text \<open>
  The pieces of a call stand together, the connections are used one after the other, and a call
  that may go on sending was the last to send.
\<close>

definition order_ok :: "client_shared \<Rightarrow> bool" where
  "order_ok sh \<longleftrightarrow> distinct (remdups_adj (senders sh)) \<and> sorted (map fst (pieces sh)) \<and> (\<forall>p \<in> set (pieces sh). fst p < num_conns sh)
     \<and> (\<forall>i. m_sendMutex sh = Some i \<and> i \<in> set (senders sh) \<longrightarrow> last (senders sh) = i)"

lemma remdups_adj_snoc:
  "remdups_adj (xs @ [x]) = (if xs \<noteq> [] \<and> last xs = x then remdups_adj xs else remdups_adj xs @ [x])"
  by (induction xs rule: remdups_adj.induct) auto

lemma order_ok_piece:
  assumes "order_ok sh" "m_sendMutex sh = Some i" "Suc conn = num_conns sh"
  shows "order_ok (sh\<lparr>pieces := pieces sh @ [(conn, i, x)]\<rparr>)"
proof -
  have "distinct (remdups_adj (senders sh @ [i]))"
    using assms(1,2) by (auto simp: remdups_adj_snoc order_ok_def)
  moreover have "\<forall>p \<in> set (pieces sh). fst p \<le> conn" using assms(1,3) by (auto simp: order_ok_def)
  ultimately show ?thesis using assms by (auto simp: order_ok_def bytes_append sorted_append less_Suc_eq_le)
qed

lemma connection_of_last:
  assumes "fds_as pc sh" "connection_of fd sh = Some conn"
  shows "Suc conn = num_conns sh"
proof -
  have "conn \<in> ran (open_fds sh)" using assms(2) by (auto simp: connection_of_def ran_def split: if_splits)
  with assms(1) show ?thesis by (auto simp: fds_as_def)
qed

lemma step_num_conns: "client_step an i buf pc sh = Some (pc', sh') \<Longrightarrow> num_conns sh \<le> num_conns sh'"
  by (cases pc) (auto simp: lock_fd_def Let_def split: step_splits)

definition client_ok :: "client_system \<Rightarrow> bool" where
  "client_ok s \<longleftrightarrow> mutexes_ok s \<and> fds_as (holder s) (cy_shared s) \<and> order_ok (cy_shared s)
     \<and> (\<forall>i \<in> set (senders (cy_shared s)). i < length (calls s))
     \<and> (\<forall>i < length (calls s). sent_ok i (fst (calls s ! i)) (snd (calls s ! i)) (cy_shared s))"

lemma fresh_sent_ok:
  assumes "fresh_call c" "i \<notin> set (senders sh)"
  shows "sent_ok i (fst c) (snd c) sh"
  using assms no_bytes [OF assms(2)] by (auto simp: fresh_call_def sent_ok_def early_def says_done_def)

lemma client_ok_step:
  assumes "cstep s s'" "client_ok s"
  shows "client_ok s'"
  using assms(1)
proof (cases rule: cstep_cases)
  case (new c)
  have len: "length (calls s) \<notin> set (senders (cy_shared s))" using assms(2) by (auto simp: client_ok_def)
  have "sent_ok i (fst ((calls s @ [c]) ! i)) (snd ((calls s @ [c]) ! i)) (cy_shared s)" if "i < Suc (length (calls s))" for i
    using that assms(2) fresh_sent_ok [OF new(2) len] by (cases "i = length (calls s)") (simp_all add: client_ok_def nth_append)
  moreover have "mutexes_ok s'" "fds_as (holder s') (cy_shared s')"
    using assms mutexes_ok_step descriptors_step by (simp_all add: client_ok_def)
  ultimately show ?thesis using assms(2) new(1) by (auto simp: client_ok_def)
next
  case (move i buf pc an pc' sh')
  let ?sh = "cy_shared s"
  have ok: "mutexes_ok s" "fds_as (holder s) ?sh" "order_ok ?sh" "sent_ok i buf pc ?sh"
    using assms(2) move(1,2) by (auto simp: client_ok_def)
  have locks: "mutexes_ok s'" "fds_as (holder s') sh'"
    using mutexes_ok_step [OF assms(1) ok(1)] descriptors_step [OF assms(1) ok(1,2)] move(5) by simp_all
  have hold: "holds_send pc \<longleftrightarrow> m_sendMutex ?sh = Some i" using ok(1) move(1,2) by (simp add: mutexes_ok_def)
  have all: "\<forall>j < length (calls s). sent_ok j (fst (calls s ! j)) (snd (calls s ! j)) ?sh" "\<forall>j \<in> set (senders ?sh). j < length (calls s)"
    using assms(2) by (simp_all add: client_ok_def)
  note stop = step_stopped [OF move(4)]
  have "order_ok sh' \<and> (\<forall>j \<in> set (senders sh'). j < length (calls s)) \<and> sent_ok i buf pc' sh'
      \<and> (\<forall>j. j \<noteq> i \<longrightarrow> bytes_of_call j sh' = bytes_of_call j ?sh \<and> (j \<in> set (senders sh') \<longleftrightarrow> j \<in> set (senders ?sh)))"
    using step_pieces [OF move(4)]
  proof (elim disjE)
    assume q: "pieces sh' = pieces ?sh \<and> (\<forall>n fd. pc = P_Sys n fd \<longrightarrow> (\<forall>k. pc' = P_Round k \<longrightarrow> k = n))"
    then have same: "senders sh' = senders ?sh" "bytes_of_call j sh' = bytes_of_call j ?sh" for j
      using same_pieces by blast+
    have "last (senders ?sh) = j" if j: "m_sendMutex sh' = Some j" "j \<in> set (senders ?sh)" for j
    proof (cases "m_sendMutex ?sh = Some j")
      case False
      then have "j = i" "\<not> holds_send pc" "holds_send pc'"
        using j(1) step_sendMutex_other [OF move(4) hold] step_sendMutex [OF move(4) hold] hold by auto
      then have "pc = P_SendLock" using move(4) by (cases pc) (auto simp: lock_fd_def Let_def split: step_splits elim!: poll_failed.elims poll_ready.elims)
      with ok(4) j(2) \<open>j = i\<close> show ?thesis by (simp add: sent_ok_def early_def)
    qed (use ok(3) j(2) in \<open>simp add: order_ok_def\<close>)
    with ok(3) q step_num_conns [OF move(4)] have "order_ok sh'" by (force simp: order_ok_def same)
    with q same all(2) sent_ok_quiet [OF move(4) ok(4)] show ?thesis by simp
  next
    assume "\<exists>n fd conn k. pc = P_Sys n fd \<and> pc' = P_Round (n + k) \<and> connection_of fd ?sh = Some conn \<and> an_send an = Sys_Ok k
         \<and> sh' = ?sh\<lparr>pieces := pieces ?sh @ [(conn, i, take k (drop n buf))]\<rparr>"
    then obtain n fd conn k where p: "pc = P_Sys n fd" "pc' = P_Round (n + k)" "connection_of fd ?sh = Some conn" "an_send an = Sys_Ok k"
      "sh' = ?sh\<lparr>pieces := pieces ?sh @ [(conn, i, take k (drop n buf))]\<rparr>" by blast
    have "n + k \<le> length buf" using move(3) p(1,4) by (simp add: kernel_ok_def)
    with sent_ok_piece ok(4) p have "sent_ok i buf pc' sh'" by simp
    moreover have "order_ok sh'"
      using order_ok_piece [OF ok(3)] hold p connection_of_last [OF ok(2) p(3)] by simp
    ultimately show ?thesis using move(1) all(2) by (auto simp: p(5) bytes_append)
  qed
  moreover from this stop all(1) move(1) have "sent_ok j (fst ((calls s)[i := (buf, pc')] ! j)) (snd ((calls s)[i := (buf, pc')] ! j)) sh'"
    if "j < length (calls s)" for j
    using that sent_ok_other by (cases "j = i") auto
  ultimately show ?thesis using locks move(5) by (simp add: client_ok_def)
qed

end
