(* ===== verification/Client_Calls.thy ===== *)
theory Client_Calls
  imports Client_Threads
begin

text \<open>
  What calls on a shared \<open>SocketClient\<close> can rely on: messages are not mixed, one socket at a time,
  stopping is final and ends the calls, but for two races: a message can be torn by a
  reconnection, and a call can poll for ever on no descriptor.
\<close>

lemma client_ok_new: "m_sockfd c = INVALID_SOCKET \<Longrightarrow> client_ok (new_client_system c)"
  by (auto simp: client_ok_def mutexes_ok_def new_client_system_def holder_def fds_as_def order_ok_def senders_def)

lemma new_clients_closed:
  "new_unix_client f connMS = Inr c \<Longrightarrow> m_sockfd c = INVALID_SOCKET"
  "new_tcp_client port connMS = Inr c \<Longrightarrow> m_sockfd c = INVALID_SOCKET"
  by (auto simp: new_unix_client_def new_tcp_client_def split: sum.splits if_splits)

lemma client_reachable_ok: "client_reachable s \<Longrightarrow> client_ok s"
  by (induction rule: client_reachable.induct) (auto intro: client_ok_new client_ok_step dest: new_clients_closed)

lemma client_reachable_steps: "cstep\<^sup>*\<^sup>* s s' \<Longrightarrow> client_reachable s \<Longrightarrow> client_reachable s'"
  by (induction rule: rtranclp_induct) (auto intro: client_reachable.step)

section \<open>Stopping is final\<close>

definition of_stop :: "client_pc \<Rightarrow> bool" where
  "of_stop pc \<longleftrightarrow> pc \<in> {P_StopLock, P_Close O_Stop, P_Closing O_Stop, P_Closed O_Stop, P_Done O_Stop, P_SendUnlock O_Stop}"

definition in_connect :: "client_pc \<Rightarrow> bool" where
  "in_connect pc \<longleftrightarrow> pc \<in> {P_Setup, P_Connecting, P_Refused, P_Reset} \<or> (\<exists>fd. pc = P_Opened fd) \<or> (\<exists>res. pc = P_Closed res)"

definition shut :: "client_system \<Rightarrow> bool" where
  "shut s \<longleftrightarrow> is_stopped (cy_shared s) \<and> sockfd (cy_shared s) = INVALID_SOCKET \<and> open_fds (cy_shared s) = Map.empty
     \<and> (\<forall>c \<in> set (calls s). \<not> in_connect (snd c))"

definition stop_ok :: "client_system \<Rightarrow> bool" where
  "stop_ok s \<longleftrightarrow> (\<forall>c \<in> set (calls s). of_stop (snd c) \<longrightarrow> is_stopped (cy_shared s))
     \<and> ((\<exists>c \<in> set (calls s). snd c = P_Done O_Stop) \<longrightarrow> shut s)"

lemma in_connect_holds: "in_connect pc \<Longrightarrow> holds_fd pc"
  by (auto simp: in_connect_def)

lemma poll_kinds [simp]:
  "\<not> in_connect (poll_ready use)" "\<not> in_connect (poll_failed use res)" "\<not> of_stop (poll_ready use)"
  "\<not> of_stop (poll_failed use (O_Threw e))" "\<not> of_stop (poll_failed use (bad_fd what sh))"
  "poll_ready use \<noteq> P_Done res'" "poll_failed use res \<noteq> P_Done res'"
  by (cases use; simp add: in_connect_def of_stop_def bad_fd_def)+

lemma step_of_stop:
  "client_step an i buf pc sh = Some (pc', sh') \<Longrightarrow> of_stop pc' \<Longrightarrow> of_stop pc \<or> is_stopped sh'"
  by (cases pc) (auto simp: of_stop_def lock_fd_def bad_fd_def Let_def elim: poll_failed.elims poll_ready.elims split: step_splits)

lemma step_shut:
  assumes "client_step an i buf pc sh = Some (pc', sh')" "\<not> in_connect pc" "is_stopped sh" "sockfd sh = INVALID_SOCKET" "open_fds sh = Map.empty"
  shows "\<not> in_connect pc'" "is_stopped sh'" "sockfd sh' = INVALID_SOCKET" "open_fds sh' = Map.empty"
proof -
  have "\<not> in_connect pc' \<and> sockfd sh' = INVALID_SOCKET \<and> open_fds sh' = Map.empty"
    by (cases pc) (use assms in \<open>auto simp: in_connect_def lock_fd_def bad_fd_def Let_def elim: poll_failed.elims poll_ready.elims split: step_splits\<close>)
  then show "\<not> in_connect pc'" "is_stopped sh'" "sockfd sh' = INVALID_SOCKET" "open_fds sh' = Map.empty"
    using step_stopped [OF assms(1,3)] by simp_all
qed

lemma fresh_kinds: "fresh_call c \<Longrightarrow> \<not> in_connect (snd c) \<and> \<not> of_stop (snd c)"
  by (auto simp: fresh_call_def in_connect_def of_stop_def)

lemma shut_step: "cstep s s' \<Longrightarrow> shut s \<Longrightarrow> shut s'"
proof (induction rule: cstep_cases)
  case (new c)
  then show ?case using fresh_kinds by (auto simp: shut_def)
next
  case (move i buf pc an pc' sh')
  have "\<not> in_connect pc" using move(1,2,6) by (metis nth_mem shut_def snd_conv)
  from step_shut [OF move(4) this] move(5,6) show ?case
    by (auto simp: shut_def dest!: subsetD [OF set_update_subset_insert])
qed

text \<open>The step with which \<open>Stop\<close> returns.\<close>

lemma stop_returns:
  assumes "client_step an i buf pc sh = Some (P_Done O_Stop, sh')" "is_stopped sh" "fds_as pc sh"
  shows "holds_fd pc \<and> \<not> in_connect (P_Done O_Stop) \<and> is_stopped sh' \<and> sockfd sh' = INVALID_SOCKET \<and> open_fds sh' = Map.empty"
  using assms by (cases pc) (auto simp: fds_as_def in_connect_def lock_fd_def Let_def split: step_splits)

lemma stop_ok_step:
  assumes "cstep s s'" "client_ok s" "stop_ok s"
  shows "stop_ok s'"
proof (cases "shut s")
  case True
  then have "shut s'" by (rule shut_step [OF assms(1)])
  then show ?thesis by (simp add: stop_ok_def shut_def)
next
  case False
  then have none: "\<forall>c \<in> set (calls s). snd c \<noteq> P_Done O_Stop" using assms(3) by (auto simp: stop_ok_def)
  show ?thesis
    using assms(1)
  proof (cases rule: cstep_cases)
    case (new c)
    then have "\<not> of_stop (snd c)" by (simp add: fresh_kinds)
    then show ?thesis using assms(3) none new(1) by (auto simp: stop_ok_def of_stop_def)
  next
    case (move i buf pc an pc' sh')
    let ?sh = "cy_shared s"
    have mem: "(buf, pc) \<in> set (calls s)" using move(1,2) by (metis nth_mem)
    have "of_stop pc \<longrightarrow> is_stopped ?sh" using assms(3) mem unfolding stop_ok_def by fastforce
    then have flags: "is_stopped sh'" if "of_stop pc'"
      using step_of_stop [OF move(4) that] step_stopped [OF move(4)] by blast
    have "shut s'" if d: "pc' = P_Done O_Stop"
    proof -
      have hold: "holds_fd pc \<longleftrightarrow> m_fdMutex ?sh = Some i" using assms(2) move(1,2) by (simp add: client_ok_def mutexes_ok_def)
      have "pc = P_Closing O_Stop \<or> pc = P_Closed O_Stop"
        using move(4) d by (cases pc) (auto simp: lock_fd_def Let_def split: step_splits)
      then have "is_stopped ?sh" "holds_fd pc" using assms(3) mem by (auto simp: stop_ok_def of_stop_def)
      moreover from this hold move(2) have "fds_as pc ?sh" using assms(2) by (simp add: client_ok_def holder_def)
      ultimately have r: "is_stopped sh' \<and> sockfd sh' = INVALID_SOCKET \<and> open_fds sh' = Map.empty"
        using stop_returns move(4) d by blast
      have "\<not> in_connect (snd (calls s ! j))" if "j < length (calls s)" "j \<noteq> i" for j
      proof
        assume "in_connect (snd (calls s ! j))"
        then have "holds_fd (snd (calls s ! j))" by (rule in_connect_holds)
        with that(1) assms(2) have "m_fdMutex ?sh = Some j" by (simp add: client_ok_def mutexes_ok_def)
        with hold \<open>holds_fd pc\<close> that(2) show False by simp
      qed
      then have "\<not> in_connect (snd ((calls s)[i := (buf, pc')] ! j))" if "j < length (calls s)" for j
        using that d by (cases "j = i") (simp_all add: in_connect_def)
      with r move(5) show ?thesis by (simp add: shut_def all_set_conv_all_nth)
    qed
    moreover have "\<forall>c \<in> set (calls s'). of_stop (snd c) \<longrightarrow> is_stopped sh'"
      using flags assms(3) step_stopped [OF move(4)] move(5)
      by (auto simp: stop_ok_def dest!: subsetD [OF set_update_subset_insert])
    ultimately show ?thesis
      using none move(5) by (auto simp: stop_ok_def dest!: subsetD [OF set_update_subset_insert])
  qed
qed

lemma client_reachable_stop_ok: "client_reachable s \<Longrightarrow> stop_ok s"
proof (induction rule: client_reachable.induct)
  case (init f connMS c)
  then show ?case by (simp add: stop_ok_def new_client_system_def)
next
  case (init_tcp port connMS c)
  then show ?case by (simp add: stop_ok_def new_client_system_def)
qed (auto intro: stop_ok_step client_reachable_ok)

section \<open>Moving and waiting\<close>

text \<open>A step of a call that is not interrupted by a signal.\<close>

definition no_signal :: "answers \<Rightarrow> bool" where
  "no_signal an \<longleftrightarrow> an_send an \<noteq> Sys_Err EINTR \<and> an_read an \<noteq> Read_Err EINTR"

inductive cmove :: "client_system \<Rightarrow> client_system \<Rightarrow> bool" where
  "i < length (calls s) \<Longrightarrow> calls s ! i = (buf, pc) \<Longrightarrow> kernel_ok an buf pc (cy_shared s) \<Longrightarrow> no_signal an \<Longrightarrow>
   client_step an i buf pc (cy_shared s) = Some (pc', sh') \<Longrightarrow>
   cmove s (s\<lparr>cy_shared := sh', calls := (calls s)[i := (buf, pc')]\<rparr>)"

lemma cmove_cstep: "cmove s s' \<Longrightarrow> cstep s s'"
  by (induction rule: cmove.induct) (rule cstep.move)

definition waits_fd :: "client_pc \<Rightarrow> bool" where
  "waits_fd pc \<longleftrightarrow> pc \<in> {P_Lock, P_Wait, P_StopLock} \<or> (\<exists>res. pc = P_Close res)"

definition polls_nothing :: "client_pc \<Rightarrow> bool" where
  "polls_nothing pc \<longleftrightarrow> (\<exists>use fd. pc = P_Polling use fd \<and> fd < 0)"

definition is_over :: "client_pc \<Rightarrow> bool" where
  "is_over pc \<longleftrightarrow> (\<exists>res. pc = P_Done res)"

text \<open>A call that polls no descriptor, or that waits for one that does so with the mutex of \<open>SendData\<close>.\<close>

definition hung :: "client_system \<Rightarrow> client_pc \<Rightarrow> bool" where
  "hung s pc \<longleftrightarrow> polls_nothing pc
     \<or> pc = P_SendLock \<and> (\<exists>j < length (calls s). m_sendMutex (cy_shared s) = Some j \<and> polls_nothing (snd (calls s ! j)))"

definition some_answers :: answers where
  "some_answers = \<lparr>an_timeout = True, an_hangup = False, an_runtime1 = 0, an_runtime2 = 0, an_socket = Sys_Err 1, an_connect = Sys_Ok 0,
     an_poll = [Poll_Err 1], an_send = Sys_Err 1, an_read = Read_Err 1\<rparr>"

lemma some_answers_ok: "kernel_ok some_answers buf pc sh" "no_signal some_answers"
  by (simp_all add: kernel_ok_def no_signal_def some_answers_def EINTR_def split: client_pc.split)

lemma poll_answers: "0 \<le> fd \<Longrightarrow> PollSocket (poll_mode use) fd [Poll_Err 1] \<noteq> None" "0 \<le> fd \<Longrightarrow> PollSocket (poll_mode use) fd [Poll_Ok POLLNVAL 0] \<noteq> None"
  by (cases use; simp add: PollSocket_def POLLIN_def POLLOUT_def EINTR_def)+

lemma steps_or_waits:
  "client_step some_answers i buf pc sh \<noteq> None \<or> is_over pc \<or> polls_nothing pc
   \<or> waits_fd pc \<and> m_fdMutex sh \<noteq> None \<or> pc = P_SendLock \<and> m_sendMutex sh \<noteq> None"
proof (cases pc)
  case (P_Polling use fd)
  then show ?thesis
    using poll_answers [of fd use] by (auto simp: polls_nothing_def some_answers_def not_less split: option.split sum.split)
qed (auto simp: is_over_def waits_fd_def lock_fd_def Let_def some_answers_def split: option.split sys.split)

lemma holds_fd_steps: "holds_fd pc \<Longrightarrow> \<not> is_over pc \<and> \<not> polls_nothing pc \<and> \<not> waits_fd pc \<and> pc \<noteq> P_SendLock"
  by (cases pc) (auto simp: is_over_def polls_nothing_def waits_fd_def)

lemma holds_send_steps: "holds_send pc \<Longrightarrow> \<not> is_over pc \<and> \<not> waits_fd pc \<and> pc \<noteq> P_SendLock"
  by (cases pc) (auto simp: is_over_def polls_nothing_def waits_fd_def)

lemma call_moves:
  assumes "i < length (calls s)" "client_step some_answers i (fst (calls s ! i)) (snd (calls s ! i)) (cy_shared s) \<noteq> None"
  shows "\<exists>s'. cmove s s'"
proof -
  obtain pc' sh' where "client_step some_answers i (fst (calls s ! i)) (snd (calls s ! i)) (cy_shared s) = Some (pc', sh')"
    using assms(2) by auto
  from cmove.intros [OF assms(1) prod.collapse [symmetric] some_answers_ok this] show ?thesis ..
qed

lemma not_stuck:
  assumes "client_ok s" "i < length (calls s)" "\<not> is_over (snd (calls s ! i))" "\<not> hung s (snd (calls s ! i))"
  shows "\<exists>s'. cmove s s'"
proof -
  let ?sh = "cy_shared s"
  have m: "mutexes_ok s" using assms(1) by (simp add: client_ok_def)
  note steps = steps_or_waits [of _ "fst (calls s ! _)" "snd (calls s ! _)" ?sh]
  have fd: "\<exists>s'. cmove s s'" if "m_fdMutex ?sh = Some j" for j
    using mutexes_okD(1) [OF m that] holds_fd_steps steps [of j j j] call_moves [of j s] by blast
  have send: "\<exists>s'. cmove s s'" if "m_sendMutex ?sh = Some j" "\<not> polls_nothing (snd (calls s ! j))" for j
    using mutexes_okD(2) [OF m that(1)] that(2) holds_send_steps steps [of j j j] call_moves [of j s] by blast
  show ?thesis
    using steps [of i i i] assms(2-4) call_moves [of i s] fd send mutexes_okD(2) [OF m]
    unfolding hung_def by (metis option.exhaust)
qed

section \<open>Calls end once the client is stopped\<close>

fun rank :: "client_pc \<Rightarrow> nat" where
  "rank P_Test = 12" | "rank P_Lock = 11" | "rank P_Loop = 10" | "rank P_Setup = 16" | "rank (P_Opened fd) = 15"
| "rank P_Connecting = 14" | "rank P_Refused = 13" | "rank P_Reset = 12" | "rank P_Retry = 11" | "rank P_Unlock = 9"
| "rank P_Check = 8" | "rank P_Data = 7" | "rank P_SendLock = 6" | "rank (P_Round n) = 5" | "rank (P_Send n) = 7"
| "rank (P_Sys n fd) = 6" | "rank (P_SendUnlock res) = 4"
| "rank (P_PollTest use) = (if sending use then 10 else 8)" | "rank (P_PollLoad use) = (if sending use then 9 else 7)"
| "rank (P_Polling use fd) = (if sending use then 8 else 6)"
| "rank (P_Close res) = 3" | "rank (P_Closing res) = 2" | "rank (P_Closed res) = 1"
| "rank P_Entry = 12" | "rank P_Wait = 11" | "rank P_Ready = 10" | "rank P_Recheck = 9" | "rank P_Read = 5" | "rank (P_ReadSys fd) = 4"
| "rank P_Stop = 6" | "rank P_StopSet = 5" | "rank P_StopLock = 4" | "rank (P_Done res) = 0"

lemma rank_poll [simp]: "rank (poll_ready use) = (if sending use then 7 else 5)" "rank (poll_failed use res) = (if sending use then 4 else 3)"
  by (cases use; simp)+

lemma rank_bound: "rank pc \<le> 16"
  by (cases pc) simp_all

lemma step_rank:
  "client_step an i buf pc sh = Some (pc', sh') \<Longrightarrow> is_stopped sh \<Longrightarrow> no_signal an \<Longrightarrow> rank pc' < rank pc"
  by (cases pc) (auto simp: no_signal_def lock_fd_def EBADF_def EINTR_def Let_def split: step_splits)

definition total_rank :: "client_system \<Rightarrow> nat" where
  "total_rank s = sum_list (map (rank \<circ> snd) (calls s))"

lemma cmove_rank:
  assumes "cmove s s'" "is_stopped (cy_shared s)"
  shows "total_rank s' < total_rank s" "is_stopped (cy_shared s')" "length (calls s') = length (calls s)"
proof -
  have "total_rank s' < total_rank s \<and> is_stopped (cy_shared s') \<and> length (calls s') = length (calls s)"
    using assms
  proof (induction rule: cmove.induct)
    case (1 i s buf pc an pc' sh')
    have "rank pc' < rank pc" using step_rank [OF 1(5) 1(6) 1(4)] .
    moreover have "rank pc \<le> total_rank s"
      using 1(1,2) elem_le_sum_list [of i "map (rank \<circ> snd) (calls s)"] by (simp add: total_rank_def)
    ultimately show ?case
      using 1(1,2) step_stopped [OF 1(5,6)] by (simp add: total_rank_def map_update sum_list_update)
  qed
  then show "total_rank s' < total_rank s" "is_stopped (cy_shared s')" "length (calls s') = length (calls s)" by simp_all
qed

lemma total_rank_bound: "total_rank s \<le> 16 * length (calls s)"
  using sum_list_mono [of "calls s" "rank \<circ> snd" "\<lambda>_. 16"] rank_bound by (simp add: total_rank_def sum_list_triv o_def)

lemma cmoves_rank:
  "(cmove ^^ n) s s' \<Longrightarrow> is_stopped (cy_shared s) \<Longrightarrow> n + total_rank s' \<le> total_rank s"
proof (induction n arbitrary: s')
  case (Suc n)
  then obtain s1 where s1: "(cmove ^^ n) s s1" "cmove s1 s'" by auto
  have "is_stopped (cy_shared s1)"
    using s1(1) Suc.prems(2)
  proof (induction n arbitrary: s1)
    case (Suc n)
    then show ?case using cmove_rank(2) by auto
  qed simp
  from Suc.IH [OF s1(1) Suc.prems(2)] cmove_rank(1) [OF s1(2) this] show ?case by simp
qed simp

section \<open>Runs\<close>

text \<open>A run as data: which call moves, and what it observes.\<close>

fun move_call :: "nat \<times> answers \<Rightarrow> client_system \<Rightarrow> client_system" where
  "move_call (i, an) s =
     (if i < length (calls s) \<and> kernel_ok an (fst (calls s ! i)) (snd (calls s ! i)) (cy_shared s)
      then case client_step an i (fst (calls s ! i)) (snd (calls s ! i)) (cy_shared s) of
             None \<Rightarrow> s
           | Some (pc', sh') \<Rightarrow> s\<lparr>cy_shared := sh', calls := (calls s)[i := (fst (calls s ! i), pc')]\<rparr>
      else s)"

lemma move_call_step: "cstep\<^sup>*\<^sup>* s (move_call ian s)"
proof (cases "move_call ian s = s")
  case False
  obtain i an where ian: "ian = (i, an)" by fastforce
  from False ian obtain pc' sh' where m: "i < length (calls s)" "kernel_ok an (fst (calls s ! i)) (snd (calls s ! i)) (cy_shared s)"
    "client_step an i (fst (calls s ! i)) (snd (calls s ! i)) (cy_shared s) = Some (pc', sh')"
    by (auto split: if_splits option.splits)
  from cstep.move [OF m(1) prod.collapse [symmetric] m(2,3)] m ian show ?thesis by simp
qed simp

lemma moves_run: "cstep\<^sup>*\<^sup>* s (fold move_call ians s)"
proof (induction ians arbitrary: s)
  case (Cons ian ians)
  with move_call_step show ?case by (metis fold_simps(2) rtranclp_trans)
qed simp

definition fine :: answers where
  "fine = \<lparr>an_timeout = False, an_hangup = False, an_runtime1 = 0, an_runtime2 = 0, an_socket = Sys_Ok 5, an_connect = Sys_Ok 0,
     an_poll = [Poll_Ok (POLLIN OR POLLOUT) 0], an_send = Sys_Ok 1, an_read = Read_Ok ''x''\<rparr>"

definition poll_hup :: answers where "poll_hup = fine\<lparr>an_poll := [Poll_Ok POLLHUP 0]\<rparr>"

definition end_of_file :: answers where "end_of_file = fine\<lparr>an_read := Read_Ok []\<rparr>"

lemma unix_client_new: "new_unix_client ''/s'' 1000 = Inr (unix_client 1000)"
  by (simp add: new_unix_client_def UnixSockAddr_def sun_path_size_def unix_client_def)

text \<open>Calls of \<open>Send\<close> with the given data, a reader and \<open>Stop\<close>, all begun.\<close>

definition begun :: "string list \<Rightarrow> client_system" where
  "begun datas = (new_client_system (unix_client 1000))\<lparr>calls := map begin_Send datas @ [([], P_Entry), ([], P_Stop)]\<rparr>"

lemma begun_reachable: "client_reachable (begun datas)"
proof -
  let ?s = "\<lambda>cs. (new_client_system (unix_client 1000))\<lparr>calls := cs\<rparr>"
  have "cstep (?s cs) (?s (cs @ [begin_Send d]))" "cstep (?s cs) (?s (cs @ [([], P_Entry)]))" "cstep (?s cs) (?s (cs @ [([], P_Stop)]))" for cs d
    using cstep.send [of "?s cs" d] cstep.read [of "?s cs"] cstep.stop [of "?s cs"] by simp_all
  note step = client_reachable.step [OF _ this(1)] client_reachable.step [OF _ this(2)] client_reachable.step [OF _ this(3)]
  have "client_reachable (?s (map begin_Send datas))"
  proof (induction datas rule: rev_induct)
    case Nil
    from client_reachable.init [OF unix_client_new] show ?case by (simp add: new_client_system_def)
  next
    case (snoc d datas)
    then show ?case using step(1) [OF snoc] by simp
  qed
  from step(3) [OF step(2) [OF this]] show ?thesis by (simp add: begun_def)
qed

definition run_of :: "string list \<Rightarrow> (nat \<times> answers) list \<Rightarrow> client_system" where
  "run_of datas ians = fold move_call ians (begun datas)"

lemma run_of_reachable: "client_reachable (run_of datas ians)"
  unfolding run_of_def by (rule client_reachable_steps [OF moves_run begun_reachable])

text \<open>
  The message \<open>AB\<close> is sent on two connections. After its first byte the reader meets the end of
  the stream and closes the socket, the next call reconnects, and \<open>SendData\<close>, which reads the
  descriptor again for each piece, puts the second byte at the head of the new stream.
\<close>

definition torn_run :: client_system where
  "torn_run = run_of [''AB'', ''C'']
     (replicate 16 (0, fine) @ replicate 12 (2, end_of_file) @ replicate 7 (1, fine) @ replicate 8 (0, fine))"

theorem torn_message_reachable:
  "client_reachable torn_run \<and> pieces (cy_shared torn_run) = [(0, 0, ''A''), (1, 0, ''B'')]
   \<and> calls torn_run ! 0 = (''AB'', P_Done O_Done)"
proof (intro conjI)
  show "client_reachable torn_run" unfolding torn_run_def by (rule run_of_reachable)
  show "pieces (cy_shared torn_run) = [(0, 0, ''A''), (1, 0, ''B'')]" by code_simp
  show "calls torn_run ! 0 = (''AB'', P_Done O_Done)" by code_simp
qed

text \<open>
  The reader hangs. Between the test of the descriptor in \<open>PollSocket\<close> and its second reading for
  \<open>poll\<close>, a failed \<open>Send\<close> closes the socket; \<open>poll\<close> then waits without a limit for nothing. \<open>Stop\<close>
  returns all the same, and no later step of any call wakes the reader.
\<close>

definition hang_run :: client_system where
  "hang_run = run_of [''A''] (replicate 7 (0, fine) @ replicate 5 (1, fine) @ replicate 6 (0, fine)
     @ replicate 5 (0, poll_hup) @ (1, fine) # replicate 6 (2, fine))"

lemma polls_for_ever:
  assumes "cstep\<^sup>*\<^sup>* s s'" "i < length (calls s)" "calls s ! i = (buf, pc)" "polls_nothing pc"
  shows "i < length (calls s') \<and> calls s' ! i = (buf, pc)"
  using assms(1)
proof (induction rule: rtranclp_induct)
  case (step s1 s2)
  from step(2) show ?case
  proof (cases rule: cstep_cases)
    case (new c)
    with step(3) show ?thesis by (simp add: nth_append)
  next
    case (move j b p an p' sh')
    have "j \<noteq> i"
    proof
      assume "j = i"
      with move(2) step(3) have "p = pc" by simp
      with move(4) assms(4) show False by (auto simp: polls_nothing_def)
    qed
    with move(5) step(3) show ?thesis by simp
  qed
qed (use assms in simp)

theorem reader_hangs_reachable:
  "client_reachable hang_run \<and> snd (calls hang_run ! 2) = P_Done O_Stop
   \<and> (\<forall>s'. cstep\<^sup>*\<^sup>* hang_run s' \<longrightarrow> snd (calls s' ! 1) = P_Polling For_Read (-1))"
proof (intro conjI allI impI)
  show "client_reachable hang_run" unfolding hang_run_def by (rule run_of_reachable)
  show "snd (calls hang_run ! 2) = P_Done O_Stop" by code_simp
  fix s' assume run: "cstep\<^sup>*\<^sup>* hang_run s'"
  have h: "length (calls hang_run) = 3" "calls hang_run ! 1 = ([], P_Polling For_Read (-1))" by code_simp+
  from polls_for_ever [OF run _ h(2)] h(1) show "snd (calls s' ! 1) = P_Polling For_Read (-1)"
    by (simp add: polls_nothing_def)
qed

section \<open>Properties\<close>

lemma concat_groups:
  "distinct (remdups_adj (map f xs)) \<Longrightarrow>
   concat (map g xs) = concat (map (\<lambda>i. concat (map g (filter (\<lambda>x. f x = i) xs))) (remdups_adj (map f xs)))"
proof (induction xs)
  case (Cons x xs)
  show ?case
  proof (cases xs)
    case (Cons y ys)
    obtain gs where r: "remdups_adj (map f xs) = f y # gs" using Cons by (cases "remdups_adj (map f xs)") (auto dest: arg_cong [of _ _ hd])
    define part where "part = (\<lambda>zs i. concat (map g (filter (\<lambda>z. f z = i) zs)))"
    have part: "part (x # xs) i = (if f x = i then g x else []) @ part xs i" for i by (simp add: part_def)
    have rest: "map (part (x # xs)) gs = map (part xs) gs" if "f x \<notin> set gs" using that by (auto simp: part)
    have "concat (map g (x # xs)) = concat (map (part (x # xs)) (remdups_adj (map f (x # xs))))"
    proof (cases "f x = f y")
      case True
      then have d: "remdups_adj (map f (x # xs)) = f y # gs" using r Cons by simp
      with Cons.prems have "distinct (f y # gs)" by simp
      with Cons.IH [unfolded r] have "concat (map g xs) = part xs (f y) @ concat (map (part xs) gs)" by (simp add: part_def)
      with True \<open>distinct (f y # gs)\<close> show ?thesis
        unfolding d by (simp add: part rest)
    next
      case False
      then have d: "remdups_adj (map f (x # xs)) = f x # f y # gs" using r Cons by simp
      with Cons.prems have dist: "distinct (f x # f y # gs)" by simp
      with Cons.IH [unfolded r] have ih: "concat (map g xs) = part xs (f y) @ concat (map (part xs) gs)" by (simp add: part_def)
      have "set (map f xs) = set (f y # gs)" using r by (metis remdups_adj_set)
      then have "f x \<notin> f ` set xs" using dist by (simp add: image_image)
      then have none: "filter (\<lambda>z. f z = f x) xs = []" unfolding filter_empty_conv by (metis imageI)
      have "part xs (f x) = []" by (simp add: part_def none)
      with ih False dist show ?thesis
        unfolding d by (simp add: part rest)
    qed
    then show ?thesis by (simp add: part_def)
  qed simp
qed simp

text \<open>
  C9: the bytes of concurrent calls of \<open>Send\<close> are not mixed. In every reachable state what the kernel
  has taken is what it took of each call, one call after the other; of each call that is a
  beginning of its data, and everything if the call has returned without an exception and the
  client was not stopped; and no piece goes to an older connection than one before it.
\<close>

theorem client_sends_whole:
  assumes "client_reachable s"
  shows "distinct (remdups_adj (senders (cy_shared s)))
    \<and> concat (map (snd \<circ> snd) (pieces (cy_shared s))) = concat (map (\<lambda>i. bytes_of_call i (cy_shared s)) (remdups_adj (senders (cy_shared s))))
    \<and> sorted (map fst (pieces (cy_shared s)))
    \<and> (\<forall>i < length (calls s). prefix (bytes_of_call i (cy_shared s)) (fst (calls s ! i))
         \<and> (snd (calls s ! i) = P_Done O_Done \<longrightarrow> bytes_of_call i (cy_shared s) = fst (calls s ! i) \<or> is_stopped (cy_shared s)))"
proof -
  have ok: "client_ok s" using assms by (rule client_reachable_ok)
  have "sent_ok i (fst (calls s ! i)) (snd (calls s ! i)) (cy_shared s)" if "i < length (calls s)" for i
    using ok that by (simp add: client_ok_def)
  with sent_ok_prefix have "\<forall>i < length (calls s). prefix (bytes_of_call i (cy_shared s)) (fst (calls s ! i))
      \<and> (snd (calls s ! i) = P_Done O_Done \<longrightarrow> bytes_of_call i (cy_shared s) = fst (calls s ! i) \<or> is_stopped (cy_shared s))"
    by (metis sent_ok_done)
  moreover have d: "distinct (remdups_adj (senders (cy_shared s)))" "sorted (map fst (pieces (cy_shared s)))"
    using ok by (simp_all add: client_ok_def order_ok_def)
  moreover have "concat (map (snd \<circ> snd) (pieces (cy_shared s))) = concat (map (\<lambda>i. bytes_of_call i (cy_shared s)) (remdups_adj (senders (cy_shared s))))"
    using concat_groups [of "fst \<circ> snd" "pieces (cy_shared s)" "snd \<circ> snd"] d(1) by (simp add: senders_def bytes_of_call_def)
  ultimately show ?thesis by blast
qed

theorem client_sends_whole_witness:
  "bytes_of_call 0 (cy_shared torn_run) = ''AB''"
proof -
  have "length (calls torn_run) = 4" "fst (calls torn_run ! 0) = ''AB''" "snd (calls torn_run ! 0) = P_Done O_Done" "\<not> is_stopped (cy_shared torn_run)"
    by code_simp+
  moreover have "client_reachable torn_run" unfolding torn_run_def by (rule run_of_reachable)
  ultimately show ?thesis using client_sends_whole [of torn_run] by auto
qed

text \<open>
  C19: one socket at a time, and none is lost. In every reachable state, whoever connects and closes,
  each mutex is held by one call at most, at most one descriptor is open, and while nobody is
  connecting or closing it is the one that \<open>m_sockfd\<close> has.
\<close>

theorem client_one_socket:
  assumes "client_reachable s"
  shows "(\<forall>i < length (calls s). \<forall>j < length (calls s).
        (holds_fd (snd (calls s ! i)) \<and> holds_fd (snd (calls s ! j)) \<longrightarrow> i = j)
        \<and> (holds_send (snd (calls s ! i)) \<and> holds_send (snd (calls s ! j)) \<longrightarrow> i = j))
    \<and> (\<exists>fd. dom (open_fds (cy_shared s)) \<subseteq> {fd})
    \<and> (m_fdMutex (cy_shared s) = None \<longrightarrow>
         dom (open_fds (cy_shared s)) = (if sockfd (cy_shared s) = INVALID_SOCKET then {} else {nat (sockfd (cy_shared s))}))"
proof (intro conjI)
  have ok: "mutexes_ok s" "fds_as (holder s) (cy_shared s)" using client_reachable_ok [OF assms] by (simp_all add: client_ok_def)
  show "\<forall>i < length (calls s). \<forall>j < length (calls s).
        (holds_fd (snd (calls s ! i)) \<and> holds_fd (snd (calls s ! j)) \<longrightarrow> i = j)
        \<and> (holds_send (snd (calls s ! i)) \<and> holds_send (snd (calls s ! j)) \<longrightarrow> i = j)"
    using ok(1) unfolding mutexes_ok_def by (metis option.inject)
  show "\<exists>fd. dom (open_fds (cy_shared s)) \<subseteq> {fd}"
    using ok(2) by (cases "holder s") (auto simp: fds_as_def split: if_splits)
  show "m_fdMutex (cy_shared s) = None \<longrightarrow>
         dom (open_fds (cy_shared s)) = (if sockfd (cy_shared s) = INVALID_SOCKET then {} else {nat (sockfd (cy_shared s))})"
  proof
    assume "m_fdMutex (cy_shared s) = None"
    with ok(2) have "fds_as P_Test (cy_shared s)" by (simp add: holder_None)
    then show "dom (open_fds (cy_shared s)) = (if sockfd (cy_shared s) = INVALID_SOCKET then {} else {nat (sockfd (cy_shared s))})"
      by (simp add: fds_as_def split: if_splits)
  qed
qed

theorem client_one_socket_witness: "\<exists>fd. dom (open_fds (cy_shared torn_run)) \<subseteq> {fd}"
proof -
  have "client_reachable torn_run" unfolding torn_run_def by (rule run_of_reachable)
  from client_one_socket [OF this] show ?thesis by blast
qed

text \<open>
  C20: stopping is final. Once a call of \<open>Stop\<close> has returned, the socket is closed, no descriptor is
  open and no call is about to connect, then and in every later state, whatever calls follow.
\<close>

theorem client_stop_final:
  assumes "client_reachable s" "i < length (calls s)" "snd (calls s ! i) = P_Done O_Stop" "cstep\<^sup>*\<^sup>* s s'"
  shows "is_stopped (cy_shared s') \<and> sockfd (cy_shared s') = INVALID_SOCKET \<and> open_fds (cy_shared s') = Map.empty
    \<and> (\<forall>c \<in> set (calls s'). \<not> in_connect (snd c))"
proof -
  have "\<exists>c \<in> set (calls s). snd c = P_Done O_Stop" using assms(2,3) nth_mem by blast
  then have "shut s" using client_reachable_stop_ok [OF assms(1)] by (simp add: stop_ok_def)
  with assms(4) have "shut s'" by (induction rule: rtranclp_induct) (simp_all add: shut_step)
  then show ?thesis by (simp add: shut_def)
qed

theorem client_stop_final_witness: "sockfd (cy_shared (hang_run\<lparr>calls := calls hang_run @ [begin_Send ''D'']\<rparr>)) = INVALID_SOCKET"
proof -
  have "client_reachable hang_run" unfolding hang_run_def by (rule run_of_reachable)
  moreover have "length (calls hang_run) = 3" "snd (calls hang_run ! 2) = P_Done O_Stop" by code_simp+
  moreover have "cstep\<^sup>*\<^sup>* hang_run (hang_run\<lparr>calls := calls hang_run @ [begin_Send ''D'']\<rparr>)"
    by (rule r_into_rtranclp) (rule cstep.send)
  ultimately show ?thesis using client_stop_final [of hang_run 2] by simp
qed

text \<open>
  C25: calls do not block each other. From any reachable state in which the client is stopped, the
  calls in progress make in total at most 16 steps for each of them, in any order, if no signal
  interrupts a system call and no new call begins; and when none of them can move, each is over, or polls no descriptor, or waits for the mutex
  of one in \<open>SendData\<close> that does: no two calls wait for each other.
\<close>

theorem stopped_calls_end:
  assumes "client_reachable s" "is_stopped (cy_shared s)" "(cmove ^^ n) s s'"
  shows "n \<le> 16 * length (calls s)
    \<and> ((\<exists>s''. cmove s' s'') \<or> (\<forall>i < length (calls s'). is_over (snd (calls s' ! i)) \<or> hung s' (snd (calls s' ! i))))"
proof
  show "n \<le> 16 * length (calls s)"
    using cmoves_rank [OF assms(3,2)] total_rank_bound [of s] by simp
  have "cstep\<^sup>*\<^sup>* s s'"
    using assms(3) cmove_cstep by (metis relpowp_imp_rtranclp mono_rtranclp)
  then have "client_ok s'" using client_reachable_ok client_reachable_steps assms(1) by blast
  with not_stuck show "(\<exists>s''. cmove s' s'') \<or> (\<forall>i < length (calls s'). is_over (snd (calls s' ! i)) \<or> hung s' (snd (calls s' ! i)))"
    by blast
qed

theorem stopped_calls_end_witness:
  "(\<exists>s''. cmove hang_run s'') \<or> hung hang_run (P_Polling For_Read (-1))"
proof -
  have "client_reachable hang_run" unfolding hang_run_def by (rule run_of_reachable)
  moreover have "is_stopped (cy_shared hang_run)" by code_simp
  moreover have h: "length (calls hang_run) = 3" "snd (calls hang_run ! 1) = P_Polling For_Read (-1)" by code_simp+
  moreover have "(cmove ^^ 0) hang_run hang_run" by simp
  ultimately have "(\<exists>s''. cmove hang_run s'') \<or> (\<forall>i < length (calls hang_run). is_over (snd (calls hang_run ! i)) \<or> hung hang_run (snd (calls hang_run ! i)))"
    using stopped_calls_end by blast
  with h show ?thesis by (auto simp: is_over_def dest!: spec [of _ "1 :: nat"])
qed

end
