(* ===== verification/Client_Alone.thy ===== *)
theory Client_Alone
  imports Client_Threads
begin

text \<open>
  The function \<open>Send\<close> of \<open>Socket_Client\<close> is what a call of \<open>Send\<close> does when no other call comes in
  between: for each of its results there is a run of the steps of \<open>Client_Threads\<close> that ends with
  this result, leaves this client and has handed these bytes to the kernel.
\<close>

definition lone :: "nat \<Rightarrow> string \<Rightarrow> client_pc \<times> client_shared \<Rightarrow> client_pc \<times> client_shared \<Rightarrow> bool" where
  "lone i buf a b \<longleftrightarrow> (\<exists>an. kernel_ok an buf (fst a) (snd a) \<and> client_step an i buf (fst a) (snd a) = Some b)"

definition with_send :: "poll_res list \<Rightarrow> sys \<Rightarrow> answers" where
  "with_send polls snt = \<lparr>an_timeout = False, an_hangup = False, an_runtime1 = 0, an_runtime2 = 0, an_socket = Sys_Err 0, an_connect = Sys_Ok 0,
     an_poll = polls, an_send = snt, an_read = Read_Err 0\<rparr>"

definition with_connect :: "conn_round \<Rightarrow> answers" where
  "with_connect r = \<lparr>an_timeout = False, an_hangup = False, an_runtime1 = cr_runtime1 r, an_runtime2 = cr_runtime2 r, an_socket = cr_socket r,
     an_connect = cr_connect r, an_poll = [], an_send = Sys_Err 0, an_read = Read_Err 0\<rparr>"

lemma lone_send:
  "client_step (with_send polls (Sys_Err e)) i buf pc sh = Some b \<Longrightarrow> lone i buf (pc, sh) b"
  unfolding lone_def by (rule exI [of _ "with_send polls (Sys_Err e)"]) (simp add: kernel_ok_def with_send_def split: client_pc.split)

lemma lone_connect:
  "client_step (with_connect r) i buf pc sh = Some b \<Longrightarrow> pc \<noteq> P_Setup \<Longrightarrow> lone i buf (pc, sh) b"
  unfolding lone_def by (rule exI [of _ "with_connect r"]) (simp add: kernel_ok_def with_connect_def split: client_pc.split)

fun out_of :: "unit result \<Rightarrow> outcome" where
  "out_of (Inl e) = O_Threw e"
| "out_of (Inr _) = O_Done"

section \<open>Sending\<close>

text \<open>The steps of one turn of the loop, up to the descriptor of \<open>send\<close>.\<close>

lemma turn_begins:
  assumes "\<not> is_stopped sh" "sent < length buf" "0 \<le> sockfd sh" "connection_of (sockfd sh) sh = Some conn"
  shows "(lone i buf)\<^sup>*\<^sup>* (P_Round sent, sh) (P_Polling (For_Send sent) (sockfd sh), sh)"
proof -
  have "lone i buf (P_Round sent, sh) (P_PollTest (For_Send sent), sh)"
    "lone i buf (P_PollTest (For_Send sent), sh) (P_PollLoad (For_Send sent), sh)"
    "lone i buf (P_PollLoad (For_Send sent), sh) (P_Polling (For_Send sent) (sockfd sh), sh)"
    by (rule lone_send [of "[]" 0], use assms in simp)+
  then show ?thesis by (meson converse_rtranclp_into_rtranclp rtranclp.rtrancl_refl)
qed

lemma turn_polls:
  assumes "0 \<le> sockfd sh" "connection_of (sockfd sh) sh = Some conn" "PollSocket POLLOUT (sockfd sh) polls = Some res"
  shows "lone i buf (P_Polling (For_Send sent) (sockfd sh), sh)
    (case res of Inl e \<Rightarrow> P_SendUnlock (O_Threw e) | Inr _ \<Rightarrow> P_Send sent, sh)"
  by (rule lone_send [of polls 0]) (use assms in \<open>auto simp: with_send_def split: sum.split\<close>)

lemma turn_sends:
  assumes "connection_of (sockfd sh) sh = Some conn" "sent \<le> length buf" "k = min n (length buf - sent)"
  shows "(lone i buf)\<^sup>*\<^sup>* (P_Send sent, sh) (P_Round (sent + k), sh\<lparr>pieces := pieces sh @ [(conn, i, take n (drop sent buf))]\<rparr>)"
proof -
  have "lone i buf (P_Send sent, sh) (P_Sys sent (sockfd sh), sh)" by (rule lone_send [of "[]" 0]) simp
  moreover have "take k (drop sent buf) = take n (drop sent buf)" using assms(3) by (simp add: min_def)
  then have "lone i buf (P_Sys sent (sockfd sh), sh) (P_Round (sent + k), sh\<lparr>pieces := pieces sh @ [(conn, i, take n (drop sent buf))]\<rparr>)"
    unfolding lone_def using assms
    by (intro exI [of _ "with_send [] (Sys_Ok k)"]) (simp add: kernel_ok_def with_send_def)
  ultimately show ?thesis by (meson converse_rtranclp_into_rtranclp rtranclp.rtrancl_refl)
qed

lemma turn_fails:
  assumes "connection_of (sockfd sh) sh = Some conn" "e \<noteq> EINTR"
  shows "(lone i buf)\<^sup>*\<^sup>* (P_Send sent, sh)
    (if e = EAGAIN then P_Round sent else P_SendUnlock (O_Threw (Socket_Exception e ''socket send()'')), sh)"
proof -
  have "lone i buf (P_Send sent, sh) (P_Sys sent (sockfd sh), sh)" by (rule lone_send [of "[]" 0]) simp
  moreover have "lone i buf (P_Sys sent (sockfd sh), sh)
      (if e = EAGAIN then P_Round sent else P_SendUnlock (O_Threw (Socket_Exception e ''socket send()'')), sh)"
    by (rule lone_send [of "[]" e]) (use assms in \<open>simp add: with_send_def\<close>)
  ultimately show ?thesis by (meson converse_rtranclp_into_rtranclp rtranclp.rtrancl_refl)
qed

lemma retry_no_EINTR: "retry_eintr xs = Some (Sys_Err e) \<Longrightarrow> e \<noteq> EINTR"
  by (induction xs rule: retry_eintr.induct) (auto split: if_splits)

lemma send_loop_nothing_left: "fst (send_loop buf sent 0 rs) = Some (Inr ()) \<and> snd (send_loop buf sent 0 rs) = []"
  by (cases rs) simp_all

definition adds_pieces :: "nat \<Rightarrow> string \<Rightarrow> client_shared \<Rightarrow> client_shared \<Rightarrow> bool" where
  "adds_pieces i acc sh sh' \<longleftrightarrow> (\<exists>ps. sh' = sh\<lparr>pieces := pieces sh @ ps\<rparr> \<and> concat (map (snd \<circ> snd) ps) = acc
     \<and> (\<forall>p \<in> set ps. fst (snd p) = i))"

lemma adds_pieces_refl: "adds_pieces i [] sh sh"
  unfolding adds_pieces_def by (rule exI [of _ "[]"]) simp

lemma adds_pieces_step:
  assumes "adds_pieces i acc (sh\<lparr>pieces := pieces sh @ [(conn, i, x)]\<rparr>) sh'"
  shows "adds_pieces i (x @ acc) sh sh'"
proof -
  obtain ps where "sh' = sh\<lparr>pieces := (pieces sh @ [(conn, i, x)]) @ ps\<rparr>" "concat (map (snd \<circ> snd) ps) = acc" "\<forall>p \<in> set ps. fst (snd p) = i"
    using assms by (auto simp: adds_pieces_def)
  then show ?thesis unfolding adds_pieces_def by (intro exI [of _ "(conn, i, x) # ps"]) simp
qed

lemma send_loop_runs:
  assumes "send_loop buf sent (length buf - sent) rs = (Some res, acc)" "sent \<le> length buf"
    "0 \<le> sockfd sh" "connection_of (sockfd sh) sh = Some conn"
    "\<forall>r \<in> set rs. sr_stop r = is_stopped sh \<and> sr_fd r = sockfd sh"
  shows "\<exists>sh'. (lone i buf)\<^sup>*\<^sup>* (P_Round sent, sh) (P_SendUnlock (out_of res), sh') \<and> adds_pieces i acc sh sh'"
  using assms
proof (induction rs arbitrary: sent sh acc)
  case Nil
  then have "sent = length buf" "res = Inr ()" "acc = []" by (auto split: if_splits)
  then have "lone i buf (P_Round sent, sh) (P_SendUnlock (out_of res), sh)" by (intro lone_send [of "[]" 0]) simp
  with adds_pieces_refl \<open>acc = []\<close> show ?case by blast
next
  case (Cons r rs)
  show ?case
  proof (cases "is_stopped sh \<or> sent = length buf")
    case True
    then have "res = Inr ()" "acc = []" using Cons.prems by auto
    moreover have "lone i buf (P_Round sent, sh) (P_SendUnlock O_Done, sh)" by (rule lone_send [of "[]" 0]) (use True in simp)
    ultimately show ?thesis using adds_pieces_refl by auto
  next
    case False
    then have go: "\<not> is_stopped sh" "sent < length buf" "\<not> sr_stop r" "sr_fd r = sockfd sh" "length buf - sent \<noteq> 0"
      using Cons.prems(2,5) by auto
    note begins = turn_begins [OF go(1,2) Cons.prems(3,4), of i]
    obtain pres where poll: "PollSocket POLLOUT (sockfd sh) (sr_polls r) = Some pres"
      using Cons.prems(1) go by (cases "PollSocket POLLOUT (sockfd sh) (sr_polls r)") auto
    note polled = rtranclp.rtrancl_into_rtrancl [OF begins turn_polls [OF Cons.prems(3,4) poll]]
    show ?thesis
    proof (cases pres)
      case (Inl e)
      then have "res = Inl e" "acc = []" using Cons.prems(1) go poll by auto
      with polled Inl adds_pieces_refl show ?thesis by auto
    next
      case (Inr u)
      with polled have at_send: "(lone i buf)\<^sup>*\<^sup>* (P_Round sent, sh) (P_Send sent, sh)" by simp
      obtain x where x: "retry_eintr (sr_sends r) = Some x"
        using Cons.prems(1) go poll Inr by (cases "retry_eintr (sr_sends r)") auto
      show ?thesis
      proof (cases x)
        case (Sys_Ok n)
        let ?k = "min n (length buf - sent)" and ?sh = "sh\<lparr>pieces := pieces sh @ [(conn, i, take n (drop sent buf))]\<rparr>"
        note sent = rtranclp_trans [OF at_send turn_sends [OF Cons.prems(4,2) refl, of i n]]
        obtain more where more: "send_loop buf (sent + n) (length buf - sent - n) rs = (Some res, more)" "acc = take n (drop sent buf) @ more"
          using Cons.prems(1) go poll Inr x Sys_Ok by (auto split: prod.splits)
        have "send_loop buf (sent + ?k) (length buf - (sent + ?k)) rs = (Some res, more)"
        proof (cases "n \<le> length buf - sent")
          case True
          with more(1) show ?thesis by (simp add: min_def)
        next
          case False
          with more(1) have "Some res = fst (send_loop buf (sent + n) 0 rs)" "more = snd (send_loop buf (sent + n) 0 rs)" by simp_all
          with send_loop_nothing_left [of buf "sent + n" rs] send_loop_nothing_left [of buf "length buf" rs] False Cons.prems(2)
          show ?thesis by (simp add: min_def prod_eq_iff)
        qed
        moreover have cs_same: "cs_client ?sh = cs_client sh" by simp
        moreover have "sent + ?k \<le> length buf" using Cons.prems(2) by simp
        moreover have "connection_of (sockfd ?sh) ?sh = Some conn" using Cons.prems(4) by (simp add: connection_of_def split: if_splits)
        ultimately obtain sh' where "(lone i buf)\<^sup>*\<^sup>* (P_Round (sent + ?k), ?sh) (P_SendUnlock (out_of res), sh')" "adds_pieces i more ?sh sh'"
          using Cons.IH [of "sent + ?k" more ?sh] Cons.prems(3,5) by (metis (no_types, lifting) cs_same list.set_intros(2))
        from adds_pieces_step [OF this(2)] rtranclp_trans [OF sent this(1)] more(2) show ?thesis by blast
      next
        case (Sys_Err e)
        then have ne: "e \<noteq> EINTR" using x retry_no_EINTR by blast
        note failed = rtranclp_trans [OF at_send turn_fails [OF Cons.prems(4) ne]]
        show ?thesis
        proof (cases "e = EAGAIN")
          case True
          with Cons.prems(1) go poll Inr x Sys_Err have "send_loop buf sent (length buf - sent) rs = (Some res, acc)" by simp
          moreover have "\<forall>r \<in> set rs. sr_stop r = is_stopped sh \<and> sr_fd r = sockfd sh" using Cons.prems(5) by simp
          ultimately obtain sh' where
            sh': "(lone i buf)\<^sup>*\<^sup>* (P_Round sent, sh) (P_SendUnlock (out_of res), sh')" "adds_pieces i acc sh sh'"
            using Cons.IH [OF _ Cons.prems(2-4)] by blast
          from failed True have "(lone i buf)\<^sup>*\<^sup>* (P_Round sent, sh) (P_Round sent, sh)" by simp
          from rtranclp_trans [OF this sh'(1)] sh'(2) show ?thesis by blast
        next
          case False
          then have "res = Inl (Socket_Exception e ''socket send()'')" "acc = []"
            using Cons.prems(1) go poll Inr x Sys_Err by auto
          with failed False adds_pieces_refl show ?thesis by auto
        qed
      qed
    qed
  qed
qed

section \<open>Connecting\<close>

text \<open>The state in which a call without others has the client \<open>c\<close> and nobody holds a mutex.\<close>

definition idle_with :: "socket_client \<Rightarrow> client_shared \<Rightarrow> bool" where
  "idle_with c sh \<longleftrightarrow> cs_client sh = c \<and> m_fdMutex sh = None \<and> m_sendMutex sh = None \<and> fds_as P_Test sh"

definition in_connect_with :: "nat \<Rightarrow> socket_client \<Rightarrow> client_shared \<Rightarrow> bool" where
  "in_connect_with i c sh \<longleftrightarrow> cs_client sh = c \<and> m_fdMutex sh = Some i \<and> m_sendMutex sh = None \<and> fds_as P_Test sh"

lemma setup_runs:
  fixes r :: conn_round
  assumes "SetupSocketConnect r c = (res, c1)" "in_connect_with i c sh" "m_sockfd c = INVALID_SOCKET"
  shows "\<exists>sh1. (lone i buf)\<^sup>*\<^sup>* (P_Setup, sh) (case res of Inl e \<Rightarrow> P_Retry | Inr _ \<Rightarrow> P_Unlock, sh1)
    \<and> in_connect_with i c1 sh1 \<and> pieces sh1 = pieces sh"
proof -
  let ?c = "c\<lparr>m_numConnect := m_numConnect c + 1\<rparr>"
  have sh: "cs_client sh = c" "m_fdMutex sh = Some i" "m_sendMutex sh = None" "open_fds sh = Map.empty" "ran (open_fds sh) = {}"
    using assms(2,3) by (auto simp: in_connect_with_def fds_as_def)
  have stp: "lone i buf (P_Setup, sh) b" if "client_step (with_connect r) i buf P_Setup sh = Some b" for b
    unfolding lone_def using that sh(4) by (intro exI [of _ "with_connect r"]) (simp add: kernel_ok_def split: sys.split)
  show ?thesis
  proof (cases "cr_socket r")
    case (Sys_Err e)
    then have r: "res = Inl (Socket_Exception e ''SocketClient socket()'')" "c1 = ?c" using assms(1,3) by (auto simp: SetupSocketConnect_def)
    have "lone i buf (P_Setup, sh) (P_Retry, sh\<lparr>cs_client := ?c\<rparr>)"
      by (rule stp) (use sh assms(3) Sys_Err in \<open>simp add: with_connect_def\<close>)
    with r sh assms(3) show ?thesis by (intro exI [of _ "sh\<lparr>cs_client := ?c\<rparr>"]) (auto simp: in_connect_with_def fds_as_def)
  next
    case (Sys_Ok fd)
    let ?s1 = "sh\<lparr>cs_client := ?c, open_fds := [fd \<mapsto> num_conns sh], num_conns := num_conns sh + 1\<rparr>"
    let ?s2 = "set_sockfd (int fd) ?s1"
    have "lone i buf (P_Setup, sh) (P_Opened fd, ?s1)" by (rule stp) (use sh assms(3) Sys_Ok in \<open>simp add: with_connect_def Let_def\<close>)
    moreover have "lone i buf (P_Opened fd, ?s1) (P_Connecting, ?s2)" by (rule lone_send [of "[]" 0]) simp
    ultimately have opened: "(lone i buf)\<^sup>*\<^sup>* (P_Setup, sh) (P_Connecting, ?s2)"
      by (meson converse_rtranclp_into_rtranclp rtranclp.rtrancl_refl)
    show ?thesis
    proof (cases "cr_connect r")
      case ok: (Sys_Ok n)
      have "lone i buf (P_Connecting, ?s2) (P_Unlock, ?s2)" by (rule lone_connect [of r]) (use ok in \<open>simp_all add: with_connect_def\<close>)
      with opened have "(lone i buf)\<^sup>*\<^sup>* (P_Setup, sh) (P_Unlock, ?s2)" by simp
      moreover have "res = Inr ()" "c1 = ?c\<lparr>m_sockfd := int fd\<rparr>" using assms(1,3) Sys_Ok ok by (auto simp: SetupSocketConnect_def)
      ultimately show ?thesis using sh by (intro exI [of _ ?s2]) (auto simp: in_connect_with_def fds_as_def set_sockfd_def INVALID_SOCKET_def)
    next
      case (Sys_Err e)
      let ?s3 = "set_sockfd INVALID_SOCKET (close_fd ?s2)"
      have "lone i buf (P_Connecting, ?s2) (P_Refused, ?s2)" by (rule lone_connect [of r]) (use Sys_Err in \<open>simp_all add: with_connect_def\<close>)
      moreover have "lone i buf (P_Refused, ?s2) (P_Reset, close_fd ?s2)" "lone i buf (P_Reset, close_fd ?s2) (P_Retry, ?s3)"
        by (rule lone_send [of "[]" 0], simp)+
      ultimately have "(lone i buf)\<^sup>*\<^sup>* (P_Setup, sh) (P_Retry, ?s3)" using opened by (meson rtranclp.rtrancl_into_rtrancl)
      moreover have "\<exists>e. res = Inl e" "c1 = ?c\<lparr>m_sockfd := INVALID_SOCKET\<rparr>"
        using assms(1,3) Sys_Ok Sys_Err by (auto simp: SetupSocketConnect_def)
      ultimately show ?thesis using sh
        by (intro exI [of _ ?s3]) (auto simp: in_connect_with_def fds_as_def set_sockfd_def close_fd_def)
    qed
  qed
qed

lemma retry_runs:
  fixes r :: conn_round
  shows "lone i buf (P_Retry, sh) (if m_connRetryTimeoutMS (cs_client sh) \<le> cr_runtime1 r \<or> IsRetryTimeout (cr_runtime2 r) (cs_client sh)
     then P_Unlock else P_Loop, sh)"
  by (rule lone_connect [of r]) (simp_all add: with_connect_def)

lemma connect_loop_runs:
  fixes crs :: "conn_round list"
  assumes "connect_loop crs c = (Some u, c1, t)" "in_connect_with i c sh" "m_sockfd c = INVALID_SOCKET" "\<forall>r \<in> set crs. cr_stop r = m_stopClient c"
  shows "\<exists>sh1. (lone i buf)\<^sup>*\<^sup>* (P_Loop, sh) (P_Unlock, sh1) \<and> in_connect_with i c1 sh1 \<and> pieces sh1 = pieces sh"
  using assms
proof (induction crs arbitrary: c sh t)
  case (Cons r crs)
  have sh: "cs_client sh = c" using Cons.prems(2) by (simp add: in_connect_with_def)
  show ?case
  proof (cases "cr_stop r")
    case True
    then have "lone i buf (P_Loop, sh) (P_Unlock, sh)" by (intro lone_send [of "[]" 0]) (use Cons.prems(4) sh in simp)
    moreover have "c1 = c" using Cons.prems(1) True by simp
    ultimately show ?thesis using Cons.prems(2) by blast
  next
    case False
    then have start: "lone i buf (P_Loop, sh) (P_Setup, sh)" by (intro lone_send [of "[]" 0]) (use Cons.prems(4) sh in simp)
    obtain res c2 where s: "SetupSocketConnect r c = (res, c2)" by fastforce
    obtain sh2 where sh2: "(lone i buf)\<^sup>*\<^sup>* (P_Setup, sh) (case res of Inl e \<Rightarrow> P_Retry | Inr _ \<Rightarrow> P_Unlock, sh2)"
      "in_connect_with i c2 sh2" "pieces sh2 = pieces sh"
      using setup_runs [OF s Cons.prems(2,3)] by blast
    have run: "(lone i buf)\<^sup>*\<^sup>* (P_Loop, sh) (case res of Inl e \<Rightarrow> P_Retry | Inr _ \<Rightarrow> P_Unlock, sh2)"
      by (rule converse_rtranclp_into_rtranclp [of "lone i buf", OF start sh2(1)])
    note frame = SetupSocketConnect_frame [OF s]
    show ?thesis
    proof (cases res)
      case (Inr v)
      then have "c1 = c2" using Cons.prems(1) False s by simp
      with run Inr sh2(2,3) show ?thesis by auto
    next
      case (Inl e)
      have c2: "cs_client sh2 = c2" using sh2(2) by (simp add: in_connect_with_def)
      note retried = rtranclp.rtrancl_into_rtrancl [OF run [unfolded Inl sum.case] retry_runs [of i buf sh2 r]]
      show ?thesis
      proof (cases "m_connRetryTimeoutMS c2 \<le> cr_runtime1 r \<or> IsRetryTimeout (cr_runtime2 r) c2")
        case True
        then have "c1 = c2" using Cons.prems(1) False s Inl by (auto simp: Let_def split: if_splits prod.splits)
        with retried True c2 sh2(2,3) show ?thesis by auto
      next
        case again: False
        then obtain t' where "connect_loop crs c2 = (Some u, c1, t')"
          using Cons.prems(1) False s Inl by (auto simp: Let_def split: prod.splits)
        moreover have "m_sockfd c2 = INVALID_SOCKET" "m_stopClient c2 = m_stopClient c" using frame Inl by auto
        ultimately obtain sh1 where sh1: "(lone i buf)\<^sup>*\<^sup>* (P_Loop, sh2) (P_Unlock, sh1)" "in_connect_with i c1 sh1" "pieces sh1 = pieces sh2"
          using Cons.IH [of c2 t' sh2] sh2(2) Cons.prems(4) by auto
        from retried again c2 have "(lone i buf)\<^sup>*\<^sup>* (P_Loop, sh) (P_Loop, sh2)" by simp
        with sh1 sh2(3) show ?thesis by (metis rtranclp_trans)
      qed
    qed
  qed
qed simp

lemma connect_runs:
  fixes crs :: "conn_round list"
  assumes "Connect crs c = (Some u, c1, t)" "idle_with c sh" "\<forall>r \<in> set crs. cr_stop r = m_stopClient c"
  shows "\<exists>sh1. (lone i buf)\<^sup>*\<^sup>* (P_Test, sh) (P_Check, sh1) \<and> idle_with c1 sh1 \<and> pieces sh1 = pieces sh"
proof (cases "INVALID_SOCKET = m_sockfd c")
  case False
  then have "lone i buf (P_Test, sh) (P_Check, sh)" by (intro lone_send [of "[]" 0]) (use assms(2) in \<open>simp add: idle_with_def\<close>)
  moreover have "c1 = c" using assms(1) False by (simp add: Connect_def)
  ultimately show ?thesis using assms(2) by blast
next
  case True
  let ?sh = "sh\<lparr>m_fdMutex := Some i\<rparr>"
  have "lone i buf (P_Test, sh) (P_Lock, sh)" "lone i buf (P_Lock, sh) (P_Loop, ?sh)"
    by (rule lone_send [of "[]" 0], use True assms(2) in \<open>simp add: idle_with_def lock_fd_def\<close>)+
  then have locked: "(lone i buf)\<^sup>*\<^sup>* (P_Test, sh) (P_Loop, ?sh)" by (meson converse_rtranclp_into_rtranclp rtranclp.rtrancl_refl)
  have "in_connect_with i c ?sh" using assms(2) by (auto simp: idle_with_def in_connect_with_def fds_as_def)
  moreover have "connect_loop crs c = (Some u, c1, t)" using assms(1) True by (simp add: Connect_def)
  ultimately obtain sh1 where sh1: "(lone i buf)\<^sup>*\<^sup>* (P_Loop, ?sh) (P_Unlock, sh1)" "in_connect_with i c1 sh1" "pieces sh1 = pieces sh"
    using connect_loop_runs [of crs c u c1 t i ?sh buf] True assms(3) by auto
  have "lone i buf (P_Unlock, sh1) (P_Check, sh1\<lparr>m_fdMutex := None\<rparr>)" by (rule lone_send [of "[]" 0]) simp
  with locked sh1(1) have "(lone i buf)\<^sup>*\<^sup>* (P_Test, sh) (P_Check, sh1\<lparr>m_fdMutex := None\<rparr>)"
    by (meson rtranclp.rtrancl_into_rtrancl rtranclp_trans)
  moreover have "idle_with c1 (sh1\<lparr>m_fdMutex := None\<rparr>)" using sh1(2) by (auto simp: idle_with_def in_connect_with_def fds_as_def)
  ultimately show ?thesis using sh1(3) by (intro exI [of _ "sh1\<lparr>m_fdMutex := None\<rparr>"]) simp
qed

section \<open>A whole call\<close>

lemma close_runs:
  assumes "cs_client sh = c" "m_fdMutex sh = None" "m_sendMutex sh = None" "fds_as P_Test sh"
  shows "\<exists>sh1. (lone i buf)\<^sup>*\<^sup>* (P_Close res, sh) (P_Done res, sh1) \<and> idle_with (Close c) sh1 \<and> pieces sh1 = pieces sh"
proof -
  let ?s1 = "sh\<lparr>m_fdMutex := Some i\<rparr>"
  have closing: "lone i buf (P_Close res, sh) (P_Closing res, ?s1)"
    by (rule lone_send [of "[]" 0]) (use assms in \<open>simp add: lock_fd_def\<close>)
  show ?thesis
  proof (cases "m_sockfd c = INVALID_SOCKET")
    case True
    have "lone i buf (P_Closing res, ?s1) (P_Done res, sh)"
      by (rule lone_send [of "[]" 0]) (use True assms in simp)
    with closing have "(lone i buf)\<^sup>*\<^sup>* (P_Close res, sh) (P_Done res, sh)"
      by (meson converse_rtranclp_into_rtranclp rtranclp.rtrancl_refl)
    with True assms show ?thesis by (intro exI [of _ sh]) (simp add: idle_with_def Close_def)
  next
    case False
    let ?s2 = "close_fd ?s1" and ?s3 = "(set_sockfd INVALID_SOCKET (close_fd ?s1))\<lparr>m_fdMutex := None\<rparr>"
    have "lone i buf (P_Closing res, ?s1) (P_Closed res, ?s2)" "lone i buf (P_Closed res, ?s2) (P_Done res, ?s3)"
      by (rule lone_send [of "[]" 0], use False assms in simp)+
    with closing have "(lone i buf)\<^sup>*\<^sup>* (P_Close res, sh) (P_Done res, ?s3)"
      by (meson converse_rtranclp_into_rtranclp rtranclp.rtrancl_refl)
    moreover have "open_fds ?s3 = Map.empty"
      using False assms by (auto simp: fds_as_def close_fd_def set_sockfd_def dom_def fun_eq_iff)
    ultimately show ?thesis using False assms
      by (intro exI [of _ ?s3]) (simp add: idle_with_def Close_def fds_as_def set_sockfd_def close_fd_def)
  qed
qed

lemma SendData_outcome:
  "send_loop buf 0 left srs = (Some res, acc) \<Longrightarrow> (case res of Inl e \<Rightarrow> is_socket_exception e | Inr _ \<Rightarrow> True)"
  using send_loop_error by (cases res) fastforce+

text \<open>
  C34: what the function \<open>Send\<close> says of a call, the steps of the call do when they run without others
  in between: a result of \<open>Send\<close>, for turns that observe the flag and the descriptor as they are,
  is the result of a run, which leaves the client as \<open>Send\<close> says, all mutexes free, and the
  bytes of \<open>Send\<close> with the kernel.
\<close>

theorem Send_is_a_run:
  fixes crs :: "conn_round list"
  assumes "Send (Some data) crs srs c = (Some res, c', acc)" "idle_with c sh"
    "\<forall>r \<in> set crs. cr_stop r = m_stopClient c"
    "\<forall>r \<in> set srs. sr_stop r = m_stopClient c \<and> sr_fd r = m_sockfd (fst (snd (Connect crs c)))"
  shows "\<exists>sh'. (lone i (c_str data))\<^sup>*\<^sup>* (snd (begin_Send data), sh) (P_Done (out_of res), sh')
    \<and> idle_with c' sh' \<and> bytes_of_call i sh' = bytes_of_call i sh @ acc"
proof (cases "c_str data = []")
  case True
  then show ?thesis using assms(1,2) by (auto simp: Send_def Send_bytes_def begin_Send_def)
next
  case False
  let ?buf = "c_str data"
  have start: "snd (begin_Send data) = P_Test" using False by (simp add: begin_Send_def)
  obtain u c1 t where conn: "Connect crs c = (Some u, c1, t)"
    using assms(1) False by (auto simp: Send_def Send_bytes_def split: option.splits prod.splits)
  obtain sh1 where sh1: "(lone i ?buf)\<^sup>*\<^sup>* (P_Test, sh) (P_Check, sh1)" "idle_with c1 sh1" "pieces sh1 = pieces sh"
    using connect_runs [OF conn assms(2,3)] by blast
  have c1: "cs_client sh1 = c1" "m_fdMutex sh1 = None" "m_sendMutex sh1 = None" "fds_as P_Test sh1"
    using sh1(2) by (simp_all add: idle_with_def)
  show ?thesis
  proof (cases "m_sockfd c1 < 0")
    case True
    define e where "e = Socket_Exception 0 (''SocketClient Send(): invalid sockfd '' @ to_string_int (m_sockfd c1))"
    have r: "res = Inl e" "c' = Close c1" "acc = []"
      using assms(1) False conn True by (auto simp: Send_def Send_bytes_def e_def)
    have check: "lone i ?buf (P_Check, sh1) (P_Close (O_Threw e), sh1)"
      by (rule lone_send [of "[]" 0]) (use True c1 in \<open>simp add: bad_fd_def e_def\<close>)
    obtain sh2 where sh2: "(lone i ?buf)\<^sup>*\<^sup>* (P_Close (O_Threw e), sh1) (P_Done (O_Threw e), sh2)" "idle_with (Close c1) sh2" "pieces sh2 = pieces sh1"
      using close_runs [OF c1] by blast
    have "(lone i ?buf)\<^sup>*\<^sup>* (P_Test, sh) (P_Done (O_Threw e), sh2)"
      using rtranclp_trans [OF rtranclp.rtrancl_into_rtrancl [OF sh1(1) check] sh2(1)] .
    moreover have "bytes_of_call i sh2 = bytes_of_call i sh" using same_pieces(1) sh2(3) sh1(3) by metis
    ultimately show ?thesis using start r sh2(2) by (intro exI [of _ sh2]) simp
  next
    case open_fd: False
    let ?locked = "sh1\<lparr>m_sendMutex := Some i\<rparr>"
    have "lone i ?buf (P_Check, sh1) (P_Data, sh1)" "lone i ?buf (P_Data, sh1) (P_SendLock, sh1)"
      "lone i ?buf (P_SendLock, sh1) (P_Round 0, ?locked)"
      by (rule lone_send [of "[]" 0], use open_fd c1 in simp)+
    with sh1(1) have at_loop: "(lone i ?buf)\<^sup>*\<^sup>* (P_Test, sh) (P_Round 0, ?locked)"
      by (meson rtranclp.rtrancl_into_rtrancl)
    obtain r where loop: "send_loop ?buf 0 (length ?buf) srs = (Some res, acc)"
      and c': "c' = (case res of Inl e \<Rightarrow> Close c1 | Inr _ \<Rightarrow> c1)"
    proof -
      have "SendData (Some ?buf) (m_sockfd c1) srs = send_loop ?buf 0 (length ?buf) srs" using open_fd False by (simp add: SendData_def)
      then have "send_loop ?buf 0 (length ?buf) srs = (Some res, acc) \<and> c' = (case res of Inl e \<Rightarrow> if is_socket_exception e then Close c1 else c1 | Inr _ \<Rightarrow> c1)"
        using assms(1) False conn open_fd by (auto simp: Send_def Send_bytes_def take_c_str split: option.splits prod.splits sum.splits)
      with SendData_outcome that show thesis by (fastforce split: sum.splits)
    qed
    have "dom (open_fds sh1) = {nat (m_sockfd c1)}" using c1(1,4) open_fd by (auto simp: fds_as_def INVALID_SOCKET_def split: if_splits)
    then obtain conn where cn: "connection_of (sockfd ?locked) ?locked = Some conn"
      using open_fd c1(1) by (force simp: connection_of_def)
    have stop: "m_stopClient c1 = m_stopClient c" using connect_loop_props [of crs c] conn by (auto simp: Connect_def split: if_splits)
    obtain sh2 where sh2: "(lone i ?buf)\<^sup>*\<^sup>* (P_Round 0, ?locked) (P_SendUnlock (out_of res), sh2)" "adds_pieces i acc ?locked sh2"
      using send_loop_runs [of ?buf 0 srs res acc ?locked conn i] loop cn open_fd c1(1) assms(4) conn stop by auto
    let ?sh3 = "sh2\<lparr>m_sendMutex := None\<rparr>"
    obtain ps where ps: "sh2 = ?locked\<lparr>pieces := pieces ?locked @ ps\<rparr>" "concat (map (snd \<circ> snd) ps) = acc" "\<forall>p \<in> set ps. fst (snd p) = i"
      using sh2(2) by (auto simp: adds_pieces_def)
    then have c3: "cs_client ?sh3 = c1" "m_fdMutex ?sh3 = None" "m_sendMutex ?sh3 = None" "fds_as P_Test ?sh3"
      using c1 fds_as_frame [of ?sh3 sh1] by simp_all
    have bytes: "bytes_of_call i ?sh3 = bytes_of_call i sh @ acc"
      using ps sh1(3) by (simp add: bytes_of_call_def filter_True)
    have unlock: "lone i ?buf (P_SendUnlock (out_of res), sh2) (if out_of res = O_Done then P_Done O_Done else P_Close (out_of res), ?sh3)"
      by (rule lone_send [of "[]" 0]) simp
    note run = rtranclp.rtrancl_into_rtrancl [OF rtranclp_trans [OF at_loop sh2(1)] unlock]
    show ?thesis
    proof (cases res)
      case (Inr v)
      with run c' c3 bytes start show ?thesis by (auto simp: idle_with_def)
    next
      case (Inl e)
      obtain sh4 where sh4: "(lone i ?buf)\<^sup>*\<^sup>* (P_Close (O_Threw e), ?sh3) (P_Done (O_Threw e), sh4)" "idle_with (Close c1) sh4" "pieces sh4 = pieces ?sh3"
        using close_runs [OF c3] by blast
      have "bytes_of_call i sh4 = bytes_of_call i ?sh3" using sh4(3) by (rule same_pieces(1))
      moreover have "(lone i ?buf)\<^sup>*\<^sup>* (P_Test, sh) (P_Done (out_of res), sh4)"
        using rtranclp_trans [OF run] sh4(1) Inl by simp
      ultimately show ?thesis using start c' Inl sh4(2) bytes by auto
    qed
  qed
qed

theorem Send_is_a_run_witness:
  "\<exists>sh'. (lone 0 ''abc'')\<^sup>*\<^sup>* (P_Test, cy_shared (new_client_system (unix_client 1000))) (P_Done O_Done, sh')
    \<and> bytes_of_call 0 sh' = ''abc''"
proof -
  let ?c = "unix_client 1000" and ?crs = "[connecting 3]" and ?srs = "[accepting 3 2, accepting 3 1]"
  have e: "c_str ''abc'' = ''abc''" by code_simp
  have send: "Send (Some ''abc'') ?crs ?srs ?c = (Some (Inr ()), ?c\<lparr>m_sockfd := 3, m_numConnect := 1\<rparr>, ''abc'')"
    by (simp add: Send_def Send_bytes_def SendData_def Connect_def SetupSocketConnect_def e concrete_turns PollSocket_def
        INVALID_SOCKET_def EINTR_def POLLOUT_def POLLHUP_def)
  have "m_sockfd (fst (snd (Connect ?crs ?c))) = 3"
    by (simp add: Connect_def SetupSocketConnect_def concrete_turns INVALID_SOCKET_def)
  moreover have "idle_with ?c (cy_shared (new_client_system ?c))"
    by (simp add: idle_with_def new_client_system_def fds_as_def concrete_turns)
  ultimately show ?thesis
    using Send_is_a_run [OF send, of "cy_shared (new_client_system ?c)" 0] e
    by (auto simp: begin_Send_def concrete_turns new_client_system_def bytes_of_call_def)
qed

end
