(* ===== verification/Spec2Isabelle.thy ===== *)
theory Spec2Isabelle
  imports Logger_Shutdown Logger_Order Closed_Loop Plugin_Calls Socket_Spec Client_Calls Client_Alone
begin

text \<open>
  A model of \<open>fluentd-plugin-mdsd\<close>: the C++ library that sends log events to the mdsd daemon
  over a local socket and keeps them until the daemon acknowledges them.

  The program. A caller makes a log item and gives it to a logger. An item has a tag that is
  unique in the process, a source, and named and typed fields; composed, it is a message
  \<open>length newline ["source",tag,schema id,schema,values]\<close>. mdsd answers each message with a
  line \<open>tag:status\<close>. \<open>BufferedLogger\<close> queues the items; a sender thread pops them, puts them
  into a cache under their tags and sends them; a reader thread removes the acknowledged
  ones; a resender thread drops those whose acknowledgement is overdue and sends the others
  again. \<open>SocketLogger\<close> is the same without queue and sender: it sends in the caller's
  thread. All share one \<open>SocketClient\<close>, which reconnects as needed. The Fluentd plugin, in
  Ruby, makes schema and values of a record itself and gives the text to a \<open>SocketLogger\<close>.

  The theories and the code (under \<open>src/src/outmdsd\<close> where nothing else is said):
  \<^item> \<open>Mdsd_Prelude\<close>: byte strings and their searches, decimal printing, the exceptions
    (\<open>Exceptions.h\<close>), the lemma collections.
  \<^item> \<open>Concurrent_Queue\<close> (\<open>ConcurrentQueue.h\<close>): the bounded queue; the interface of a work
    queue as a locale, with \<open>push\<close>, \<open>wait_and_pop\<close>, \<open>stop_once_empty\<close> as its interpretation.
    Its lemmas: a history is that of a list that keeps its newest elements, so it is FIFO and
    loses nothing without a limit or while the limit is not exceeded.
  \<^item> \<open>Concurrent_Map\<close> (\<open>ConcurrentMap.h\<close>): the cache, an association list with distinct
    non-empty keys; the interface of a keyed store as a locale; erasing, filtering.
  \<^item> \<open>Json_Text\<close>: JSON as the messages use it (words, strings, arrays), a printer and a parser
    that inverts it; what the texts mean is stated with it.
  \<^item> \<open>Stream_Framing\<close>: what a message format must satisfy to be cut out of a byte stream that
    arrives in arbitrary pieces, as two locales: \<open>splitter\<close>, interpreted for the mock server's
    search for tags in \<open>Mock_Server\<close>, and \<open>framing\<close>, which extends it, interpreted for the
    length-prefixed messages in \<open>Djson_Item\<close> and for lines in \<open>Data_Reader\<close>.
  \<^item> \<open>Id_Mgr\<close> (\<open>IdMgr.cc\<close>): schema ids; ids are dense, unique and stable.
  \<^item> \<open>Log_Item\<close> (\<open>LogItem.h\<close>): tags from a 64-bit counter, ages from a clock.
  \<^item> \<open>Djson_Item\<close> (\<open>DjsonLogItem.cc\<close>, \<open>EtwLogItem.h\<close>): building and composing messages; each
    carries its own schema, streams of messages decode to what was sent. \<open>Djson_Message\<close>: a
    composed message parses to source, tag, schema and values, and each value has the type
    of its column.
  \<^item> \<open>Sock_Addr\<close> (\<open>SockAddr.cc\<close>), \<open>Socket_Client\<close> (\<open>SocketClient.cc\<close>): connecting with
    retries, polling, partial sends, reading. Each loop runs over a list of turns; a turn
    records what the code observes in it (flags, results of system calls, the clock).
    A list that is used up means that the call has not returned yet (\<open>None\<close>); the lemmas on
    progress say how many turns are enough.
  \<^item> \<open>Client_Threads\<close> (\<open>SocketClient.cc\<close> again): the client as its threads share it. Any number
    of calls of \<open>Send\<close>, \<open>Read\<close>, \<open>Close\<close> and \<open>Stop\<close> move one access at a time: descriptor, stop flag,
    the two mutexes, system calls on descriptors that another call may have closed. The
    invariant \<open>client_ok\<close> says who holds which mutex, which descriptors are open, what has been
    sent for whom. It begins with the client of either constructor. \<open>Client_Calls\<close>: messages are not mixed, one socket at a time, \<open>Stop\<close> is final and
    ends the calls; and the two races that are left, a message torn by a reconnection and a
    call that polls no descriptor for ever. \<open>Client_Alone\<close>: the function \<open>Send\<close> of \<open>Socket_Client\<close> is
    a run of a call that nobody disturbs.
  \<^item> \<open>Data_Reader\<close> (\<open>DataReader.cc\<close>): acknowledgements, split at newlines across reads. A line
    that is a tag, alone or with status 0, removes the tag's item; with an error status the
    item stays, although the comment of the class has it removed.
  \<^item> \<open>Logger_State\<close>: what the threads share. Items are referred to by pointers and changed in
    place, so they are a store indexed by pointers; every call of \<open>Send\<close> leaves what the
    kernel accepted in \<open>wire\<close>.
  \<^item> \<open>Data_Sender\<close> (\<open>DataSender.cc\<close>), \<open>Data_Resender\<close> (\<open>DataResender.cc\<close>): the two threads
    as machines; a program counter names the place in the loop and one step is one access to
    shared state. Their lemmas: what every step preserves, how many steps drain the queue or
    finish a round, that a stopped sender ends once its queue is stopped too. \<open>Reader_Thread\<close>: the reader over the shared
    state, for both loggers; a step is a call of \<open>Read\<close> or the handling of one acknowledgement.
    It only removes from the cache, and undisturbed its steps are a turn of the loop.
  \<^item> \<open>Buffered_Logger\<close> (\<open>BufferedLogger.cc\<close>): constructor, \<open>AddData\<close>, \<open>WaitUntilAllSend\<close>,
    destructor, and the step relation in which callers and threads interleave; its
    invariant \<open>logger_ok\<close> holds in all reachable states.
  \<^item> \<open>Logger_Spec\<close>: the logger as a bounded buffer of tags (accepted, queued, held, not yet
    acknowledged, tried) and the simulation by which every step of the logger is a step of the
    buffer; the invariant of the buffer follows for the logger. What a simulation must
    satisfy and gives is a locale of \<open>Mdsd_Prelude\<close>.
  \<^item> \<open>Logger_Order\<close>: without a cache, the messages go out in the order of \<open>AddData\<close> and none
    twice, under any interleaving.
  \<^item> \<open>Logger_Acked\<close>: the cycle of adding, caching, sending, acknowledging, forgetting, for the
    schedule that does one after the other.
  \<^item> \<open>Logger_Shutdown\<close>: after the destructor has set the stop flags the three threads end; a
    measure counts the steps left. The return of a call of \<open>Read\<close> in progress is a move of its
    own: the reader is over only after it, and \<open>reader_hangs_reachable\<close> in \<open>Client_Calls\<close>
    shows a call that does not return. The destructors of the members.
  \<^item> \<open>Socket_Logger\<close> (\<open>SocketLogger.cc\<close>): \<open>SendData\<close> and \<open>SendDjson\<close>, with the other threads'
    interference as functions. \<open>Socket_Calls\<close>: a call as a machine like the sender, and the
    step relation in which any number of calls, the reader, the resender and the destructor
    interleave. \<open>evolves\<close> is what every step guarantees to the others, \<open>ss_ok\<close> the invariant of
    the reachable states; from them follows what the result of a call promises. The machine
    and the function are shown to agree. \<open>Socket_Spec\<close>: the logger as an exchange of tags
    (handed over, kept, sent, calls and their results), the second interpretation of the simulation.
  \<^item> \<open>Trace_Log\<close> (\<open>Trace.cc\<close>, \<open>FileTracer.cc\<close>, \<open>SyslogTracer.cc\<close>, and
    \<open>src/src/outmdsdrb/outmdsd_log.cxx\<close>): levels, log lines, writing them.
  \<^item> \<open>Plugin_Message\<close>, \<open>Mdsd_Plugin\<close>, \<open>Plugin_Chunk\<close>
    (\<open>src/src/fluent-plugin-mdsd/lib/fluent/plugin/out_mdsd.rb\<close>): schema table and message
    text; configuration and the handling of events down to \<open>SendDjson\<close>; the formatting of events
    into a chunk and the reading of it. A chunk delivered is a stream of frames whose payloads
    parse to its records; \<open>Plugin_Calls\<close> has this for one record under any interleaving of the
    logger's threads.
  \<^item> \<open>Mock_Server\<close> (\<open>src/src/test/outmdsd/MockServer.cc\<close>): the server the tests run for mdsd, as far
    as it handles the bytes of a connection. \<open>Closed_Loop\<close>: the buffered logger and this server,
    from the adding of items to the empty cache, with both streams cut anywhere.

  Conventions. A method of a class is a function that takes and returns the record of its
  members; an exception is the left value of \<open>exn + 'a\<close>; \<open>size_t\<close> counters are natural
  numbers, integers whose width matters are words; a mutex makes its critical section one
  step. A null pointer is \<open>None\<close>. The kernel is assumed not to accept or return more bytes
  than it is offered or asked for.

  Bounds. A loop over turns is given as many turns as the lemma about it asks for: one per
  byte for sending, six sender steps per item without a cache and nine with one (and two to
  leave the loop), three to stop; sixteen steps for a call of the client once it is stopped.
  The JSON parser's fuel is the length of its input, which
  \<open>parse_print_all\<close> shows to be enough for every printed text.

  What is abstracted. A call of \<open>Send\<close> is one step at its return, with what it observed
  meanwhile in its turns, a call of \<open>Read\<close> likewise; the bytes of all connections are one
  \<open>wire\<close>. That the calls leave their bytes there one after the other is what
  \<open>Client_Calls\<close> shows, where their single accesses interleave; the sleep between two attempts to
  connect is no step there. \<open>GetData\<close> is one step, although the code does not
  synchronise it. The random factor of the reconnection delay is a rational and its product
  with the delay is exact. The text of a \<open>double\<close> field and the calendar time of
  a log line are arguments. The calls of \<open>Log\<close> in the other components are left out of their
  models. Of Ruby, \<open>JSON.generate\<close> of a string is modelled (escapes, invalid UTF-8 is an
  error); the texts of \<open>to_s\<close> and \<open>to_json\<close> of compound values and floats are part of the
  value, matching a regular expression is an argument, and so are the packing and the
  unpacking of MessagePack, with the law that arrays packed one behind the other are read
  back. The destructor of \<open>SocketLogger\<close> runs when no call of \<open>SendDjson\<close> does. Callers of
  \<open>BufferedLogger\<close> make each item and add it once, as the comment of \<open>AddData\<close> has it (a new
  item); adding one pointer a second time is not modelled. Values of a plugin record are of
  the classes the plugin tells apart; objects of subclasses of \<open>String\<close>, \<open>Array\<close> or \<open>Hash\<close> are
  not represented.

  Not modelled: the generated binding and its SWIG description, the shim for
  \<open>memcpy\<close> (\<open>src/src/outmdsdrb\<close>), the plugin's logging, the tests, and of their mock server
  the accepting of connections and its threads: they only call libraries and check results.
\<close>

end
